(* ===== verification/Wanopt_Prelude.thy ===== *)
theory Wanopt_Prelude
  imports Main "HOL-Library.Word"
begin

unbundle bit_operations_syntax

text \<open>
  Shared vocabulary of the development. It holds the Go types the components use
  (\<open>byte\<close>, \<open>uint16\<close>, \<open>uint64\<close>, \<open>time.Time\<close>, \<open>error\<close>), the reading and writing
  ends of an \<open>io.Reader\<close>/\<open>io.Writer\<close>, big-endian integers, the conversion between a
  Go string and its bytes, and the generic lemmas on lists and sums that the component
  proofs rely on.

  A Go string is a sequence of bytes and HOL's \<open>char\<close> is exactly one byte, so Go strings
  are HOL strings. Instants are nanoseconds since Go's zero time, so \<open>IsZero\<close> is
  \<open>= 0\<close>.
\<close>

section \<open>Types\<close>

type_synonym byte = "8 word"
type_synonym bytes = "byte list"
type_synonym u16 = "16 word"
type_synonym u64 = "64 word"
type_synonym instant = int
type_synonym duration = int

definition second :: duration where "second = 1000000000"
definition minute :: duration where "minute = 60 * second"
definition hour :: duration where "hour = 60 * minute"

text \<open>\<open>if v <= 0 { v = def }\<close>, the defaults of every \<open>Options\<close>.\<close>

definition positive_or :: "int \<Rightarrow> int \<Rightarrow> int" where
  "positive_or v def = (if v \<le> 0 then def else v)"

text \<open>
  Error values. The sentinels of the source and of the libraries it calls are
  constructors, since the source compares against them; every other \<open>errors.New\<close> is an
  \<open>ErrorString\<close>; \<open>Wrapped\<close> is \<open>fmt.Errorf\<close> with \<open>%w\<close>, \<open>Joined\<close> is
  \<open>errors.Join\<close>. \<open>NetError t\<close> is a \<open>net.Error\<close> whose \<open>Timeout()\<close> is \<open>t\<close>.
\<close>

datatype go_error =
    EOF | ErrUnexpectedEOF | ErrShortWrite | ErrNoProgress | ErrClosedPipe
  | DeadlineExceeded | Canceled | NetErrClosed | NetError bool
  | ErrCapacity | ErrClosed
  | ErrDenied | ErrBusy | ErrAddress
  | errBadAddress | ErrSize | errUDPPayloadTooLarge
  | DialError byte
  | ErrorString string
  | Wrapped string go_error
  | Joined go_error go_error

primrec errors_Is :: "go_error \<Rightarrow> go_error \<Rightarrow> bool" where
  "errors_Is EOF t = (t = EOF)"
| "errors_Is ErrUnexpectedEOF t = (t = ErrUnexpectedEOF)"
| "errors_Is ErrShortWrite t = (t = ErrShortWrite)"
| "errors_Is ErrNoProgress t = (t = ErrNoProgress)"
| "errors_Is ErrClosedPipe t = (t = ErrClosedPipe)"
| "errors_Is DeadlineExceeded t = (t = DeadlineExceeded)"
| "errors_Is Canceled t = (t = Canceled)"
| "errors_Is NetErrClosed t = (t = NetErrClosed)"
| "errors_Is (NetError b) t = (t = NetError b)"
| "errors_Is ErrCapacity t = (t = ErrCapacity)"
| "errors_Is ErrClosed t = (t = ErrClosed)"
| "errors_Is ErrDenied t = (t = ErrDenied)"
| "errors_Is ErrBusy t = (t = ErrBusy)"
| "errors_Is ErrAddress t = (t = ErrAddress)"
| "errors_Is errBadAddress t = (t = errBadAddress)"
| "errors_Is ErrSize t = (t = ErrSize)"
| "errors_Is errUDPPayloadTooLarge t = (t = errUDPPayloadTooLarge)"
| "errors_Is (DialError s) t = (t = DialError s)"
| "errors_Is (ErrorString s) t = (t = ErrorString s)"
| "errors_Is (Wrapped m e) t = (t = Wrapped m e \<or> errors_Is e t)"
| "errors_Is (Joined a b) t = (t = Joined a b \<or> errors_Is a t \<or> errors_Is b t)"

text \<open>\<open>errors.As(err, &ne)\<close> for \<open>net.Error\<close>: the first such error in depth-first order,
  and what its \<open>Timeout()\<close> answers. \<open>context.DeadlineExceeded\<close> is one, with timeout.\<close>

primrec as_net_error :: "go_error \<Rightarrow> bool option" where
  "as_net_error EOF = None"
| "as_net_error ErrUnexpectedEOF = None"
| "as_net_error ErrShortWrite = None"
| "as_net_error ErrNoProgress = None"
| "as_net_error ErrClosedPipe = None"
| "as_net_error DeadlineExceeded = Some True"
| "as_net_error Canceled = None"
| "as_net_error NetErrClosed = None"
| "as_net_error (NetError b) = Some b"
| "as_net_error ErrCapacity = None"
| "as_net_error ErrClosed = None"
| "as_net_error ErrDenied = None"
| "as_net_error ErrBusy = None"
| "as_net_error ErrAddress = None"
| "as_net_error errBadAddress = None"
| "as_net_error ErrSize = None"
| "as_net_error errUDPPayloadTooLarge = None"
| "as_net_error (DialError s) = None"
| "as_net_error (ErrorString s) = None"
| "as_net_error (Wrapped m e) = as_net_error e"
| "as_net_error (Joined a b) = (case as_net_error a of Some t \<Rightarrow> Some t | None \<Rightarrow> as_net_error b)"

text \<open>\<open>errors.As(err, &de)\<close> for \<open>*client.DialError\<close>: its status byte.\<close>

primrec as_dial_error :: "go_error \<Rightarrow> byte option" where
  "as_dial_error EOF = None"
| "as_dial_error ErrUnexpectedEOF = None"
| "as_dial_error ErrShortWrite = None"
| "as_dial_error ErrNoProgress = None"
| "as_dial_error ErrClosedPipe = None"
| "as_dial_error DeadlineExceeded = None"
| "as_dial_error Canceled = None"
| "as_dial_error NetErrClosed = None"
| "as_dial_error (NetError b) = None"
| "as_dial_error ErrCapacity = None"
| "as_dial_error ErrClosed = None"
| "as_dial_error ErrDenied = None"
| "as_dial_error ErrBusy = None"
| "as_dial_error ErrAddress = None"
| "as_dial_error errBadAddress = None"
| "as_dial_error ErrSize = None"
| "as_dial_error errUDPPayloadTooLarge = None"
| "as_dial_error (DialError s) = Some s"
| "as_dial_error (ErrorString s) = None"
| "as_dial_error (Wrapped m e) = as_dial_error e"
| "as_dial_error (Joined a b) = (case as_dial_error a of Some t \<Rightarrow> Some t | None \<Rightarrow> as_dial_error b)"

section \<open>Readers and writers\<close>

text \<open>
  A reader is the bytes its peer delivers and the error that ends them (\<open>EOF\<close> for a
  clean end, anything else for a broken connection). \<open>io.ReadFull\<close> does not depend on
  how the bytes are cut into \<open>Read\<close> calls.
\<close>

record reader =
  rbuf :: bytes
  rend :: go_error

definition ReadFull :: "nat \<Rightarrow> reader \<Rightarrow> (go_error + bytes) \<times> reader" where
  "ReadFull n r =
     (if n \<le> length (rbuf r)
      then (Inr (take n (rbuf r)), r\<lparr>rbuf := drop n (rbuf r)\<rparr>)
      else (Inl (if rend r = EOF \<and> rbuf r \<noteq> [] then ErrUnexpectedEOF else rend r), r\<lparr>rbuf := []\<rparr>))"

text \<open>
  A writer is what it has accepted so far and a plan of the environment's answers, one
  \<open>(n, err)\<close> per call of \<open>Write\<close>; when the plan is exhausted every write succeeds in
  full. All failures, short writes included, are plans.
\<close>

record writer =
  wout :: bytes
  wplan :: "(nat \<times> go_error option) list"

definition Write :: "bytes \<Rightarrow> writer \<Rightarrow> (nat \<times> go_error option) \<times> writer" where
  "Write b w = (case wplan w of
       [] \<Rightarrow> ((length b, None), w\<lparr>wout := wout w @ b\<rparr>)
     | (n, e) # ps \<Rightarrow> ((min n (length b), e), w\<lparr>wout := wout w @ take n b, wplan := ps\<rparr>))"

definition good_writer :: writer where
  "good_writer = \<lparr>wout = [], wplan = []\<rparr>"

section \<open>Integers on the wire\<close>

definition be16 :: "u16 \<Rightarrow> bytes" where
  "be16 v = [ucast (drop_bit 8 v), ucast v]"

definition Uint16 :: "bytes \<Rightarrow> u16" where
  "Uint16 b = (case b of hi # lo # _ \<Rightarrow> (ucast lo OR push_bit 8 (ucast hi)) | _ \<Rightarrow> 0)"

section \<open>Strings and bytes\<close>

definition byte_of_char :: "char \<Rightarrow> byte" where
  "byte_of_char c = of_nat (of_char c)"

definition char_of_byte :: "byte \<Rightarrow> char" where
  "char_of_byte b = char_of (unat b)"

abbreviation to_bytes :: "string \<Rightarrow> bytes" where
  "to_bytes s \<equiv> map byte_of_char s"

abbreviation of_bytes :: "bytes \<Rightarrow> string" where
  "of_bytes b \<equiv> map char_of_byte b"

section \<open>Lemmas\<close>

named_theorems wire_simps \<open>reading back what was written\<close>

lemma char_of_byte_of_char [simp]: "char_of_byte (byte_of_char c) = c"
proof -
  have "of_char c < (256 :: nat)"
    using of_char_mod_256 [where 'a = nat, of c] by (metis mod_less_divisor zero_less_numeral)
  then have "unat (of_nat (of_char c) :: byte) = of_char c"
    by (simp add: unat_of_nat)
  then show ?thesis
    by (simp add: char_of_byte_def byte_of_char_def)
qed

lemma byte_of_char_of_byte [simp]: "byte_of_char (char_of_byte b) = b"
proof -
  have "unat b < 256"
    using unsigned_less [of b] by simp
  then show ?thesis
    by (simp add: char_of_byte_def byte_of_char_def)
qed

lemma byte_char_comp [simp]:
  "byte_of_char \<circ> char_of_byte = id" "char_of_byte \<circ> byte_of_char = id"
  by (simp_all add: fun_eq_iff)

lemma of_bytes_to_bytes [simp]: "of_bytes (to_bytes s) = s"
  by simp

lemma to_bytes_of_bytes [simp]: "to_bytes (of_bytes b) = b"
  by simp

lemma length_be16 [simp]: "length (be16 v) = 2"
  by (simp add: be16_def)

lemma Uint16_be16 [simp]: "Uint16 (be16 v) = v"
  by (simp add: Uint16_def be16_def) (rule bit_eqI, auto simp: bit_simps)

lemma Uint16_be16_append [simp]: "Uint16 (be16 v @ xs) = v"
  using Uint16_be16 [of v] by (simp add: Uint16_def be16_def)

lemma be16_Uint16:
  assumes "length b = 2"
  shows "be16 (Uint16 b) = b"
proof -
  from assms obtain hi lo where b: "b = [hi, lo]"
    by (auto simp: length_Suc_conv numeral_2_eq_2)
  have "\<not> bit lo (8 + n)" for n
    using bit_imp_le_length [of lo "8 + n"] by auto
  then show ?thesis
    by (auto simp: b be16_def Uint16_def bit_simps intro!: bit_eqI)
qed

lemma ReadFull_append [wire_simps]:
  "length b = n \<Longrightarrow>
   ReadFull n \<lparr>rbuf = b @ rest, rend = e\<rparr> = (Inr b, \<lparr>rbuf = rest, rend = e\<rparr>)"
  by (auto simp: ReadFull_def)

lemma ReadFull_0 [simp]: "ReadFull 0 r = (Inr [], r)"
  by (simp add: ReadFull_def)

lemma ReadFull_Inr_iff:
  "ReadFull n r = (Inr b, r') \<longleftrightarrow>
     n \<le> length (rbuf r) \<and> b = take n (rbuf r) \<and> r' = r\<lparr>rbuf := drop n (rbuf r)\<rparr>"
  by (auto simp: ReadFull_def)

lemma ReadFull_split:
  assumes "ReadFull n r = (Inr b, r')"
  shows "rbuf r = b @ rbuf r'" and "length b = n" and "rend r' = rend r"
  using assms by (auto simp: ReadFull_Inr_iff)

lemma Write_good [simp]:
  "wplan w = [] \<Longrightarrow> Write b w = ((length b, None), w\<lparr>wout := wout w @ b\<rparr>)"
  by (simp add: Write_def)

lemma Write_extends: "Write b w = ((n, e), w') \<Longrightarrow> \<exists>k. wout w' = wout w @ take k b \<and> n = min k (length b)"
  by (auto simp: Write_def split: list.splits prod.splits intro: exI [of _ "length b"])

section \<open>Sequencing of fallible steps\<close>

text \<open>\<open>if err != nil { return err }\<close>: the rest runs on the value of the step before.\<close>

definition and_then :: "go_error + 'a \<Rightarrow> ('a \<Rightarrow> go_error + 'b) \<Rightarrow> go_error + 'b" where
  "and_then x f = (case x of Inl e \<Rightarrow> Inl e | Inr a \<Rightarrow> f a)"

definition require :: "bool \<Rightarrow> go_error \<Rightarrow> go_error + unit" where
  "require p e = (if p then Inr () else Inl e)"

lemma and_then_simps [simp]: "and_then (Inl e) f = Inl e" "and_then (Inr a) f = f a"
  by (simp_all add: and_then_def)

lemma and_then_Inr [simp]: "and_then x f = Inr b \<longleftrightarrow> (\<exists>a. x = Inr a \<and> f a = Inr b)"
  by (cases x) auto

lemma require_Inr [simp]: "require p e = Inr u \<longleftrightarrow> p" "p \<Longrightarrow> require p e = Inr ()"
  by (simp_all add: require_def)

section \<open>Transition systems\<close>

text \<open>
  The contract of a component that runs as interleaved steps: an invariant that holds at the
  start and that every step keeps. Each component with a step relation interprets it.
\<close>

locale inductive_invariant =
  fixes initial :: "'s \<Rightarrow> bool" and step :: "'s \<Rightarrow> 's \<Rightarrow> bool" and inv :: "'s \<Rightarrow> bool"
  assumes inv_initial: "initial s \<Longrightarrow> inv s"
    and inv_step: "inv s \<Longrightarrow> step s t \<Longrightarrow> inv t"
begin

lemma inv_steps: "step\<^sup>*\<^sup>* s t \<Longrightarrow> inv s \<Longrightarrow> inv t"
  by (induction rule: rtranclp_induct) (auto intro: inv_step)

lemma inv_reachable: "initial s \<Longrightarrow> step\<^sup>*\<^sup>* s t \<Longrightarrow> inv t"
  by (rule inv_steps [OF _ inv_initial])

end

end
