(* ===== verification/Go_Strings.thy ===== *)
theory Go_Strings
  imports Wanopt_Prelude "HOL-Library.Sublist"
begin

text \<open>
  The parts of Go's \<open>strings\<close>, \<open>strconv\<close> and \<open>net\<close> (host:port splitting) packages
  that the program calls, as executable functions on byte strings, with the lemmas the
  components use: \<open>Itoa\<close> against the decimal parsers, \<open>JoinHostPort\<close> against
  \<open>SplitHostPort\<close>, and domain suffixes as suffixes of the label list.
\<close>

section \<open>Package strings\<close>

definition HasPrefix :: "string \<Rightarrow> string \<Rightarrow> bool" where
  "HasPrefix s p = prefix p s"

definition HasSuffix :: "string \<Rightarrow> string \<Rightarrow> bool" where
  "HasSuffix s p = suffix p s"

definition TrimPrefix :: "string \<Rightarrow> string \<Rightarrow> string" where
  "TrimPrefix s p = (if HasPrefix s p then drop (length p) s else s)"

definition TrimSuffix :: "string \<Rightarrow> string \<Rightarrow> string" where
  "TrimSuffix s p = (if HasSuffix s p then take (length s - length p) s else s)"

text \<open>\<open>strings.Split\<close> with a one-character separator: always at least one piece.\<close>

fun Split :: "string \<Rightarrow> char \<Rightarrow> string list" where
  "Split [] c = [[]]"
| "Split (x # xs) c =
     (if x = c then [] # Split xs c
      else (case Split xs c of [] \<Rightarrow> [[x]] | p # ps \<Rightarrow> (x # p) # ps))"

fun IndexByte :: "string \<Rightarrow> char \<Rightarrow> nat option" where
  "IndexByte [] c = None"
| "IndexByte (x # xs) c = (if x = c then Some 0 else map_option Suc (IndexByte xs c))"

definition LastIndexByte :: "string \<Rightarrow> char \<Rightarrow> nat option" where
  "LastIndexByte s c = map_option (\<lambda>i. length s - 1 - i) (IndexByte (rev s) c)"

text \<open>
  \<open>strings.ToLower\<close>. ASCII letters are mapped as usual. Exactly two other code points
  have an ASCII lower case in the Unicode tables, U+0130 (\<open>C4 B0\<close>, to \<open>i\<close>) and the
  Kelvin sign U+212A (\<open>E2 84 AA\<close>, to \<open>k\<close>); every other non-ASCII code point is
  mapped to a non-ASCII one, and is kept here, since the callers only ask whether the
  result consists of ASCII name characters.
\<close>

definition lower_char :: "char \<Rightarrow> char" where
  "lower_char c = (if 65 \<le> (of_char c :: nat) \<and> (of_char c :: nat) \<le> 90
     then char_of ((of_char c :: nat) + 32) else c)"

fun ToLower :: "string \<Rightarrow> string" where
  "ToLower [] = []"
| "ToLower (c # cs) =
     (if c = CHR 0xC4 \<and> take 1 cs = [CHR 0xB0] then CHR ''i'' # ToLower (drop 1 cs)
      else if c = CHR 0xE2 \<and> take 2 cs = [CHR 0x84, CHR 0xAA] then CHR ''k'' # ToLower (drop 2 cs)
      else lower_char c # ToLower cs)"

text \<open>The UTF-8 encodings of the code points of \<open>unicode.IsSpace\<close>.\<close>

definition space_encodings :: "string list" where
  "space_encodings =
     [[CHR 0x09], [CHR 0x0A], [CHR 0x0B], [CHR 0x0C], [CHR 0x0D], [CHR 0x20],
      [CHR 0xC2, CHR 0x85], [CHR 0xC2, CHR 0xA0], [CHR 0xE1, CHR 0x9A, CHR 0x80]] @
     map (\<lambda>b. [CHR 0xE2, CHR 0x80, char_of b])
       [0x80, 0x81, 0x82, 0x83, 0x84, 0x85, 0x86, 0x87, 0x88, 0x89, 0x8A, 0xA8, 0xA9, 0xAF :: nat] @
     [[CHR 0xE2, CHR 0x81, CHR 0x9F], [CHR 0xE3, CHR 0x80, CHR 0x80]]"

text \<open>\<open>trim_left n s\<close> drops encodings from the front while there are any; each is at
  least one byte, so \<open>length s\<close> rounds are enough.\<close>

fun trim_left :: "string list \<Rightarrow> nat \<Rightarrow> string \<Rightarrow> string" where
  "trim_left ws 0 s = s"
| "trim_left ws (Suc n) s =
     (case find (\<lambda>w. prefix w s) ws of None \<Rightarrow> s | Some w \<Rightarrow> trim_left ws n (drop (length w) s))"

definition TrimSpace :: "string \<Rightarrow> string" where
  "TrimSpace s =
     (let l = trim_left space_encodings (length s) s
      in rev (trim_left (map rev space_encodings) (length l) (rev l)))"

section \<open>Package strconv\<close>

definition digit_char :: "nat \<Rightarrow> char" where
  "digit_char d = char_of (48 + d)"

definition is_digit :: "char \<Rightarrow> bool" where
  "is_digit c = (48 \<le> (of_char c :: nat) \<and> (of_char c :: nat) \<le> 57)"

definition digit_val :: "char \<Rightarrow> nat" where
  "digit_val c = of_char c - 48"

fun Itoa :: "nat \<Rightarrow> string" where
  "Itoa n = (if n < 10 then [digit_char n] else Itoa (n div 10) @ [digit_char (n mod 10)])"

declare Itoa.simps [simp del]

text \<open>
  \<open>strconv.ParseUint(s, 10, bits)\<close>: the loop stops at the first bad character or at the
  first prefix whose value is out of range, whichever comes first.
\<close>

abbreviation "ErrSyntax \<equiv> ErrorString ''invalid syntax''"
abbreviation "ErrRange \<equiv> ErrorString ''value out of range''"

fun parse_digits :: "nat \<Rightarrow> nat \<Rightarrow> string \<Rightarrow> go_error + nat" where
  "parse_digits mx acc [] = Inr acc"
| "parse_digits mx acc (c # cs) =
     (if \<not> is_digit c then Inl ErrSyntax
      else if mx < acc * 10 + digit_val c then Inl ErrRange
      else parse_digits mx (acc * 10 + digit_val c) cs)"

definition ParseUint :: "string \<Rightarrow> nat \<Rightarrow> go_error + nat" where
  "ParseUint s bits = (if s = [] then Inl ErrSyntax else parse_digits (2 ^ bits - 1) 0 s)"

text \<open>\<open>strconv.Atoi\<close> on a 64-bit platform: an optional sign, then decimal digits.\<close>

definition Atoi :: "string \<Rightarrow> go_error + int" where
  "Atoi s =
     (let neg = (take 1 s = ''-'');
          body = (if take 1 s = ''-'' \<or> take 1 s = ''+'' then drop 1 s else s)
      in case ParseUint body 64 of
           Inl e \<Rightarrow> Inl e
         | Inr n \<Rightarrow> (if \<not> neg \<and> 2 ^ 63 \<le> n then Inl ErrRange
                    else if neg \<and> 2 ^ 63 < n then Inl ErrRange
                    else Inr (if neg then - int n else int n)))"

section \<open>Package net: host and port\<close>

abbreviation addrErr :: "string \<Rightarrow> go_error" where
  "addrErr why \<equiv> ErrorString why"

definition SplitHostPort :: "string \<Rightarrow> go_error + (string \<times> string)" where
  "SplitHostPort hp =
    (let brackets = (\<lambda>j k host i.
           if CHR ''['' \<in> set (drop j hp) then Inl (addrErr ''unexpected [ in address'')
           else if CHR '']'' \<in> set (drop k hp) then Inl (addrErr ''unexpected ] in address'')
           else Inr (host, drop (Suc i) hp))
     in case LastIndexByte hp CHR '':'' of
       None \<Rightarrow> Inl (addrErr ''missing port in address'')
     | Some i \<Rightarrow>
        (if take 1 hp = ''['' then
           (case IndexByte hp CHR '']'' of
              None \<Rightarrow> Inl (addrErr ''missing ] in address'')
            | Some en \<Rightarrow>
                if Suc en = length hp then Inl (addrErr ''missing port in address'')
                else if Suc en = i then brackets 1 (Suc en) (take (en - 1) (drop 1 hp)) i
                else if hp ! Suc en = CHR '':'' then Inl (addrErr ''too many colons in address'')
                else Inl (addrErr ''missing port in address''))
         else if CHR '':'' \<in> set (take i hp) then Inl (addrErr ''too many colons in address'')
         else brackets 0 0 (take i hp) i))"

definition JoinHostPort :: "string \<Rightarrow> string \<Rightarrow> string" where
  "JoinHostPort host port =
     (if CHR '':'' \<in> set host then ''['' @ host @ '']:'' @ port else host @ '':'' @ port)"

section \<open>Decimal numbers\<close>

lemma is_digit_char [simp]: "d < 10 \<Longrightarrow> is_digit (digit_char d)"
  by (simp add: is_digit_def digit_char_def)

lemma digit_val_char [simp]: "d < 10 \<Longrightarrow> digit_val (digit_char d) = d"
  by (simp add: digit_val_def digit_char_def)

lemma Itoa_digits: "c \<in> set (Itoa n) \<Longrightarrow> is_digit c"
proof (induction n rule: Itoa.induct)
  case (1 n)
  then show ?case
    by (simp add: Itoa.simps [of n] split: if_splits) auto
qed

lemma Itoa_not_Nil [simp]: "Itoa n \<noteq> []"
  by (subst Itoa.simps) simp

lemma Itoa_no_sign:
  "CHR '':'' \<notin> set (Itoa n)" "CHR ''['' \<notin> set (Itoa n)" "CHR '']'' \<notin> set (Itoa n)"
  "CHR ''|'' \<notin> set (Itoa n)" "CHR ''.'' \<notin> set (Itoa n)"
  by (auto simp: is_digit_def dest: Itoa_digits)

lemma parse_digits_append:
  "parse_digits mx acc (xs @ ys) =
     (case parse_digits mx acc xs of Inl e \<Rightarrow> Inl e | Inr a \<Rightarrow> parse_digits mx a ys)"
  by (induction xs arbitrary: acc) auto

lemma parse_digits_Itoa: "n \<le> mx \<Longrightarrow> parse_digits mx 0 (Itoa n) = Inr n"
proof (induction n rule: Itoa.induct)
  case (1 n)
  show ?case
  proof (cases "n < 10")
    case True
    with "1.prems" show ?thesis
      by (simp add: Itoa.simps [of n])
  next
    case False
    with "1.IH" "1.prems" have "parse_digits mx 0 (Itoa (n div 10)) = Inr (n div 10)"
      by simp
    with False "1.prems" show ?thesis
      by (simp add: Itoa.simps [of n] parse_digits_append)
  qed
qed

lemma ParseUint_Itoa: "n < 2 ^ bits \<Longrightarrow> ParseUint (Itoa n) bits = Inr n"
  by (subst ParseUint_def, simp, rule parse_digits_Itoa) linarith

lemma parse_digits_bound: "acc \<le> mx \<Longrightarrow> parse_digits mx acc s = Inr n \<Longrightarrow> n \<le> mx"
proof (induction s arbitrary: acc)
  case (Cons c s)
  from Cons.prems(2) have "acc * 10 + digit_val c \<le> mx" "parse_digits mx (acc * 10 + digit_val c) s = Inr n"
    by (auto split: if_splits)
  then show ?case
    by (rule Cons.IH)
qed simp

lemma ParseUint_bound:
  assumes "ParseUint s bits = Inr n"
  shows "n < 2 ^ bits"
proof -
  from assms have "parse_digits (2 ^ bits - 1) 0 s = Inr n"
    by (simp add: ParseUint_def split: if_splits)
  then have "n \<le> 2 ^ bits - 1"
    by (rule parse_digits_bound [rotated]) simp
  moreover have "0 < (2 :: nat) ^ bits"
    by simp
  ultimately show ?thesis
    by linarith
qed

lemma Itoa_inj:
  assumes "Itoa a = Itoa b"
  shows "a = b"
proof -
  have "parse_digits (a + b) 0 (Itoa a) = Inr a" "parse_digits (a + b) 0 (Itoa b) = Inr b"
    by (rule parse_digits_Itoa, linarith)+
  then have "(Inr a :: go_error + nat) = Inr b"
    by (simp only: assms)
  then show ?thesis
    by simp
qed

section \<open>Splitting\<close>

lemma Split_not_Nil [simp]: "Split s c \<noteq> []"
  by (cases s) (auto split: list.splits)

lemma Split_no_sep: "p \<in> set (Split s c) \<Longrightarrow> c \<notin> set p"
  by (induction s arbitrary: p) (auto split: if_splits list.splits)

lemma Split_append: "Split (xs @ c # ys) c = Split xs c @ Split ys c"
  by (induction xs) (auto split: list.splits)

lemma Split_single: "c \<notin> set s \<Longrightarrow> Split s c = [s]"
  by (induction s) auto

lemma concat_Split: "concat (map ((#) c) (Split s c)) = c # s"
  by (induction s) (auto split: list.splits)

lemma Split_inj: "Split s c = Split t c \<Longrightarrow> s = t"
  by (metis concat_Split list.inject)

text \<open>
  A host ends in \<open>.\<close> followed by a domain, or equals it, exactly when the labels of the
  domain are the last labels of the host: suffix rules never match inside a label.
\<close>

lemma suffix_labels:
  "h = d \<or> HasSuffix h (c # d) \<longleftrightarrow> suffix (Split d c) (Split h c)"
proof
  assume "h = d \<or> HasSuffix h (c # d)"
  then show "suffix (Split d c) (Split h c)"
    by (auto simp: HasSuffix_def suffix_def Split_append)
next
  assume "suffix (Split d c) (Split h c)"
  then obtain zs where zs: "Split h c = zs @ Split d c"
    by (auto simp: suffix_def)
  then have "c # h = concat (map ((#) c) zs) @ c # d"
    using concat_Split [of c h] concat_Split [of c d] by simp
  then show "h = d \<or> HasSuffix h (c # d)"
    by (cases zs) (auto simp: HasSuffix_def suffix_def)
qed

lemma length_TrimSuffix: "length s \<le> length (TrimSuffix s p) + length p"
  by (auto simp: TrimSuffix_def)

section \<open>Joining and splitting host:port\<close>

lemma IndexByte_None: "IndexByte s c = None \<longleftrightarrow> c \<notin> set s"
  by (induction s) auto

lemma IndexByte_append: "c \<notin> set xs \<Longrightarrow> IndexByte (xs @ c # ys) c = Some (length xs)"
  by (induction xs) auto

lemma LastIndexByte_append: "c \<notin> set ys \<Longrightarrow> LastIndexByte (xs @ c # ys) c = Some (length xs)"
  using IndexByte_append [of c "rev ys" "rev xs"] by (simp add: LastIndexByte_def)

lemma SplitHostPort_JoinHostPort:
  assumes "CHR ''['' \<notin> set h" "CHR '']'' \<notin> set h"
    and "CHR '':'' \<notin> set p" "CHR ''['' \<notin> set p" "CHR '']'' \<notin> set p"
  shows "SplitHostPort (JoinHostPort h p) = Inr (h, p)"
proof (cases "CHR '':'' \<in> set h")
  case True
  let ?hp = "''['' @ h @ '']:'' @ p"
  have "LastIndexByte ((''['' @ h @ '']'') @ CHR '':'' # p) CHR '':'' = Some (length (''['' @ h @ '']''))"
    by (rule LastIndexByte_append) (use assms in simp)
  then have last: "LastIndexByte ?hp CHR '':'' = Some (Suc (Suc (length h)))"
    by simp
  have "IndexByte ((''['' @ h) @ CHR '']'' # '':'' @ p) CHR '']'' = Some (length (''['' @ h))"
    by (rule IndexByte_append) (use assms in simp)
  then have first: "IndexByte ?hp CHR '']'' = Some (Suc (length h))"
    by simp
  from True assms last first show ?thesis
    by (simp add: SplitHostPort_def JoinHostPort_def)
next
  case False
  have last: "LastIndexByte (h @ CHR '':'' # p) CHR '':'' = Some (length h)"
    by (rule LastIndexByte_append) (use assms in simp)
  have "take 1 (h @ '':'' @ p) \<noteq> ''[''"
    using assms by (cases h) auto
  with False assms last show ?thesis
    by (simp add: SplitHostPort_def JoinHostPort_def)
qed

end
