(* ===== verification/Go_Net.thy ===== *)
theory Go_Net
  imports Go_Strings
begin

text \<open>
  The parts of Go's \<open>net\<close> and \<open>net/netip\<close> packages that the program calls: the address
  parser behind \<open>net.ParseIP\<close> and \<open>net.ParseCIDR\<close> (dotted quads, colon groups, one
  ellipsis, an embedded dotted quad; zones are refused), the 4-byte and 16-byte forms of an
  address, its printed form, and \<open>IPNet.Contains\<close>. A \<open>net.IP\<close> is a byte list, \<open>nil\<close> is
  the empty one.
\<close>

section \<open>Forms of an address\<close>

type_synonym ip = bytes

definition v4InV6Prefix :: bytes where
  "v4InV6Prefix = [0, 0, 0, 0, 0, 0, 0, 0, 0, 0, 0xff, 0xff]"

definition To4 :: "ip \<Rightarrow> ip option" where
  "To4 p =
     (if length p = 4 then Some p
      else if length p = 16 \<and> take 12 p = v4InV6Prefix then Some (drop 12 p)
      else None)"

definition To16 :: "ip \<Rightarrow> ip option" where
  "To16 p = (if length p = 4 then Some (v4InV6Prefix @ p) else if length p = 16 then Some p else None)"

text \<open>Spreading a nil slice appends nothing.\<close>

definition slice :: "bytes option \<Rightarrow> bytes" where
  "slice b = (case b of None \<Rightarrow> [] | Some x \<Rightarrow> x)"

definition IP_Equal :: "ip \<Rightarrow> ip \<Rightarrow> bool" where
  "IP_Equal p q =
     (if length p = length q then p = q
      else if length p = 4 \<and> length q = 16 then take 12 q = v4InV6Prefix \<and> p = drop 12 q
      else if length p = 16 \<and> length q = 4 then take 12 p = v4InV6Prefix \<and> drop 12 p = q
      else False)"

definition IPv4zero :: ip where
  "IPv4zero = v4InV6Prefix @ [0, 0, 0, 0]"

definition IPv6unspecified :: ip where
  "IPv6unspecified = replicate 16 0"

definition IPv6loopback :: ip where
  "IPv6loopback = replicate 15 0 @ [1]"

definition IsUnspecified :: "ip \<Rightarrow> bool" where
  "IsUnspecified p = (IP_Equal p IPv4zero \<or> IP_Equal p IPv6unspecified)"

definition IsLoopback :: "ip \<Rightarrow> bool" where
  "IsLoopback p = (case To4 p of Some q \<Rightarrow> hd q = 127 | None \<Rightarrow> IP_Equal p IPv6loopback)"

section \<open>Parsing\<close>

text \<open>\<open>digLen\<close> is 0 exactly at the start of a field, which is what the tests
  \<open>i == 0 || s[i-1] == '.'\<close> of \<open>parseIPv4Fields\<close> ask.\<close>

fun ipv4_fields :: "nat \<Rightarrow> nat \<Rightarrow> bytes \<Rightarrow> string \<Rightarrow> bytes option" where
  "ipv4_fields val digLen fs [] =
     (if length fs < 3 then None else Some (fs @ [of_nat val]))"
| "ipv4_fields val digLen fs (c # cs) =
     (if is_digit c then
        (if digLen = 1 \<and> val = 0 then None
         else if 255 < val * 10 + digit_val c then None
         else ipv4_fields (val * 10 + digit_val c) (Suc digLen) fs cs)
      else if c = CHR ''.'' then
        (if digLen = 0 \<or> cs = [] then None
         else if length fs = 3 then None
         else ipv4_fields 0 0 (fs @ [of_nat val]) cs)
      else None)"

abbreviation parseIPv4Fields :: "string \<Rightarrow> bytes option" where
  "parseIPv4Fields \<equiv> ipv4_fields 0 0 []"

definition hex_val :: "char \<Rightarrow> nat option" where
  "hex_val c =
     (let n = of_char c :: nat
      in if 48 \<le> n \<and> n \<le> 57 then Some (n - 48)
         else if 97 \<le> n \<and> n \<le> 102 then Some (n - 97 + 10)
         else if 65 \<le> n \<and> n \<le> 70 then Some (n - 65 + 10)
         else None)"

text \<open>One group of hex digits: how many, their value and what follows them.\<close>

fun hex_group :: "nat \<Rightarrow> nat \<Rightarrow> string \<Rightarrow> (nat \<times> nat \<times> string) option" where
  "hex_group off acc [] = Some (off, acc, [])"
| "hex_group off acc (c # cs) =
     (case hex_val c of
        None \<Rightarrow> Some (off, acc, c # cs)
      | Some v \<Rightarrow>
          if 3 < off then None
          else if 65535 < acc * 16 + v then None
          else hex_group (Suc off) (acc * 16 + v) cs)"

text \<open>The loop of \<open>parseIPv6\<close>: the bytes so far, the position of the ellipsis and the
  unread text; the state in which the loop is left is returned.\<close>

function ipv6_groups ::
  "bytes \<Rightarrow> nat option \<Rightarrow> string \<Rightarrow> (bytes \<times> nat option \<times> string) option" where
  "ipv6_groups b el s =
     (if length b < 16 then
        (case hex_group 0 0 s of
           None \<Rightarrow> None
         | Some (off, acc, r) \<Rightarrow>
             if off = 0 then None
             else if take 1 r = ''.'' then
               (if el = None \<and> length b \<noteq> 12 then None
                else if 16 < length b + 4 then None
                else (case parseIPv4Fields s of
                        None \<Rightarrow> None
                      | Some q \<Rightarrow> Some (b @ q, el, [])))
             else if r = [] then Some (b @ [of_nat (acc div 256), of_nat acc], el, [])
             else if hd r \<noteq> CHR '':'' then None
             else if length r = 1 then None
             else if r ! 1 = CHR '':'' then
               (if el \<noteq> None then None
                else if drop 2 r = [] then
                  Some (b @ [of_nat (acc div 256), of_nat acc], Some (length b + 2), [])
                else ipv6_groups (b @ [of_nat (acc div 256), of_nat acc]) (Some (length b + 2)) (drop 2 r))
             else ipv6_groups (b @ [of_nat (acc div 256), of_nat acc]) el (drop 1 r))
      else Some (b, el, s))"
  by pat_completeness auto
termination
  by (relation "measure (\<lambda>(b, _, _). 16 - length b)") auto

declare ipv6_groups.simps [simp del]

definition ipv6_finish :: "bytes \<Rightarrow> nat option \<Rightarrow> string \<Rightarrow> bytes option" where
  "ipv6_finish b el s =
     (if s \<noteq> [] then None
      else if length b < 16 then
        (case el of
           None \<Rightarrow> None
         | Some e \<Rightarrow> Some (take e b @ replicate (16 - length b) 0 @ drop e b))
      else if el \<noteq> None then None
      else Some b)"

definition parseIPv6 :: "string \<Rightarrow> bytes option" where
  "parseIPv6 s =
     (let lead = (take 2 s = ''::''); t = (if lead then drop 2 s else s)
      in if lead \<and> t = [] then Some (replicate 16 0)
         else case ipv6_groups [] (if lead then Some 0 else None) t of
                None \<Rightarrow> None
              | Some (b, el, r) \<Rightarrow> ipv6_finish b el r)"

text \<open>\<open>netip.ParseAddr\<close> followed by the refusal of zones that both \<open>net.ParseIP\<close> and
  \<open>net.ParseCIDR\<close> add: any \<open>%\<close> fails. The result has 4 or 16 bytes.\<close>

definition parse_addr :: "string \<Rightarrow> bytes option" where
  "parse_addr s =
     (if CHR ''%'' \<in> set s then None
      else case find (\<lambda>c. c = CHR ''.'' \<or> c = CHR '':'') s of
             None \<Rightarrow> None
           | Some c \<Rightarrow> if c = CHR ''.'' then parseIPv4Fields s else parseIPv6 s)"

definition As16 :: "bytes \<Rightarrow> bytes" where
  "As16 b = (if length b = 4 then v4InV6Prefix @ b else b)"

definition ParseIP :: "string \<Rightarrow> ip option" where
  "ParseIP s = map_option As16 (parse_addr s)"

section \<open>Printing\<close>

definition hex_char :: "nat \<Rightarrow> char" where
  "hex_char d = (if d < 10 then char_of (48 + d) else char_of (87 + d))"

fun hex_nat :: "nat \<Rightarrow> string" where
  "hex_nat n = (if n < 16 then [hex_char n] else hex_nat (n div 16) @ [hex_char (n mod 16)])"

declare hex_nat.simps [simp del]

definition dotted :: "bytes \<Rightarrow> string" where
  "dotted b = concat (map (\<lambda>i. (if 0 < i then ''.'' else []) @ Itoa (unat (b ! i))) [0..<4])"

definition groups16 :: "bytes \<Rightarrow> nat list" where
  "groups16 b = map (\<lambda>i. unat (b ! (2 * i)) * 256 + unat (b ! (2 * i + 1))) [0..<8]"

text \<open>The first longest run of at least two zero groups, as start and end, or \<open>(8, 8)\<close>.\<close>

definition zero_step :: "nat list \<Rightarrow> nat \<times> nat \<Rightarrow> nat \<Rightarrow> nat \<times> nat" where
  "zero_step gs z i =
     (let j = i + length (takeWhile (\<lambda>g. g = 0) (drop i gs))
      in if 2 \<le> j - i \<and> snd z - fst z < j - i then (i, j) else z)"

definition zero_run :: "nat list \<Rightarrow> nat \<times> nat" where
  "zero_run gs = foldl (zero_step gs) (8, 8) [0..<8]"

fun join_colon :: "string list \<Rightarrow> string" where
  "join_colon [] = []"
| "join_colon [x] = x"
| "join_colon (x # xs) = x @ '':'' @ join_colon xs"

definition colons :: "bytes \<Rightarrow> string" where
  "colons b =
     (let gs = groups16 b; (zs, ze) = zero_run gs
      in if zs = 8 then join_colon (map hex_nat gs)
         else join_colon (map hex_nat (take zs gs)) @ ''::'' @ join_colon (map hex_nat (drop ze gs)))"

definition IP_String :: "ip \<Rightarrow> string" where
  "IP_String p =
     (if p = [] then ''<nil>''
      else if length p \<noteq> 4 \<and> length p \<noteq> 16 then
        ''?'' @ concat (map (\<lambda>x. [hex_char (unat x div 16), hex_char (unat x mod 16)]) p)
      else (case To4 p of Some q \<Rightarrow> dotted q | None \<Rightarrow> colons p))"

section \<open>Networks\<close>

record IPNet =
  net_IP :: bytes
  net_Mask :: bytes

definition CIDRMask :: "nat \<Rightarrow> nat \<Rightarrow> bytes" where
  "CIDRMask ones bits =
     map (\<lambda>i. let n = ones - 8 * i in if 8 \<le> n then 0xff else NOT (drop_bit n 0xff)) [0..<bits div 8]"

definition mask_bytes :: "bytes \<Rightarrow> bytes \<Rightarrow> bytes" where
  "mask_bytes p m = map (\<lambda>(x, y). x AND y) (zip p m)"

text \<open>\<open>IP.Mask\<close>, for the masks \<open>CIDRMask\<close> makes for the parsed width.\<close>

definition IP_Mask :: "ip \<Rightarrow> bytes \<Rightarrow> ip" where
  "IP_Mask p m =
     (let m = (if length m = 16 \<and> length p = 4 \<and> take 12 m = replicate 12 0xff then drop 12 m else m);
          p = (if length m = 4 \<and> length p = 16 \<and> take 12 p = v4InV6Prefix then drop 12 p else p)
      in if length p \<noteq> length m then [] else mask_bytes p m)"

text \<open>\<open>dtoi\<close> stops with failure at \<open>0xFFFFFF\<close>; then \<open>i != len(mask)\<close> is a failure.\<close>

definition mask_number :: "string \<Rightarrow> nat option" where
  "mask_number s =
     (if s = [] then None
      else case parse_digits (0xFFFFFF - 1) 0 s of Inl _ \<Rightarrow> None | Inr n \<Rightarrow> Some n)"

definition ParseCIDR :: "string \<Rightarrow> go_error + IPNet" where
  "ParseCIDR s =
     (case IndexByte s CHR ''/'' of
        None \<Rightarrow> Inl (ErrorString ''invalid CIDR address'')
      | Some i \<Rightarrow>
          (case (parse_addr (take i s), mask_number (drop (Suc i) s)) of
             (Some b, Some n) \<Rightarrow>
               (if 8 * length b < n then Inl (ErrorString ''invalid CIDR address'')
                else Inr \<lparr>net_IP = IP_Mask (As16 b) (CIDRMask n (8 * length b)),
                          net_Mask = CIDRMask n (8 * length b)\<rparr>)
           | _ \<Rightarrow> Inl (ErrorString ''invalid CIDR address'')))"

definition networkNumberAndMask :: "IPNet \<Rightarrow> bytes \<times> bytes" where
  "networkNumberAndMask n =
     (let p = (case To4 (net_IP n) of Some q \<Rightarrow> q | None \<Rightarrow> net_IP n); m = net_Mask n
      in if To4 (net_IP n) = None \<and> length p \<noteq> 16 then ([], [])
         else if length m = 4 then (if length p \<noteq> 4 then ([], []) else (p, m))
         else if length m = 16 then (p, if length p = 4 then drop 12 m else m)
         else ([], []))"

definition Contains :: "IPNet \<Rightarrow> ip \<Rightarrow> bool" where
  "Contains n q =
     (let (nn, m) = networkNumberAndMask n;
          q = (case To4 q of Some x \<Rightarrow> x | None \<Rightarrow> q)
      in length q = length nn \<and> mask_bytes nn m = mask_bytes q m)"

section \<open>netip.Addr as returned by the resolver\<close>

datatype netip_addr = InvalidAddr | Addr4 bytes | Addr6 bytes string

definition Unmap :: "netip_addr \<Rightarrow> netip_addr" where
  "Unmap a = (case a of
      Addr6 b z \<Rightarrow> if take 12 b = v4InV6Prefix then Addr4 (drop 12 b) else a
    | _ \<Rightarrow> a)"

definition AsSlice :: "netip_addr \<Rightarrow> bytes" where
  "AsSlice a = (case a of InvalidAddr \<Rightarrow> [] | Addr4 b \<Rightarrow> b | Addr6 b z \<Rightarrow> b)"

definition Is4 :: "netip_addr \<Rightarrow> bool" where
  "Is4 a = (case a of Addr4 _ \<Rightarrow> True | _ \<Rightarrow> False)"

text \<open>The representation of \<open>netip.Addr\<close> is a fixed number of bytes.\<close>

definition wf_netip :: "netip_addr \<Rightarrow> bool" where
  "wf_netip a = (case a of InvalidAddr \<Rightarrow> True | Addr4 b \<Rightarrow> length b = 4 | Addr6 b z \<Rightarrow> length b = 16)"

section \<open>Lemmas\<close>

lemma length_v4InV6Prefix [simp]: "length v4InV6Prefix = 12"
  by (simp add: v4InV6Prefix_def)

lemma To4_4 [simp]: "length p = 4 \<Longrightarrow> To4 p = Some p"
  by (simp add: To4_def)

lemma To16_16 [simp]: "length p = 16 \<Longrightarrow> To16 p = Some p"
  by (simp add: To16_def)

lemma To4_mapped [simp]: "length p = 4 \<Longrightarrow> To4 (v4InV6Prefix @ p) = Some p"
  by (simp add: To4_def)

lemma To4_length: "To4 p = Some q \<Longrightarrow> length q = 4"
  by (auto simp: To4_def split: if_splits)

lemma To16_length: "To16 p = Some q \<Longrightarrow> length q = 16"
  by (auto simp: To16_def split: if_splits)

lemma slice_simps [simp]: "slice None = []" "slice (Some b) = b"
  by (simp_all add: slice_def)

lemma ipv4_fields_length:
  "ipv4_fields val dl fs s = Some b \<Longrightarrow> length fs \<le> 3 \<Longrightarrow> length b = 4"
  by (induction val dl fs s rule: ipv4_fields.induct) (auto split: if_splits)

text \<open>A field has at most three digits, since a leading zero and a value above 255 fail.\<close>

lemma ipv4_fields_short:
  "ipv4_fields val dl fs s = Some b \<Longrightarrow> length fs \<le> 3 \<Longrightarrow> dl \<le> 3 \<Longrightarrow>
   (dl = 2 \<longrightarrow> 10 \<le> val) \<Longrightarrow> (dl = 3 \<longrightarrow> 100 \<le> val) \<Longrightarrow>
   length s \<le> (3 - dl) + 4 * (3 - length fs)"
proof (induction val dl fs s rule: ipv4_fields.induct)
  case (2 val dl fs c cs)
  show ?case
  proof (cases "is_digit c")
    case True
    with "2.prems" have ok: "\<not> (dl = 1 \<and> val = 0)" "val * 10 + digit_val c \<le> 255"
      and rec: "ipv4_fields (val * 10 + digit_val c) (Suc dl) fs cs = Some b"
      by (auto split: if_splits)
    from ok "2.prems"(3-5) have small: "dl < 3"
      by auto
    have "length cs \<le> (3 - Suc dl) + 4 * (3 - length fs)"
    proof (rule "2.IH"(1) [OF True])
      show "Suc dl = 2 \<longrightarrow> 10 \<le> val * 10 + digit_val c" "Suc dl = 3 \<longrightarrow> 100 \<le> val * 10 + digit_val c"
        using ok(1) "2.prems"(4) by auto
    qed (use ok rec small "2.prems"(2) in auto)
    with small show ?thesis by simp
  next
    case False
    with "2.prems" have "c = CHR ''.''" "\<not> (dl = 0 \<or> cs = [])" "length fs \<noteq> 3"
      and rec: "ipv4_fields 0 0 (fs @ [of_nat val]) cs = Some b"
      by (auto split: if_splits)
    with "2.IH"(2) [OF False] "2.prems" have "length cs \<le> 3 + 4 * (3 - Suc (length fs))"
      by simp
    with \<open>length fs \<noteq> 3\<close> "2.prems"(2) show ?thesis by simp
  qed
qed simp

lemma hex_group_split:
  "hex_group off acc s = Some (off', acc', r) \<Longrightarrow> off \<le> 4 \<Longrightarrow>
   off' \<le> 4 \<and> off' + length r = off + length s"
  by (induction off acc s rule: hex_group.induct) (auto split: option.splits if_splits)

lemma ipv6_groups_length:
  "ipv6_groups b el s = Some (b', el', s') \<Longrightarrow> even (length b) \<Longrightarrow> length b \<le> 16 \<Longrightarrow>
   length b' \<le> 16"
proof (induction b el s rule: ipv6_groups.induct)
  case (1 b el s)
  show ?case
  proof (cases "length b < 16")
    case True
    with "1.prems"(2) have room: "length b + 2 \<le> 16"
      by presburger
    obtain off acc r where g: "hex_group 0 0 s = Some (off, acc, r)"
      using "1.prems" True by (simp add: ipv6_groups.simps [of b el s] split: option.splits prod.splits)
    note unfolded = "1.prems"(1) [unfolded ipv6_groups.simps [of b el s]]
    show ?thesis
      using unfolded True g room "1.prems"(2) "1.IH"(1,2) [OF True g refl refl]
      by (auto simp: ipv4_fields_length split: option.splits if_splits)
  next
    case False
    with "1.prems" show ?thesis by (simp add: ipv6_groups.simps [of b el s])
  qed
qed

text \<open>Each round reads at most four digits and two colons and adds two bytes.\<close>

lemma ipv6_groups_short:
  "ipv6_groups b el s = Some (b', el', []) \<Longrightarrow> length s \<le> 3 * (17 - length b) + 16"
proof (induction b el s rule: ipv6_groups.induct)
  case (1 b el s)
  show ?case
  proof (cases "length b < 16")
    case True
    then obtain off acc r where g: "hex_group 0 0 s = Some (off, acc, r)"
      using "1.prems" by (simp add: ipv6_groups.simps [of b el s] split: option.splits prod.splits)
    then have len: "length s = off + length r" "off \<le> 4"
      using hex_group_split [of 0 0 s off acc r] by auto
    have v4: "length s \<le> 16" if "parseIPv4Fields s = Some q" for q
      using ipv4_fields_short [OF that] by simp
    note unfolded = "1.prems" [unfolded ipv6_groups.simps [of b el s]]
    show ?thesis
      using unfolded True g len "1.IH"(1,2) [OF True g refl refl]
      by (auto split: option.splits if_splits dest!: v4)
  next
    case False
    with "1.prems" show ?thesis by (simp add: ipv6_groups.simps [of b el s])
  qed
qed

lemma ipv6_finish_length: "ipv6_finish b el s = Some p \<Longrightarrow> length b \<le> 16 \<Longrightarrow> length p = 16"
  by (auto simp: ipv6_finish_def split: if_splits option.splits)

text \<open>What a successful parse was: the ellipsis alone, or groups that used up the text.\<close>

lemma parseIPv6_cases:
  assumes "parseIPv6 s = Some p"
  obtains (ellipsis) "s = ''::''" "p = replicate 16 0"
    | (groups) t el b el' where "length s \<le> length t + 2" "ipv6_groups [] el t = Some (b, el', [])"
        "ipv6_finish b el' [] = Some p"
proof -
  let ?t = "if take 2 s = ''::'' then drop 2 s else s"
  let ?el = "if take 2 s = ''::'' then Some 0 else None"
  show thesis
  proof (cases "take 2 s = ''::'' \<and> ?t = []")
    case True
    then have "s = ''::''"
      by (metis append_Nil2 append_take_drop_id)
    with True assms ellipsis show thesis
      by (simp add: parseIPv6_def)
  next
    case False
    with assms obtain b el' r where "ipv6_groups [] ?el ?t = Some (b, el', r)" "ipv6_finish b el' r = Some p"
      by (auto simp: parseIPv6_def Let_def simp del: take_eq_Nil split: option.splits)
    moreover from this(2) have "r = []"
      by (simp add: ipv6_finish_def split: if_splits)
    moreover have "length s \<le> length ?t + 2"
      by auto
    ultimately show thesis
      using groups [of ?t ?el b el'] by blast
  qed
qed

lemma parseIPv6_length: "parseIPv6 s = Some p \<Longrightarrow> length p = 16"
  by (erule parseIPv6_cases) (auto dest: ipv6_groups_length ipv6_finish_length)

lemma parseIPv6_short: "parseIPv6 s = Some p \<Longrightarrow> length s \<le> 69"
  by (erule parseIPv6_cases) (auto dest: ipv6_groups_short)

lemma parse_addr_length: "parse_addr s = Some b \<Longrightarrow> length b = 4 \<or> length b = 16"
  by (auto simp: parse_addr_def ipv4_fields_length parseIPv6_length split: if_splits option.splits)

lemma ParseIP_length: "ParseIP s = Some p \<Longrightarrow> length p = 16"
  by (auto simp: ParseIP_def As16_def dest: parse_addr_length)

lemma ParseIP_short: "ParseIP s = Some p \<Longrightarrow> length s \<le> 69"
  by (auto simp: ParseIP_def parse_addr_def split: if_splits option.splits
      dest!: ipv4_fields_short parseIPv6_short)

text \<open>Evaluation of the parser on closed strings.\<close>

lemmas ip_eval =
  ParseIP_def parse_addr_def is_digit_def digit_val_def As16_def v4InV6Prefix_def
  parseIPv6_def ipv6_groups.simps hex_val_def ipv6_finish_def

end
