(* ===== verification/Go_Net_Print.thy ===== *)
theory Go_Net_Print
  imports Go_Net
begin

text \<open>
  Printing an IPv6 address and parsing it back: \<open>net.IP.String\<close> against
  \<open>net.ParseIP\<close>, with the compressed run of zero groups.
\<close>

section \<open>Hexadecimal groups\<close>

lemma hex_val_char [simp]: "d < 16 \<Longrightarrow> hex_val (hex_char d) = Some d"
  by (auto simp: hex_val_def hex_char_def Let_def)

definition hex_like :: "char \<Rightarrow> bool" where
  "hex_like c = (hex_val c \<noteq> None)"

lemma hex_like_char [simp]: "d < 16 \<Longrightarrow> hex_like (hex_char d)"
  by (simp add: hex_like_def)

lemma hex_val_colon [simp]: "hex_val CHR '':'' = None"
  by (simp add: hex_val_def)

lemma hex_like_plain:
  "hex_like c \<Longrightarrow> c \<noteq> CHR '':'' \<and> c \<noteq> CHR ''.'' \<and> c \<noteq> CHR ''%'' \<and> c \<noteq> CHR ''['' \<and> c \<noteq> CHR '']''"
  by (auto simp: hex_like_def hex_val_def)

lemma hex_nat_like: "c \<in> set (hex_nat n) \<Longrightarrow> hex_like c"
proof (induction n rule: hex_nat.induct)
  case (1 n)
  then show ?case
    by (simp add: hex_nat.simps [of n] split: if_splits) auto
qed

lemma hex_nat_not_Nil [simp]: "hex_nat n \<noteq> []"
  by (subst hex_nat.simps) simp

lemma hex_group_hex_nat:
  "n < 16 ^ k \<Longrightarrow> 0 < k \<Longrightarrow> k \<le> 4 \<Longrightarrow> n < 65536 \<Longrightarrow>
   \<exists>l. 0 < l \<and> l \<le> k \<and> (\<forall>rest. hex_group 0 0 (hex_nat n @ rest) = hex_group l n rest)"
proof (induction k arbitrary: n)
  case (Suc k)
  show ?case
  proof (cases "n < 16")
    case True
    then show ?thesis
      by (intro exI [of _ 1]) (simp add: hex_nat.simps [of n])
  next
    case False
    with Suc.prems have "n div 16 < 16 ^ k" "0 < k" "n div 16 < 65536"
      by (auto simp: less_mult_imp_div_less mult.commute intro: gr0I)
    with Suc.IH [of "n div 16"] Suc.prems obtain l where l: "0 < l" "l \<le> k"
      "\<And>rest. hex_group 0 0 (hex_nat (n div 16) @ rest) = hex_group l (n div 16) rest"
      by auto
    have "hex_group 0 0 (hex_nat n @ rest) = hex_group (Suc l) n rest" for rest
      using False l Suc.prems by (simp add: hex_nat.simps [of n])
    with l show ?thesis by (intro exI [of _ "Suc l"]) simp
  qed
qed simp

lemma hex_group_read:
  assumes "n < 65536" and "rest = [] \<or> hd rest = CHR '':''"
  shows "\<exists>l>0. hex_group 0 0 (hex_nat n @ rest) = Some (l, n, rest)"
proof -
  from hex_group_hex_nat [of n 4] assms(1) obtain l where
    "0 < l" "\<And>rest. hex_group 0 0 (hex_nat n @ rest) = hex_group l n rest"
    by auto
  from this(1) this(2) [of rest] assms(2) show ?thesis
    by (cases rest) auto
qed

section \<open>Lists of groups\<close>

definition group_bytes :: "nat \<Rightarrow> bytes" where
  "group_bytes g = [of_nat (g div 256), of_nat g]"

abbreviation print_groups :: "nat list \<Rightarrow> string" where
  "print_groups gs \<equiv> join_colon (map hex_nat gs)"

lemma length_group [simp]: "length (group_bytes g) = 2"
  by (simp add: group_bytes_def)

lemma length_group_bytes: "length (concat (map group_bytes gs)) = 2 * length gs"
  by (induction gs) auto

lemma join_colon_Cons: "xs \<noteq> [] \<Longrightarrow> join_colon (x # xs) = x @ CHR '':'' # join_colon xs"
  by (cases xs) auto

lemma print_groups_chars: "c \<in> set (print_groups gs) \<Longrightarrow> hex_like c \<or> c = CHR '':''"
  by (induction gs rule: induct_list012) (auto dest: hex_nat_like)

lemma print_groups_head:
  assumes "gs \<noteq> []"
  obtains c cs where "print_groups gs = c # cs" "hex_like c"
proof -
  from assms obtain g gs' where "gs = g # gs'"
    by (cases gs) auto
  moreover obtain c cs where "hex_nat g = c # cs"
    by (cases "hex_nat g") auto
  moreover from this have "hex_like c"
    using hex_nat_like [of c g] by simp
  ultimately show thesis
    using that by (cases gs') auto
qed

lemma print_groups_not_Nil [simp]: "print_groups gs = [] \<longleftrightarrow> gs = []"
  by (cases gs rule: list.exhaust; cases "tl gs") auto

text \<open>One group, then the end, a colon and a further group, or the ellipsis.\<close>

lemma groups_last:
  "length b < 16 \<Longrightarrow> g < 65536 \<Longrightarrow> ipv6_groups b el (hex_nat g) = Some (b @ group_bytes g, el, [])"
  using hex_group_read [of g "[]"] by (auto simp: ipv6_groups.simps [of b el] group_bytes_def)

lemma groups_colon:
  assumes "length b < 16" and "g < 65536" and "hex_like c"
  shows "ipv6_groups b el (hex_nat g @ CHR '':'' # c # cs) = ipv6_groups (b @ group_bytes g) el (c # cs)"
  using hex_group_read [of g "CHR '':'' # c # cs"] assms hex_like_plain [of c]
  by (auto simp: ipv6_groups.simps [of b el] group_bytes_def)

lemma groups_ellipsis:
  assumes "length b < 16" and "g < 65536"
  shows "ipv6_groups b None (hex_nat g @ ''::'' @ s) =
    (if s = [] then Some (b @ group_bytes g, Some (length b + 2), [])
     else ipv6_groups (b @ group_bytes g) (Some (length b + 2)) s)"
  using hex_group_read [of g "''::'' @ s"] assms
  by (auto simp: ipv6_groups.simps [of b None] group_bytes_def)

lemma groups_run:
  "gs \<noteq> [] \<Longrightarrow> \<forall>g \<in> set gs. g < 65536 \<Longrightarrow> length b + 2 * length gs \<le> 16 \<Longrightarrow>
   ipv6_groups b el (print_groups gs) = Some (b @ concat (map group_bytes gs), el, [])"
proof (induction gs arbitrary: b)
  case (Cons g gs)
  show ?case
  proof (cases "gs = []")
    case True
    with Cons.prems show ?thesis by (simp add: groups_last)
  next
    case False
    from print_groups_head [OF False] obtain c cs where h: "print_groups gs = c # cs" "hex_like c" .
    have "ipv6_groups b el (print_groups (g # gs)) = ipv6_groups (b @ group_bytes g) el (print_groups gs)"
      using groups_colon [of b g c el cs] h Cons.prems False by (simp add: join_colon_Cons)
    also have "\<dots> = Some ((b @ group_bytes g) @ concat (map group_bytes gs), el, [])"
      using Cons.prems False by (intro Cons.IH) auto
    finally show ?thesis by simp
  qed
qed simp

lemma groups_run_ellipsis:
  "gs \<noteq> [] \<Longrightarrow> \<forall>g \<in> set gs. g < 65536 \<Longrightarrow> length b + 2 * length gs \<le> 16 \<Longrightarrow>
   ipv6_groups b None (print_groups gs @ ''::'' @ s) =
     (if s = [] then Some (b @ concat (map group_bytes gs), Some (length b + 2 * length gs), [])
      else ipv6_groups (b @ concat (map group_bytes gs)) (Some (length b + 2 * length gs)) s)"
proof (induction gs arbitrary: b)
  case (Cons g gs)
  show ?case
  proof (cases "gs = []")
    case True
    with Cons.prems groups_ellipsis [of b g s] show ?thesis by simp
  next
    case False
    from print_groups_head [OF False] obtain c cs where h: "print_groups gs = c # cs" "hex_like c" .
    have "ipv6_groups b None (print_groups (g # gs) @ ''::'' @ s) =
        ipv6_groups (b @ group_bytes g) None (print_groups gs @ ''::'' @ s)"
      using groups_colon [of b g c None "cs @ ''::'' @ s"] h Cons.prems False by (simp add: join_colon_Cons)
    also have "\<dots> = (if s = [] then Some ((b @ group_bytes g) @ concat (map group_bytes gs),
          Some (length (b @ group_bytes g) + 2 * length gs), [])
        else ipv6_groups ((b @ group_bytes g) @ concat (map group_bytes gs))
          (Some (length (b @ group_bytes g) + 2 * length gs)) s)"
      using Cons.prems False by (intro Cons.IH) auto
    finally show ?thesis by (simp add: numeral_2_eq_2)
  qed
qed simp

section \<open>The zero run\<close>

definition good_run :: "nat list \<Rightarrow> nat \<times> nat \<Rightarrow> bool" where
  "good_run gs z = (z = (8, 8) \<or>
     (fst z + 2 \<le> snd z \<and> snd z \<le> length gs \<and> take (snd z - fst z) (drop (fst z) gs) = replicate (snd z - fst z) 0))"

lemma takeWhile_zero:
  "take (length (takeWhile (\<lambda>g. g = 0) xs)) xs = replicate (length (takeWhile (\<lambda>g. g = 0) xs)) (0 :: nat)"
  by (induction xs) auto

lemma good_run_step:
  assumes "good_run gs z" and "i \<le> length gs"
  shows "good_run gs (zero_step gs z i)"
proof -
  have "length (takeWhile (\<lambda>g. g = 0) (drop i gs)) \<le> length gs - i"
    using length_takeWhile_le [of _ "drop i gs"] by simp
  with assms takeWhile_zero [of "drop i gs"] show ?thesis
    by (auto simp: good_run_def zero_step_def Let_def)
qed

lemma good_run_zero_run:
  assumes "length gs = 8"
  shows "good_run gs (zero_run gs)"
proof -
  have "good_run gs (foldl (zero_step gs) z js)" if "good_run gs z" "\<forall>i \<in> set js. i \<le> length gs" for z js
    using that
  proof (induction js arbitrary: z)
    case (Cons j js)
    then show ?case by (simp add: good_run_step)
  qed simp
  then show ?thesis
    unfolding zero_run_def using assms by (simp add: good_run_def)
qed

section \<open>Round trip\<close>

lemma list_16:
  assumes "length b = 16"
  obtains x0 x1 x2 x3 x4 x5 x6 x7 x8 x9 x10 x11 x12 x13 x14 x15
  where "b = [x0, x1, x2, x3, x4, x5, x6, x7, x8, x9, x10, x11, x12, x13, x14, x15]"
  using assms by (auto simp: length_Suc_conv numeral_eq_Suc)

lemma group_bytes_pair: "group_bytes (unat x * 256 + unat y) = [x, y]" for x y :: byte
proof -
  have "unat y < 256"
    using unsigned_less [of y] by simp
  then have "(unat x * 256 + unat y) div 256 = unat x"
    by simp
  moreover have "(of_nat (unat x * 256 + unat y) :: byte) = x * 256 + y"
    by simp
  moreover have "(256 :: byte) = 0"
    by simp
  ultimately show ?thesis
    by (simp only: group_bytes_def) simp
qed

lemma groups16_bytes:
  assumes "length b = 16"
  shows "concat (map group_bytes (groups16 b)) = b"
proof -
  have upt: "[0..<8] = [0, 1, 2, 3, 4, 5, 6, 7]"
    by (simp add: upt_rec)
  from assms show ?thesis
    by (elim list_16) (simp add: groups16_def upt group_bytes_pair)
qed

lemma groups16_small: "g \<in> set (groups16 b) \<Longrightarrow> g < 65536"
proof -
  assume "g \<in> set (groups16 b)"
  then obtain x y :: byte where g: "g = unat x * 256 + unat y"
    by (auto simp: groups16_def)
  have "unat x < 256" "unat y < 256"
    using unsigned_less [of x] unsigned_less [of y] by simp_all
  with g show ?thesis by linarith
qed

lemma length_groups16 [simp]: "length (groups16 b) = 8"
  by (simp add: groups16_def)

lemma ipv6_finish_ellipsis:
  assumes "length b1 + n + length b2 = 16" and "0 < n"
  shows "ipv6_finish (b1 @ b2) (Some (length b1)) [] = Some (b1 @ replicate n 0 @ b2)"
proof -
  have "16 - length (b1 @ b2) = n" "length (b1 @ b2) < 16"
    using assms by auto
  then show ?thesis by (simp add: ipv6_finish_def)
qed

lemma parseIPv6_plain:
  assumes "hex_like c"
  shows "parseIPv6 (c # cs) =
    (case ipv6_groups [] None (c # cs) of None \<Rightarrow> None | Some (b, el, r) \<Rightarrow> ipv6_finish b el r)"
proof -
  from assms have "take 2 (c # cs) \<noteq> ''::''"
    by (auto simp: numeral_2_eq_2 dest: hex_like_plain)
  then show ?thesis
    by (simp only: parseIPv6_def Let_def if_False simp_thms)
qed

text \<open>The three shapes of the text: no ellipsis, a leading one, one after some groups.\<close>

lemma parse_full:
  assumes "length gs = 8" and "\<forall>g \<in> set gs. g < 65536"
  shows "parseIPv6 (print_groups gs) = Some (concat (map group_bytes gs))"
proof -
  from assms have "gs \<noteq> []" by auto
  then obtain c cs where h: "print_groups gs = c # cs" "hex_like c"
    by (rule print_groups_head)
  have "ipv6_groups [] None (print_groups gs) = Some (concat (map group_bytes gs), None, [])"
    using groups_run [of gs "[]" None] assms \<open>gs \<noteq> []\<close> by simp
  with h parseIPv6_plain [OF h(2), of cs] assms show ?thesis
    by (simp add: ipv6_finish_def length_group_bytes)
qed

lemma parse_leading:
  assumes "length g2 \<le> 6" and "\<forall>g \<in> set g2. g < 65536"
  shows "parseIPv6 (''::'' @ print_groups g2) =
    Some (replicate (16 - 2 * length g2) 0 @ concat (map group_bytes g2))"
proof (cases "g2 = []")
  case True
  then show ?thesis by (simp add: parseIPv6_def)
next
  case False
  have "ipv6_groups [] (Some 0) (print_groups g2) = Some (concat (map group_bytes g2), Some 0, [])"
    using groups_run [of g2 "[]" "Some 0"] assms False by simp
  with False assms ipv6_finish_ellipsis [of "[]" "16 - 2 * length g2" "concat (map group_bytes g2)"]
  show ?thesis
    by (simp add: parseIPv6_def length_group_bytes)
qed

lemma parse_middle:
  assumes "g1 \<noteq> []" and "length g1 + length g2 \<le> 6" and "\<forall>g \<in> set g1 \<union> set g2. g < 65536"
  shows "parseIPv6 (print_groups g1 @ ''::'' @ print_groups g2) =
    Some (concat (map group_bytes g1) @ replicate (16 - 2 * length g1 - 2 * length g2) 0 @ concat (map group_bytes g2))"
proof -
  from assms(1) obtain c cs where h: "print_groups g1 = c # cs" "hex_like c"
    by (rule print_groups_head)
  have "ipv6_groups [] None (print_groups g1 @ ''::'' @ print_groups g2) =
      Some (concat (map group_bytes g1) @ concat (map group_bytes g2), Some (2 * length g1), [])"
    using groups_run_ellipsis [of g1 "[]" "print_groups g2"]
      groups_run [of g2 "concat (map group_bytes g1)" "Some (2 * length g1)"] assms
    by (auto simp: length_group_bytes)
  with h parseIPv6_plain [OF h(2), of "cs @ ''::'' @ print_groups g2"] assms
    ipv6_finish_ellipsis [of "concat (map group_bytes g1)" "16 - 2 * length g1 - 2 * length g2" "concat (map group_bytes g2)"]
  show ?thesis
    by (simp add: length_group_bytes)
qed

lemma concat_zero_groups: "concat (map group_bytes (replicate n 0)) = replicate (2 * n) 0"
  by (induction n) (auto simp: group_bytes_def)

lemma parseIPv6_colons:
  assumes "length b = 16"
  shows "parseIPv6 (colons b) = Some b"
proof -
  let ?gs = "groups16 b"
  obtain zs ze where z: "zero_run ?gs = (zs, ze)"
    by fastforce
  have small: "\<forall>g \<in> set ?gs. g < 65536"
    using groups16_small by blast
  from good_run_zero_run [of ?gs] z consider "zs = 8" "ze = 8"
    | "zs + 2 \<le> ze" "ze \<le> 8" "take (ze - zs) (drop zs ?gs) = replicate (ze - zs) 0"
    by (auto simp: good_run_def)
  then show ?thesis
  proof cases
    case 1
    with parse_full [of ?gs] small groups16_bytes [OF assms] z show ?thesis
      by (simp add: colons_def)
  next
    case 2
    let ?g1 = "take zs ?gs" and ?g2 = "drop ze ?gs"
    have "?gs = ?g1 @ take (ze - zs) (drop zs ?gs) @ ?g2"
      using 2 by (metis append_take_drop_id drop_drop add_leD1 le_add_diff_inverse2)
    then have gs: "?gs = ?g1 @ replicate (ze - zs) 0 @ ?g2"
      using 2(3) by simp
    have n: "16 - 2 * length ?g1 - 2 * length ?g2 = 2 * (ze - zs)"
      using 2 by simp
    have "b = concat (map group_bytes (?g1 @ replicate (ze - zs) 0 @ ?g2))"
      using groups16_bytes [OF assms] gs by simp
    then have b: "b = concat (map group_bytes ?g1) @ replicate (2 * (ze - zs)) 0 @ concat (map group_bytes ?g2)"
      by (simp only: map_append concat_append concat_zero_groups)
    have parts: "\<forall>g \<in> set ?g1 \<union> set ?g2. g < 65536" "length ?g1 + length ?g2 \<le> 6"
      using small 2 by (auto dest: in_set_takeD in_set_dropD)
    have printed: "colons b = print_groups ?g1 @ ''::'' @ print_groups ?g2"
      using z 2 by (simp add: colons_def Let_def)
    have "parseIPv6 (print_groups ?g1 @ ''::'' @ print_groups ?g2) =
        Some (concat (map group_bytes ?g1) @ replicate (2 * (ze - zs)) 0 @ concat (map group_bytes ?g2))"
    proof (cases "zs = 0")
      case True
      with parse_leading [of ?g2] parts n show ?thesis by simp
    next
      case False
      then have "?g1 \<noteq> []"
        using length_groups16 [of b] by (metis take_eq_Nil length_0_conv zero_neq_numeral)
      from parse_middle [OF this parts(2,1)] n show ?thesis by simp
    qed
    then show ?thesis
      by (simp only: printed b [symmetric])
  qed
qed

lemma colons_chars: "c \<in> set (colons b) \<Longrightarrow> hex_like c \<or> c = CHR '':''"
  using print_groups_chars by (auto simp: colons_def Let_def split: prod.splits if_splits)

lemma colons_colon:
  assumes "length b = 16"
  shows "CHR '':'' \<in> set (colons b)"
proof -
  have "CHR '':'' \<in> set (print_groups (groups16 b))"
    by (cases "groups16 b" rule: list.exhaust; cases "tl (groups16 b)")
       (use length_groups16 [of b] in auto)
  then show ?thesis
    by (cases "zero_run (groups16 b)") (simp add: colons_def Let_def)
qed

lemma find_first_colon:
  "CHR '':'' \<in> set s \<Longrightarrow> \<forall>c \<in> set s. hex_like c \<or> c = CHR '':'' \<Longrightarrow>
   find (\<lambda>c. c = CHR ''.'' \<or> c = CHR '':'') s = Some CHR '':''"
  by (induction s) (auto dest: hex_like_plain)

lemma ParseIP_colons:
  assumes "length b = 16"
  shows "ParseIP (colons b) = Some b"
proof -
  have "CHR ''%'' \<notin> set (colons b)"
    using colons_chars [of "CHR ''%''" b] hex_like_plain [of "CHR ''%''"] by auto
  moreover have "find (\<lambda>c. c = CHR ''.'' \<or> c = CHR '':'') (colons b) = Some CHR '':''"
    using colons_colon [OF assms] colons_chars [of _ b] by (intro find_first_colon) auto
  ultimately show ?thesis
    using parseIPv6_colons [OF assms] assms by (simp add: ParseIP_def parse_addr_def As16_def)
qed

end
