(* ===== verification/Protocol_Address.thy ===== *)
theory Protocol_Address
  imports Go_Net_Print
begin

text \<open>
  \<open>internal/protocol/address.go\<close>: the destination address, its validation, its textual
  form and its two wire decoders (from a stream and from the front of a datagram). The
  locale \<open>stream_codec\<close> is the contract of a self-delimiting encoding; framing, SOCKS and
  datagram code rely on the address codec only through it.
\<close>

section \<open>Definitions\<close>

definition AtypIPv4 :: byte where "AtypIPv4 = 0x01"
definition AtypDomain :: byte where "AtypDomain = 0x03"
definition AtypIPv6 :: byte where "AtypIPv6 = 0x04"

record Address =
  Atyp :: byte
  Host :: string
  IP :: bytes
  Port :: u16

definition zero_Address :: Address where
  "zero_Address = \<lparr>Atyp = 0, Host = [], IP = [], Port = 0\<rparr>"

definition Address_String :: "Address \<Rightarrow> string" where
  "Address_String a =
     (if Atyp a = AtypDomain then JoinHostPort (Host a) (Itoa (unat (Port a)))
      else JoinHostPort (IP_String (IP a)) (Itoa (unat (Port a))))"

text \<open>The loop over runes refuses every byte above 127: a multi-byte rune and an invalid
  byte are both outside the accepted set.\<close>

definition name_char :: "char \<Rightarrow> bool" where
  "name_char c =
     (let n = of_char c :: nat
      in 97 \<le> n \<and> n \<le> 122 \<or> 65 \<le> n \<and> n \<le> 90 \<or> 48 \<le> n \<and> n \<le> 57 \<or> c = CHR ''-'' \<or> c = CHR ''_'')"

definition label_ok :: "string \<Rightarrow> bool" where
  "label_ok label =
     (\<not> (length label = 0 \<or> 63 < length label \<or> hd label = CHR ''-'' \<or> last label = CHR ''-'')
      \<and> list_all name_char label)"

definition Validate :: "Address \<Rightarrow> go_error option" where
  "Validate a =
     (if Atyp a = AtypIPv4 then
        (if To4 (IP a) = None then Some errBadAddress else None)
      else if Atyp a = AtypIPv6 then
        (if To16 (IP a) = None then Some errBadAddress else None)
      else if Atyp a = AtypDomain then
        (if ParseIP (Host a) \<noteq> None then None
         else let host = TrimSuffix (Host a) ''.''
              in if length host = 0 \<or> 253 < length host then Some errBadAddress
                 else if list_all label_ok (Split host CHR ''.'') then None
                 else Some errBadAddress)
      else Some errBadAddress)"

text \<open>\<open>return a, a.Validate()\<close>: the callers drop the address when there is an error.\<close>

definition validated :: "Address \<Rightarrow> go_error + Address" where
  "validated a = (case Validate a of None \<Rightarrow> Inr a | Some e \<Rightarrow> Inl e)"

definition ParseAddress :: "string \<Rightarrow> go_error + Address" where
  "ParseAddress hostport =
     (case SplitHostPort hostport of
        Inl e \<Rightarrow> Inl e
      | Inr (host, portStr) \<Rightarrow>
          (case ParseUint portStr 16 of
             Inl e \<Rightarrow> Inl (Wrapped ''protocol: bad port'' e)
           | Inr port \<Rightarrow>
               (let a = zero_Address\<lparr>Port := of_nat port\<rparr>
                in case ParseIP host of
                     Some q \<Rightarrow>
                       (case To4 q of
                          Some v4 \<Rightarrow> validated (a\<lparr>Atyp := AtypIPv4, IP := v4\<rparr>)
                        | None \<Rightarrow> validated (a\<lparr>Atyp := AtypIPv6, IP := slice (To16 q)\<rparr>))
                   | None \<Rightarrow>
                       if 255 < length host then Inl (ErrorString ''protocol: domain name too long'')
                       else validated (a\<lparr>Atyp := AtypDomain, Host := host\<rparr>))))"

definition Encode :: "Address \<Rightarrow> bytes \<Rightarrow> bytes" where
  "Encode a b =
     (let b = (if Atyp a = AtypIPv4 then b @ [AtypIPv4] @ slice (To4 (IP a))
               else if Atyp a = AtypIPv6 then b @ [AtypIPv6] @ slice (To16 (IP a))
               else if Atyp a = AtypDomain then
                 b @ [AtypDomain, of_nat (length (Host a))] @ to_bytes (Host a)
               else b)
      in b @ be16 (Port a))"

text \<open>The port and the final validation, common to the three address types.\<close>

definition read_port :: "Address \<Rightarrow> reader \<Rightarrow> (go_error + Address) \<times> reader" where
  "read_port a r =
     (case ReadFull 2 r of
        (Inl e, r) \<Rightarrow> (Inl e, r)
      | (Inr port, r) \<Rightarrow> (validated (a\<lparr>Port := Uint16 port\<rparr>), r))"

definition ReadAddress :: "reader \<Rightarrow> (go_error + Address) \<times> reader" where
  "ReadAddress r =
     (case ReadFull 1 r of
        (Inl e, r) \<Rightarrow> (Inl e, r)
      | (Inr atyp, r) \<Rightarrow>
          (let a = zero_Address\<lparr>Atyp := hd atyp\<rparr>
           in if hd atyp = AtypIPv4 then
                (case ReadFull 4 r of
                   (Inl e, r) \<Rightarrow> (Inl e, r)
                 | (Inr buf, r) \<Rightarrow> read_port (a\<lparr>IP := buf\<rparr>) r)
              else if hd atyp = AtypIPv6 then
                (case ReadFull 16 r of
                   (Inl e, r) \<Rightarrow> (Inl e, r)
                 | (Inr buf, r) \<Rightarrow> read_port (a\<lparr>IP := buf\<rparr>) r)
              else if hd atyp = AtypDomain then
                (case ReadFull 1 r of
                   (Inl e, r) \<Rightarrow> (Inl e, r)
                 | (Inr l, r) \<Rightarrow>
                     (case ReadFull (unat (hd l)) r of
                        (Inl e, r) \<Rightarrow> (Inl e, r)
                      | (Inr buf, r) \<Rightarrow> read_port (a\<lparr>Host := of_bytes buf\<rparr>) r))
              else (Inl errBadAddress, r)))"

definition decode_port :: "Address \<Rightarrow> bytes \<Rightarrow> nat \<Rightarrow> go_error + (Address \<times> nat)" where
  "decode_port a buf off =
     (case validated (a\<lparr>Port := Uint16 (take 2 (drop off buf))\<rparr>) of
        Inl e \<Rightarrow> Inl e | Inr a \<Rightarrow> Inr (a, off + 2))"

definition decodeAddress :: "bytes \<Rightarrow> go_error + (Address \<times> nat)" where
  "decodeAddress buf =
     (if length buf < 1 then Inl errBadAddress
      else let a = zero_Address\<lparr>Atyp := hd buf\<rparr>; off = 1
        in if hd buf = AtypIPv4 then
             (if length buf < off + 4 + 2 then Inl errBadAddress
              else decode_port (a\<lparr>IP := take 4 (drop off buf)\<rparr>) buf (off + 4))
           else if hd buf = AtypIPv6 then
             (if length buf < off + 16 + 2 then Inl errBadAddress
              else decode_port (a\<lparr>IP := take 16 (drop off buf)\<rparr>) buf (off + 16))
           else if hd buf = AtypDomain then
             (if length buf < off + 1 then Inl errBadAddress
              else let dl = unat (buf ! off); off = off + 1
                in if length buf < off + dl + 2 then Inl errBadAddress
                   else decode_port (a\<lparr>Host := of_bytes (take dl (drop off buf))\<rparr>) buf (off + dl))
           else Inl errBadAddress)"

text \<open>
  The addresses that have a wire form of their own: valid, with the 4-byte or 16-byte form
  their type says and nothing in the field the type does not use.
\<close>

definition wf_address :: "Address \<Rightarrow> bool" where
  "wf_address a =
     (Validate a = None \<and>
      (Atyp a = AtypIPv4 \<longrightarrow> length (IP a) = 4 \<and> Host a = []) \<and>
      (Atyp a = AtypIPv6 \<longrightarrow> length (IP a) = 16 \<and> Host a = []) \<and>
      (Atyp a = AtypDomain \<longrightarrow> IP a = []))"

section \<open>The contract of a self-delimiting encoding\<close>

locale stream_codec =
  fixes enc :: "'a \<Rightarrow> bytes"
    and dec :: "reader \<Rightarrow> (go_error + 'a) \<times> reader"
    and ok :: "'a \<Rightarrow> bool"
  assumes dec_enc: "ok a \<Longrightarrow> dec \<lparr>rbuf = enc a @ rest, rend = e\<rparr> = (Inr a, \<lparr>rbuf = rest, rend = e\<rparr>)"
    and dec_inv: "dec r = (Inr a, r') \<Longrightarrow> ok a \<and> rbuf r = enc a @ rbuf r' \<and> rend r' = rend r"
begin

text \<open>No encoding is a prefix of another: what follows cannot be misread.\<close>

lemma prefix_free:
  assumes "ok a" and "ok b" and "enc a @ xs = enc b @ ys"
  shows "a = b" and "xs = ys"
proof -
  have "dec \<lparr>rbuf = enc b @ ys, rend = EOF\<rparr> = (Inr a, \<lparr>rbuf = xs, rend = EOF\<rparr>)"
    using dec_enc [OF assms(1), of xs EOF] assms(3) by simp
  with dec_enc [OF assms(2), of ys EOF] show "a = b" and "xs = ys"
    by simp_all
qed

lemma enc_inj: "ok a \<Longrightarrow> ok b \<Longrightarrow> enc a = enc b \<Longrightarrow> a = b"
  using prefix_free [of a b "[]" "[]"] by simp

text \<open>A reader accepts exactly the encodings, each in one way.\<close>

lemma dec_iff:
  "dec r = (Inr a, r') \<longleftrightarrow> ok a \<and> rbuf r = enc a @ rbuf r' \<and> rend r' = rend r"
proof
  assume "ok a \<and> rbuf r = enc a @ rbuf r' \<and> rend r' = rend r"
  then have "ok a" "r = \<lparr>rbuf = enc a @ rbuf r', rend = rend r'\<rparr>"
    by auto
  then show "dec r = (Inr a, r')"
    using dec_enc [of a "rbuf r'" "rend r'"] by simp
qed (rule dec_inv)

end

text \<open>With a bound on the size of an encoding.\<close>

locale bounded_codec = stream_codec +
  fixes bound :: nat
  assumes enc_bound: "ok a \<Longrightarrow> length (enc a) \<le> bound"
begin

lemma consumed_bound: "dec r = (Inr a, r') \<Longrightarrow> length (rbuf r) \<le> bound + length (rbuf r')"
  using enc_bound [of a] by (auto simp: dec_iff)

end

section \<open>Validation\<close>

lemmas atyp_defs = AtypIPv4_def AtypDomain_def AtypIPv6_def

lemma atyp_distinct [simp]:
  "AtypIPv4 \<noteq> AtypIPv6" "AtypIPv6 \<noteq> AtypIPv4" "AtypIPv4 \<noteq> AtypDomain" "AtypDomain \<noteq> AtypIPv4"
  "AtypIPv6 \<noteq> AtypDomain" "AtypDomain \<noteq> AtypIPv6"
  by (simp_all add: atyp_defs)

lemma Validate_errBadAddress: "Validate a = Some e \<Longrightarrow> e = errBadAddress"
  by (auto simp: Validate_def Let_def split: if_splits)

lemma Validate_atyp: "Validate a = None \<Longrightarrow> Atyp a \<in> {AtypIPv4, AtypIPv6, AtypDomain}"
  by (auto simp: Validate_def split: if_splits)

text \<open>A valid name has 1 to 254 bytes: an IP literal is at most 69 bytes long, any other
  name at most 253 without its final dot.\<close>

lemma Validate_host_bound:
  assumes "Validate a = None" and "Atyp a = AtypDomain"
  shows "0 < length (Host a)" and "length (Host a) \<le> 254"
proof -
  have "0 < length (Host a) \<and> length (Host a) \<le> 254"
  proof (cases "ParseIP (Host a)")
    case None
    with assms have "TrimSuffix (Host a) ''.'' \<noteq> []" "length (TrimSuffix (Host a) ''.'') \<le> 253"
      by (auto simp: Validate_def Let_def split: if_splits)
    moreover from this(1) have "Host a \<noteq> []"
      by (auto simp: TrimSuffix_def split: if_splits)
    ultimately show ?thesis
      using length_TrimSuffix [of "Host a" "''.''"] by simp
  next
    case (Some q)
    then have "Host a \<noteq> []"
      by (auto simp: ParseIP_def parse_addr_def)
    with ParseIP_short [OF Some] show ?thesis by simp
  qed
  then show "0 < length (Host a)" and "length (Host a) \<le> 254"
    by auto
qed

lemma host_length_byte:
  "Validate a = None \<Longrightarrow> Atyp a = AtypDomain \<Longrightarrow> unat (of_nat (length (Host a)) :: byte) = length (Host a)"
  using Validate_host_bound [of a] by (simp add: unat_of_nat)

lemma Validate_Port [simp]: "Validate (a\<lparr>Port := p\<rparr>) = Validate a"
  by (simp add: Validate_def)

lemma Validate_cong:
  "Atyp a = Atyp b \<Longrightarrow> Host a = Host b \<Longrightarrow> IP a = IP b \<Longrightarrow> Validate a = Validate b"
  by (simp add: Validate_def)

lemma validated_Inr: "validated a = Inr b \<longleftrightarrow> Validate a = None \<and> b = a"
  by (auto simp: validated_def split: option.splits)

lemma validated_Inl: "validated a = Inl e \<longleftrightarrow> Validate a = Some e"
  by (auto simp: validated_def split: option.splits)

section \<open>The wire codec\<close>

lemma Encode_append: "Encode a b = b @ Encode a []"
  by (simp add: Encode_def Let_def)

lemma wf_address_cases:
  assumes "wf_address a"
  obtains (ipv4) b p where "a = \<lparr>Atyp = AtypIPv4, Host = [], IP = b, Port = p\<rparr>" "length b = 4"
    | (ipv6) b p where "a = \<lparr>Atyp = AtypIPv6, Host = [], IP = b, Port = p\<rparr>" "length b = 16"
    | (domain) h p where "a = \<lparr>Atyp = AtypDomain, Host = h, IP = [], Port = p\<rparr>"
        "Validate a = None"
proof -
  from assms have "Atyp a = AtypIPv4 \<or> Atyp a = AtypIPv6 \<or> Atyp a = AtypDomain"
    using Validate_atyp [of a] by (auto simp: wf_address_def)
  with assms ipv4 [of "IP a" "Port a"] ipv6 [of "IP a" "Port a"] domain [of "Host a" "Port a"]
  show thesis
    by (cases a) (auto simp: wf_address_def)
qed

lemma Encode_simps:
  "length b = 4 \<Longrightarrow>
     Encode \<lparr>Atyp = AtypIPv4, Host = h, IP = b, Port = p\<rparr> [] = [AtypIPv4] @ b @ be16 p"
  "length c = 16 \<Longrightarrow>
     Encode \<lparr>Atyp = AtypIPv6, Host = h, IP = c, Port = p\<rparr> [] = [AtypIPv6] @ c @ be16 p"
  "Encode \<lparr>Atyp = AtypDomain, Host = h, IP = d, Port = p\<rparr> [] =
     [AtypDomain] @ [of_nat (length h)] @ to_bytes h @ be16 p"
  by (simp_all add: Encode_def)

lemma read_port_append:
  "Validate a = None \<Longrightarrow>
   read_port a \<lparr>rbuf = be16 p @ rest, rend = e\<rparr> = (Inr (a\<lparr>Port := p\<rparr>), \<lparr>rbuf = rest, rend = e\<rparr>)"
  by (simp add: read_port_def ReadFull_append validated_def)

lemma ReadAddress_Encode:
  assumes "wf_address a"
  shows "ReadAddress \<lparr>rbuf = Encode a [] @ rest, rend = e\<rparr> = (Inr a, \<lparr>rbuf = rest, rend = e\<rparr>)"
  using assms
proof (cases rule: wf_address_cases)
  case (ipv4 b p)
  with read_port_append [of "zero_Address\<lparr>Atyp := AtypIPv4, IP := b\<rparr>" p rest e] show ?thesis
    using ReadFull_append [of "[AtypIPv4]" 1 "b @ be16 p @ rest" e] ReadFull_append [of b 4 "be16 p @ rest" e]
    by (simp add: ReadAddress_def Encode_simps zero_Address_def Validate_def)
next
  case (ipv6 b p)
  with read_port_append [of "zero_Address\<lparr>Atyp := AtypIPv6, IP := b\<rparr>" p rest e] show ?thesis
    using ReadFull_append [of "[AtypIPv6]" 1 "b @ be16 p @ rest" e] ReadFull_append [of b 16 "be16 p @ rest" e]
    by (simp add: ReadAddress_def Encode_simps zero_Address_def Validate_def)
next
  case (domain h p)
  then have len: "unat (of_nat (length h) :: byte) = length h"
    using host_length_byte [of a] by simp
  have v: "Validate (zero_Address\<lparr>Atyp := AtypDomain, Host := h\<rparr>) = None"
    using domain Validate_cong [of "zero_Address\<lparr>Atyp := AtypDomain, Host := h\<rparr>" a] by (simp add: zero_Address_def)
  show ?thesis
    using domain len read_port_append [OF v, of p rest e]
      ReadFull_append [of "[AtypDomain]" 1 "of_nat (length h) # to_bytes h @ be16 p @ rest" e]
      ReadFull_append [of "[of_nat (length h)]" 1 "to_bytes h @ be16 p @ rest" e]
      ReadFull_append [of "to_bytes h" "length h" "be16 p @ rest" e]
    by (simp add: ReadAddress_def Encode_simps zero_Address_def)
qed

lemma read_port_inv:
  assumes "read_port a r = (Inr c, r')"
  shows "c = a\<lparr>Port := Port c\<rparr>" and "Validate a = None" and "rbuf r = be16 (Port c) @ rbuf r'" and "rend r' = rend r"
proof -
  from assms obtain b where b: "ReadFull 2 r = (Inr b, r')" and c: "Validate a = None" "c = a\<lparr>Port := Uint16 b\<rparr>"
    by (auto simp: read_port_def validated_Inr split: prod.splits sum.splits)
  from ReadFull_split [OF b] c show "c = a\<lparr>Port := Port c\<rparr>" and "Validate a = None"
    and "rbuf r = be16 (Port c) @ rbuf r'" and "rend r' = rend r"
    by (simp_all add: be16_Uint16)
qed

text \<open>What a stream decoder has consumed when it succeeds, by address type.\<close>

lemma ReadAddress_inv:
  assumes "ReadAddress r = (Inr a, r')"
  shows "wf_address a \<and> rbuf r = Encode a [] @ rbuf r' \<and> rend r' = rend r"
proof -
  from assms obtain t r1 where t: "ReadFull 1 r = (Inr t, r1)"
    by (auto simp: ReadAddress_def split: prod.splits sum.splits)
  then obtain ty where ty: "t = [ty]" "rbuf r = ty # rbuf r1" "rend r1 = rend r"
    using ReadFull_split [OF t] by (auto simp: length_Suc_conv)
  note step = assms [unfolded ReadAddress_def t, simplified ty Let_def, simplified]
  consider (ip4) b r2 where "ty = AtypIPv4" "ReadFull 4 r1 = (Inr b, r2)"
      "read_port (zero_Address\<lparr>Atyp := ty, IP := b\<rparr>) r2 = (Inr a, r')"
    | (ip6) b r2 where "ty = AtypIPv6" "ReadFull 16 r1 = (Inr b, r2)"
      "read_port (zero_Address\<lparr>Atyp := ty, IP := b\<rparr>) r2 = (Inr a, r')"
    | (dom) l r2 b r3 where "ty = AtypDomain" "ReadFull 1 r1 = (Inr l, r2)"
      "ReadFull (unat (hd l)) r2 = (Inr b, r3)"
      "read_port (zero_Address\<lparr>Atyp := ty, Host := of_bytes b\<rparr>) r3 = (Inr a, r')"
    using step by (auto split: prod.splits sum.splits if_splits)
  then show ?thesis
  proof cases
    case ip4
    from ReadFull_split [OF ip4(2)] read_port_inv [OF ip4(3)] ip4(1) ty show ?thesis
      by (cases a) (auto simp: wf_address_def zero_Address_def Encode_simps Validate_def)
  next
    case ip6
    from ReadFull_split [OF ip6(2)] read_port_inv [OF ip6(3)] ip6(1) ty show ?thesis
      by (cases a) (auto simp: wf_address_def zero_Address_def Encode_simps Validate_def)
  next
    case dom
    from ReadFull_split [OF dom(2)] obtain n where l: "l = [n]" "rbuf r1 = n # rbuf r2" "rend r2 = rend r1"
      by (auto simp: length_Suc_conv)
    from ReadFull_split [OF dom(3)] l have n: "length b = unat n" "rbuf r2 = b @ rbuf r3" "rend r3 = rend r2"
      by simp_all
    have "of_nat (length b) = n"
      using n(1) by simp
    with read_port_inv [OF dom(4)] dom(1) ty l n show ?thesis
      by (cases a) (auto simp: wf_address_def zero_Address_def Encode_simps Validate_def)
  qed
qed

lemma length_Encode: "wf_address a \<Longrightarrow> length (Encode a []) \<le> 258"
  by (erule wf_address_cases) (use Validate_host_bound [of a] in \<open>auto simp: Encode_simps\<close>)

interpretation addr: bounded_codec "\<lambda>a. Encode a []" ReadAddress wf_address 258
  by unfold_locales (rule ReadAddress_Encode ReadAddress_inv length_Encode; assumption)+

text \<open>
  The datagram decoder in terms of the stream decoder: \<open>as_decode n\<close> turns the outcome of
  reading from a buffer of \<open>n\<close> bytes into the address and the number of bytes used.
\<close>

definition as_decode :: "nat \<Rightarrow> (go_error + Address) \<times> reader \<Rightarrow> go_error + (Address \<times> nat)" where
  "as_decode n x =
     (case x of
        (Inr a, r') \<Rightarrow> Inr (a, n - length (rbuf r'))
      | (Inl e, r') \<Rightarrow> Inl errBadAddress)"

lemma as_decode_simps [simp]:
  "as_decode n (Inr a, r') = Inr (a, n - length (rbuf r'))"
  "as_decode n (Inl e, r') = Inl errBadAddress"
  "as_decode n (if c then x else y) = (if c then as_decode n x else as_decode n y)"
  by (simp_all add: as_decode_def)

lemma decode_port_read_port:
  assumes "off + 2 \<le> length buf"
  shows "decode_port a buf off = as_decode (length buf) (read_port a \<lparr>rbuf = drop off buf, rend = EOF\<rparr>)"
proof -
  from assms have "ReadFull 2 \<lparr>rbuf = drop off buf, rend = EOF\<rparr> =
      (Inr (take 2 (drop off buf)), \<lparr>rbuf = drop (off + 2) buf, rend = EOF\<rparr>)"
    by (simp add: ReadFull_def add.commute)
  with assms show ?thesis
    by (auto simp: decode_port_def read_port_def validated_def split: option.splits dest: Validate_errBadAddress)
qed

lemma read_port_short:
  "length (rbuf r) < 2 \<Longrightarrow> as_decode n (read_port a r) = Inl errBadAddress"
  by (simp add: read_port_def ReadFull_def)

text \<open>Reading \<open>n\<close> bytes and the port, after \<open>k\<close> bytes have been consumed.\<close>

lemma decode_field:
  assumes "drop k buf = t" and "k \<le> length buf"
  shows "as_decode (length buf)
      (case ReadFull n \<lparr>rbuf = t, rend = EOF\<rparr> of
         (Inl e, r) \<Rightarrow> (Inl e, r) | (Inr b, r) \<Rightarrow> read_port (f b) r) =
    (if length buf < k + n + 2 then Inl errBadAddress else decode_port (f (take n t)) buf (k + n))"
proof (cases "k + n \<le> length buf")
  case False
  with assms show ?thesis by (auto simp: ReadFull_def)
next
  case True
  with assms have read: "ReadFull n \<lparr>rbuf = t, rend = EOF\<rparr> = (Inr (take n t), \<lparr>rbuf = drop (k + n) buf, rend = EOF\<rparr>)"
    by (auto simp: ReadFull_def add.commute)
  show ?thesis
  proof (cases "length buf < k + n + 2")
    case True
    then have "length (rbuf \<lparr>rbuf = drop (k + n) buf, rend = EOF\<rparr>) < 2"
      by auto
    from read_port_short [OF this] True read show ?thesis by simp
  next
    case False
    with decode_port_read_port [of "k + n" buf] read show ?thesis by simp
  qed
qed

lemma decodeAddress_as_decode:
  "decodeAddress buf = as_decode (length buf) (ReadAddress \<lparr>rbuf = buf, rend = EOF\<rparr>)"
proof (cases buf)
  case Nil
  then show ?thesis by (simp add: decodeAddress_def ReadAddress_def ReadFull_def)
next
  case (Cons ty t)
  let ?a = "zero_Address\<lparr>Atyp := ty\<rparr>"
  have first: "ReadFull (Suc 0) \<lparr>rbuf = ty # t, rend = EOF\<rparr> = (Inr [ty], \<lparr>rbuf = t, rend = EOF\<rparr>)"
    by (simp add: ReadFull_def)
  have ip: "as_decode (length (ty # t))
      (case ReadFull n \<lparr>rbuf = t, rend = EOF\<rparr> of
         (Inl e, r) \<Rightarrow> (Inl e, r) | (Inr b, r) \<Rightarrow> read_port (?a\<lparr>IP := b\<rparr>) r) =
    (if length (ty # t) < 1 + n + 2 then Inl errBadAddress
     else decode_port (?a\<lparr>IP := take n t\<rparr>) (ty # t) (1 + n))" for n
    by (rule decode_field) simp_all
  show ?thesis
  proof (cases "ty = AtypDomain")
    case False
    with Cons first ip [of 4] ip [of 16] show ?thesis
      by (simp add: decodeAddress_def ReadAddress_def Let_def)
  next
    case True
    show ?thesis
    proof (cases t)
      case Nil
      with Cons True show ?thesis by (simp add: decodeAddress_def ReadAddress_def ReadFull_def)
    next
      case (Cons n u)
      have "ReadFull (Suc 0) \<lparr>rbuf = n # u, rend = EOF\<rparr> = (Inr [n], \<lparr>rbuf = u, rend = EOF\<rparr>)"
        by (simp add: ReadFull_def)
      moreover have dom: "as_decode (length (ty # n # u))
          (case ReadFull (unat n) \<lparr>rbuf = u, rend = EOF\<rparr> of
             (Inl e, r) \<Rightarrow> (Inl e, r) | (Inr b, r) \<Rightarrow> read_port (?a\<lparr>Host := of_bytes b\<rparr>) r) =
        (if length (ty # n # u) < 2 + unat n + 2 then Inl errBadAddress
         else decode_port (?a\<lparr>Host := of_bytes (take (unat n) u)\<rparr>) (ty # n # u) (2 + unat n))"
        by (rule decode_field) simp_all
      ultimately show ?thesis
        using \<open>buf = ty # t\<close> Cons first dom [unfolded True, simplified]
        by (simp add: True decodeAddress_def ReadAddress_def Let_def)
    qed
  qed
qed

section \<open>Names\<close>

lemma name_char_plain:
  "name_char c \<Longrightarrow> c \<noteq> CHR ''.'' \<and> c \<noteq> CHR '':'' \<and> c \<noteq> CHR ''['' \<and> c \<noteq> CHR '']''"
  by (auto simp: name_char_def)

lemma Split_set: "x \<in> set s \<Longrightarrow> x = c \<or> (\<exists>l \<in> set (Split s c). x \<in> set l)"
proof (induction s)
  case (Cons y s)
  then show ?case
    by (cases "Split s c") auto
qed simp

lemma valid_name_chars:
  assumes "Validate a = None" and "Atyp a = AtypDomain" and "ParseIP (Host a) = None" and "c \<in> set (Host a)"
  shows "name_char c \<or> c = CHR ''.''"
proof (cases "c \<in> set (TrimSuffix (Host a) ''.'')")
  case True
  with Split_set [of c "TrimSuffix (Host a) ''.''" "CHR ''.''"] have
    "c = CHR ''.'' \<or> (\<exists>l \<in> set (Split (TrimSuffix (Host a) ''.'') CHR ''.''). c \<in> set l)"
    by auto
  with assms(1-3) show ?thesis
    by (auto simp: Validate_def Let_def list_all_iff label_ok_def split: if_splits)
next
  case False
  with assms(4) show ?thesis
    by (auto simp: TrimSuffix_def HasSuffix_def suffix_def split: if_splits)
qed

lemma valid_name_plain:
  assumes "Validate a = None" and "Atyp a = AtypDomain" and "ParseIP (Host a) = None"
  shows "CHR '':'' \<notin> set (Host a)" "CHR ''['' \<notin> set (Host a)" "CHR '']'' \<notin> set (Host a)"
  using valid_name_chars [OF assms] name_char_plain by auto

section \<open>Printing and parsing\<close>

lemma Itoa_byte:
  assumes "v < 256"
  shows "Itoa v =
     (if v < 10 then [digit_char v]
      else if v < 100 then [digit_char (v div 10), digit_char (v mod 10)]
      else [digit_char (v div 100), digit_char (v div 10 mod 10), digit_char (v mod 10)])"
proof -
  have "v div 100 < 10" "v < 100 \<longleftrightarrow> v div 10 < 10" "v div 10 div 10 = v div 100"
    using assms by auto
  then show ?thesis
    by (simp add: Itoa.simps [of v] Itoa.simps [of "v div 10"] Itoa.simps [of "v div 100"])
qed

lemma not_digit_dot [simp]: "\<not> is_digit CHR ''.''"
  by (simp add: is_digit_def)

lemma ipv4_digit:
  "d < 10 \<Longrightarrow> val * 10 + d \<le> 255 \<Longrightarrow> \<not> (dl = 1 \<and> val = 0) \<Longrightarrow>
   ipv4_fields val dl fs (digit_char d # cs) = ipv4_fields (val * 10 + d) (Suc dl) fs cs"
  by auto

lemma ipv4_fields_Itoa:
  assumes "v < 256"
  shows "\<exists>dl>0. \<forall>rest. ipv4_fields 0 0 fs (Itoa v @ rest) = ipv4_fields v dl fs rest"
proof -
  have "v div 100 = v div 10 div 10"
    by (simp add: div_mult2_eq [symmetric])
  then have hundreds: "v div 100 * 10 + v div 10 mod 10 = v div 10"
    by (simp only: div_mult_mod_eq)
  have tens: "v div 10 * 10 + v mod 10 = v"
    by (rule div_mult_mod_eq)
  consider "v < 10" | "10 \<le> v" "v < 100" | "100 \<le> v"
    by linarith
  then show ?thesis
  proof cases
    case 1
    then have "Itoa v = [digit_char v]"
      using Itoa_byte [OF assms] by simp
    with ipv4_digit [of v 0 0 fs] 1 show ?thesis
      by (intro exI [of _ 1]) simp
  next
    case 2
    then have it: "Itoa v = [digit_char (v div 10), digit_char (v mod 10)]"
      using Itoa_byte [OF assms] by simp
    have "ipv4_fields 0 0 fs (Itoa v @ rest) = ipv4_fields v 2 fs rest" for rest
      using ipv4_digit [of "v div 10" 0 0 fs "digit_char (v mod 10) # rest"]
        ipv4_digit [of "v mod 10" "v div 10" 1 fs rest] 2 assms
      unfolding it tens by (simp add: numeral_2_eq_2 del: ipv4_fields.simps)
    then show ?thesis by (intro exI [of _ 2]) simp
  next
    case 3
    then have it: "Itoa v = [digit_char (v div 100), digit_char (v div 10 mod 10), digit_char (v mod 10)]"
      using Itoa_byte [OF assms] by simp
    have "0 < v div 100" "v div 100 < 10" "v div 10 \<le> 255"
      using 3 assms by auto
    then have "ipv4_fields 0 0 fs (Itoa v @ rest) = ipv4_fields v 3 fs rest" for rest
      using ipv4_digit [of "v div 100" 0 0 fs "digit_char (v div 10 mod 10) # digit_char (v mod 10) # rest"]
        ipv4_digit [of "v div 10 mod 10" "v div 100" 1 fs "digit_char (v mod 10) # rest"]
        ipv4_digit [of "v mod 10" "v div 10" 2 fs rest] assms
      unfolding it tens hundreds by (simp add: numeral_2_eq_2 numeral_3_eq_3 del: ipv4_fields.simps)
    then show ?thesis by (intro exI [of _ 3]) simp
  qed
qed

lemma parseIPv4_dotted:
  assumes "length b = 4"
  shows "parseIPv4Fields (dotted b) = Some b"
proof -
  from assms obtain p q r t where b: "b = [p, q, r, t]"
    by (auto simp: length_Suc_conv numeral_eq_Suc)
  have byte: "unat x < 256" for x :: byte
    using unsigned_less [of x] by simp
  have field: "ipv4_fields 0 0 fs (Itoa (unat x) @ CHR ''.'' # y # ys) = ipv4_fields 0 0 (fs @ [x]) (y # ys)"
    if "length fs < 3" for fs x y ys
  proof -
    from ipv4_fields_Itoa [OF byte] obtain dl where "0 < dl"
      "\<And>rest. ipv4_fields 0 0 fs (Itoa (unat x) @ rest) = ipv4_fields (unat x) dl fs rest"
      by blast
    with that show ?thesis by simp
  qed
  have final: "ipv4_fields 0 0 fs (Itoa (unat x)) = Some (fs @ [x])" if "length fs = 3" for fs x
  proof -
    from ipv4_fields_Itoa [OF byte] obtain dl where
      "\<And>rest. ipv4_fields 0 0 fs (Itoa (unat x) @ rest) = ipv4_fields (unat x) dl fs rest"
      by blast
    from this [of "[]"] that show ?thesis by simp
  qed
  have cons: "\<exists>y ys. Itoa n @ rest = y # ys" for n rest
    by (cases "Itoa n") auto
  have step: "ipv4_fields 0 0 fs (Itoa (unat x) @ CHR ''.'' # Itoa n @ rest) = ipv4_fields 0 0 (fs @ [x]) (Itoa n @ rest)"
    if "length fs < 3" for fs x n rest
    using field [OF that, of x] cons [of n rest] by auto
  have upto: "[0..<4] = [0, 1, 2, 3]"
    by (simp add: upt_rec numeral_eq_Suc)
  show ?thesis
    using step [of "[]" p "unat q"] step [of "[p]" q "unat r"] step [of "[p, q]" r "unat t" "[]"] final [of "[p, q, r]" t]
    by (simp add: b dotted_def upto)
qed

lemma ParseIP_dotted:
  assumes "length b = 4"
  shows "ParseIP (dotted b) = Some (v4InV6Prefix @ b)"
proof -
  from assms obtain p q r t where b: "b = [p, q, r, t]"
    by (auto simp: length_Suc_conv numeral_eq_Suc)
  obtain ds where it: "dotted b = Itoa (unat p) @ CHR ''.'' # ds"
    by (auto simp: b dotted_def upt_rec numeral_eq_Suc)
  have "find (\<lambda>c. c = CHR ''.'' \<or> c = CHR '':'') (xs @ CHR ''.'' # ds) = Some CHR ''.''"
    if "\<forall>c \<in> set xs. is_digit c" for xs
    using that by (induction xs) (auto simp: is_digit_def)
  moreover have "\<forall>c \<in> set (Itoa (unat p)). is_digit c"
    using Itoa_digits by (simp add: list_all_iff)
  moreover have "CHR ''%'' \<notin> set (dotted b)"
    using Itoa_digits by (fastforce simp: b dotted_def upt_rec numeral_eq_Suc list_all_iff is_digit_def)
  ultimately show ?thesis
    using parseIPv4_dotted [OF assms] assms it by (simp add: ParseIP_def parse_addr_def As16_def)
qed

text \<open>
  The addresses \<open>ParseAddress\<close> produces: the IPv4 form of every address that has one, the
  16-byte form of the others, and a name only when it is not an address literal.
\<close>

definition compact_address :: "Address \<Rightarrow> bool" where
  "compact_address a =
     (wf_address a \<and>
      (Atyp a = AtypIPv6 \<longrightarrow> To4 (IP a) = None) \<and>
      (Atyp a = AtypDomain \<longrightarrow> ParseIP (Host a) = None))"

lemma ParseAddress_compact: "ParseAddress s = Inr a \<Longrightarrow> compact_address a"
  using ParseIP_length
  by (auto simp: ParseAddress_def Let_def validated_Inr compact_address_def wf_address_def zero_Address_def
        To4_def To16_def split: sum.splits prod.splits option.splits if_splits)

lemma ParseAddress_join:
  assumes "CHR ''['' \<notin> set h" "CHR '']'' \<notin> set h"
  shows "ParseAddress (JoinHostPort h (Itoa (unat (p :: u16)))) =
    (case ParseIP h of
       Some q \<Rightarrow>
         (case To4 q of
            Some v4 \<Rightarrow> validated \<lparr>Atyp = AtypIPv4, Host = [], IP = v4, Port = p\<rparr>
          | None \<Rightarrow> validated \<lparr>Atyp = AtypIPv6, Host = [], IP = slice (To16 q), Port = p\<rparr>)
     | None \<Rightarrow>
         if 255 < length h then Inl (ErrorString ''protocol: domain name too long'')
         else validated \<lparr>Atyp = AtypDomain, Host = h, IP = [], Port = p\<rparr>)"
proof -
  have "\<forall>c \<in> set (Itoa (unat p)). is_digit c"
    using Itoa_digits by (simp add: list_all_iff)
  then have "CHR '':'' \<notin> set (Itoa (unat p))" "CHR ''['' \<notin> set (Itoa (unat p))" "CHR '']'' \<notin> set (Itoa (unat p))"
    by (auto simp: is_digit_def)
  from SplitHostPort_JoinHostPort [OF assms this]
  have "SplitHostPort (JoinHostPort h (Itoa (unat p))) = Inr (h, Itoa (unat p))" .
  moreover have "ParseUint (Itoa (unat p)) 16 = Inr (unat p)"
    using ParseUint_Itoa [of "unat p" 16] unsigned_less [of p] by simp
  ultimately show ?thesis
    by (simp add: ParseAddress_def Let_def zero_Address_def split: option.splits)
qed

lemma dotted_plain: "CHR ''['' \<notin> set (dotted b)" "CHR '']'' \<notin> set (dotted b)"
  using Itoa_digits by (fastforce simp: dotted_def list_all_iff is_digit_def upt_rec)+

lemma ParseAddress_String:
  assumes "compact_address a"
  shows "ParseAddress (Address_String a) = Inr a"
proof -
  from assms have "wf_address a" by (simp add: compact_address_def)
  then show ?thesis
  proof (cases rule: wf_address_cases)
    case (ipv4 b p)
    then have "IP_String b = dotted b"
      by (auto simp: IP_String_def)
    with ipv4 ParseAddress_join [of "dotted b" p] dotted_plain [of b] ParseIP_dotted [of b] show ?thesis
      by (simp add: Address_String_def validated_def Validate_def To4_def v4InV6Prefix_def)
  next
    case (ipv6 b p)
    with assms have n: "To4 b = None" "IP_String b = colons b"
      by (auto simp: compact_address_def IP_String_def)
    have "CHR ''['' \<notin> set (colons b)" "CHR '']'' \<notin> set (colons b)"
      using colons_chars [of _ b] hex_like_plain by blast+
    from ParseAddress_join [OF this, of p] ParseIP_colons [of b] ipv6 n show ?thesis
      by (simp add: Address_String_def validated_def Validate_def To16_def)
  next
    case (domain h p)
    with assms have "ParseIP h = None"
      by (simp add: compact_address_def)
    with domain valid_name_plain [of a] Validate_host_bound [of a] ParseAddress_join [of h p] show ?thesis
      by (simp add: Address_String_def validated_def)
  qed
qed

lemma slice_bounds: "length (slice (To4 q)) \<le> 4 \<and> length (slice (To16 q)) \<le> 16"
  by (simp add: To4_def To16_def v4InV6Prefix_def)

section \<open>Properties\<close>

text \<open>C23: \<open>ReadAddress\<close> accepts exactly the wire forms of the well-formed addresses. It
  succeeds on a stream if and only if the stream starts with \<open>Encode a\<close> for a well-formed
  \<open>a\<close>; it then returns that \<open>a\<close> and has consumed those bytes and no others.\<close>

theorem ReadAddress_exact:
  "ReadAddress r = (Inr a, r') \<longleftrightarrow>
     wf_address a \<and> rbuf r = Encode a [] @ rbuf r' \<and> rend r' = rend r"
  by (rule addr.dec_iff)

text \<open>C24: The two decoders agree on every buffer: the datagram decoder accepts what the
  stream decoder accepts, returns the same address and the number of bytes that one
  consumed, and answers \<open>errBadAddress\<close> wherever the stream decoder fails.\<close>

theorem decodeAddress_agrees:
  "decodeAddress buf =
     (case ReadAddress \<lparr>rbuf = buf, rend = EOF\<rparr> of
        (Inr a, r') \<Rightarrow> Inr (a, length buf - length (rbuf r'))
      | (Inl e, r') \<Rightarrow> Inl errBadAddress)"
  by (simp add: decodeAddress_as_decode as_decode_def)

text \<open>For an address \<open>Validate\<close> accepts, the length byte of a domain name does not wrap
  (the name has between 1 and 254 bytes) and the wire form is at most 258 bytes, whatever
  buffer it is appended to.\<close>

theorem Encode_bounded:
  assumes "Validate a = None"
  shows "length (Encode a b) \<le> length b + 258 \<and>
    (Atyp a = AtypDomain \<longrightarrow>
       1 \<le> length (Host a) \<and> length (Host a) \<le> 254 \<and>
       unat (of_nat (length (Host a)) :: byte) = length (Host a))"
proof (cases "Atyp a = AtypDomain")
  case True
  with Validate_host_bound [OF assms] host_length_byte [OF assms] show ?thesis
    by (simp add: Encode_def Suc_le_eq)
next
  case False
  with Validate_atyp [OF assms] slice_bounds [of "IP a"] show ?thesis
    by (auto simp: Encode_def)
qed

theorem Encode_bounded_witness:
  "let a = \<lparr>Atyp = AtypDomain, Host = ''example.com'', IP = [], Port = 443\<rparr>
   in Validate a = None \<and> length (Encode a [0, 1]) \<le> 2 + 258"
proof -
  let ?a = "\<lparr>Atyp = AtypDomain, Host = ''example.com'', IP = [], Port = 443\<rparr>"
  have "Validate ?a = None"
    by code_simp
  with Encode_bounded [OF this, of "[0, 1]"] show ?thesis
    by simp
qed

text \<open>C25: What \<open>ParseAddress\<close> returns is well formed (so it has a wire form) and in its most
  compact representation: never a 16-byte form of an address that has a 4-byte one, never a
  name that is an address literal.\<close>

theorem ParseAddress_most_compact:
  assumes "ParseAddress s = Inr a"
  shows "wf_address a \<and> (Atyp a = AtypIPv6 \<longrightarrow> To4 (IP a) = None) \<and>
    (Atyp a = AtypDomain \<longrightarrow> ParseIP (Host a) = None)"
  using ParseAddress_compact [OF assms] by (simp_all add: compact_address_def)

theorem ParseAddress_most_compact_witness:
  "ParseAddress ''10.0.0.1:80'' = Inr \<lparr>Atyp = AtypIPv4, Host = [], IP = [10, 0, 0, 1], Port = 80\<rparr> \<and>
   wf_address \<lparr>Atyp = AtypIPv4, Host = [], IP = [10, 0, 0, 1], Port = 80\<rparr>"
proof -
  let ?a = "\<lparr>Atyp = AtypIPv4, Host = [], IP = [10, 0, 0, 1], Port = 80\<rparr> :: Address"
  have "compact_address ?a"
    by (simp add: compact_address_def wf_address_def Validate_def)
  then have "ParseAddress (Address_String ?a) = Inr ?a"
    by (rule ParseAddress_String)
  moreover have "Address_String ?a = ''10.0.0.1:80''"
    by code_simp
  ultimately have p: "ParseAddress ''10.0.0.1:80'' = Inr ?a"
    by simp
  from ParseAddress_most_compact [OF p] p show ?thesis by simp
qed

text \<open>C26: Printing and parsing: for every address in compact form (4-byte IPv4, 16-byte IPv6
  with or without a run of zero groups, valid name), \<open>ParseAddress (a.String())\<close> gives back
  \<open>a\<close>.\<close>

theorem ParseAddress_inverts_String:
  assumes "compact_address a"
  shows "ParseAddress (Address_String a) = Inr a"
  by (rule ParseAddress_String [OF assms])

theorem ParseAddress_inverts_String_witness:
  "let a = \<lparr>Atyp = AtypIPv6, Host = [], IP = [0x20, 0x01, 0x0d, 0xb8] @ replicate 11 0 @ [1], Port = 53\<rparr>
   in compact_address a \<and> ParseAddress (Address_String a) = Inr a"
proof -
  let ?a = "\<lparr>Atyp = AtypIPv6, Host = [], IP = [0x20, 0x01, 0x0d, 0xb8] @ replicate 11 0 @ [1], Port = 53\<rparr> :: Address"
  have "compact_address ?a"
    by (simp add: compact_address_def wf_address_def Validate_def To4_def To16_def v4InV6Prefix_def)
  with ParseAddress_inverts_String [OF this] show ?thesis
    by (simp add: Let_def)
qed

end
