(* ===== verification/Go_Varint.thy ===== *)
theory Go_Varint
  imports Wanopt_Prelude
begin

text \<open>
  The variable-length integers of \<open>encoding/binary\<close>: \<open>AppendUvarint\<close> and \<open>Uvarint\<close>
  on 64-bit words, with the overflow answers of the tenth byte.
\<close>

unbundle bit_operations_syntax

lemma unat_drop_bit_7: "unat (drop_bit 7 (x :: u64)) = unat x div 128"
  by (simp add: drop_bit_eq_div unat_div)

function AppendUvarint :: "bytes \<Rightarrow> u64 \<Rightarrow> bytes" where
  "AppendUvarint buf x =
     (if 0x80 \<le> x then AppendUvarint (buf @ [ucast x OR 0x80]) (drop_bit 7 x) else buf @ [ucast x])"
  by pat_completeness auto

termination
  by (relation "measure (\<lambda>(buf, x). unat x)") (auto simp: unat_drop_bit_7 word_le_nat_alt)

declare AppendUvarint.simps [simp del]

text \<open>The result is the value and the number of bytes read; 0 when the buffer ends inside the
  number, negative when the value does not fit 64 bits.\<close>

fun uvarint_loop :: "nat \<Rightarrow> u64 \<Rightarrow> nat \<Rightarrow> bytes \<Rightarrow> u64 \<times> int" where
  "uvarint_loop i x s [] = (0, 0)"
| "uvarint_loop i x s (b # bs) =
     (if i = 10 then (0, - (int i + 1))
      else if b < 0x80 then
        (if i = 9 \<and> b > 1 then (0, - (int i + 1)) else (x OR push_bit s (ucast b), int i + 1))
      else uvarint_loop (i + 1) (x OR push_bit s (ucast (b AND 0x7f))) (s + 7) bs)"

definition Uvarint :: "bytes \<Rightarrow> u64 \<times> int" where
  "Uvarint buf = uvarint_loop 0 0 0 buf"

section \<open>Lemmas\<close>

text \<open>Induction on the number being cut into groups of seven bits.\<close>

lemma shift_induct [case_names small shift]:
  assumes "\<And>x. x < 0x80 \<Longrightarrow> P x" and "\<And>x. 0x80 \<le> x \<Longrightarrow> P (drop_bit 7 x) \<Longrightarrow> P x"
  shows "P (x :: u64)"
proof (induction x rule: measure_induct_rule [of unat])
  case (less x)
  show ?case
  proof (cases "x < 0x80")
    case False
    then have "unat (drop_bit 7 x) < unat x"
      by (simp add: unat_drop_bit_7 word_less_nat_alt)
    with less assms(2) [of x] False show ?thesis
      by (simp add: not_less)
  qed (rule assms(1))
qed

lemma AppendUvarint_simps:
  "x < 0x80 \<Longrightarrow> AppendUvarint buf x = buf @ [ucast x]"
  "0x80 \<le> x \<Longrightarrow> AppendUvarint buf x = AppendUvarint (buf @ [ucast x OR 0x80]) (drop_bit 7 x)"
  by (subst AppendUvarint.simps; simp add: not_le [symmetric])+

lemma AppendUvarint_append: "AppendUvarint buf x = buf @ AppendUvarint [] x"
proof (induction x arbitrary: buf rule: shift_induct)
  case (shift x)
  from shift.IH [of "buf @ [ucast x OR 0x80]"] shift.IH [of "[ucast x OR 0x80]"] shift.hyps show ?case
    by (simp add: AppendUvarint_simps)
qed (simp add: AppendUvarint_simps)

lemma AppendUvarint_step:
  "0x80 \<le> x \<Longrightarrow> AppendUvarint [] x = (ucast x OR 0x80) # AppendUvarint [] (drop_bit 7 x)"
  using AppendUvarint_append [of "[ucast x OR 0x80]" "drop_bit 7 x"] by (simp add: AppendUvarint_simps)

lemma length_AppendUvarint_pos: "0 < length (AppendUvarint [] x)"
  by (cases "x < 0x80") (simp_all add: AppendUvarint_simps(1) AppendUvarint_step not_less)

lemma length_AppendUvarint_le:
  "unat x < 2 ^ (7 * n) \<Longrightarrow> 0 < n \<Longrightarrow> length (AppendUvarint [] x) \<le> n"
proof (induction x arbitrary: n rule: shift_induct)
  case (shift x)
  from shift.hyps have big: "128 \<le> unat x"
    by (simp add: word_le_nat_alt)
  obtain m where m: "n = Suc m" "0 < m"
  proof (cases n)
    case (Suc k)
    with shift.prems big show thesis
      by (cases k) (auto intro: that)
  qed (use shift.prems in simp)
  have "unat (drop_bit 7 x) < 2 ^ (7 * m)"
    using shift.prems(1) m by (simp add: unat_drop_bit_7 less_mult_imp_div_less power_add mult.commute)
  from shift.IH [OF this m(2)] m shift.hyps show ?case
    by (simp add: AppendUvarint_step)
qed (simp add: AppendUvarint_simps)

lemma length_AppendUvarint: "length (AppendUvarint [] x) \<le> 10"
  by (rule length_AppendUvarint_le)
     (use unsigned_less [of x] in \<open>auto intro: less_le_trans [of _ "2 ^ 64"]\<close>)

lemma mask_7: "(0x7f :: byte) = mask 7"
  by (simp add: mask_eq_exp_minus_1)

lemma high_byte:
  "\<not> (b OR 0x80 :: byte) < 0x80" "((b OR 0x80) AND 0x7f :: byte) = b AND 0x7f"
proof -
  have "(0x80 :: byte) \<le> b OR 0x80"
    using or_greater_eq [of "uint b" 128] by (simp add: word_le_def unsigned_or_eq or.commute)
  then show "\<not> (b OR 0x80 :: byte) < 0x80"
    by simp
  show "((b OR 0x80) AND 0x7f :: byte) = b AND 0x7f"
    by (simp add: bit.conj_disj_distrib2)
qed

lemma shift_parts:
  "push_bit s (ucast (ucast (x :: u64) AND 0x7f :: byte)) OR push_bit (s + 7) (drop_bit 7 x) = (push_bit s x :: u64)"
proof (rule bit_eqI)
  fix n
  have "s + 7 \<le> n \<Longrightarrow> 7 + (n - (s + 7)) = n - s" by simp
  then show "bit (push_bit s (ucast (ucast x AND 0x7f :: byte)) OR push_bit (s + 7) (drop_bit 7 x)) n =
      bit (push_bit s x) n"
    by (cases "s + 7 \<le> n") (auto simp: mask_7 take_bit_eq_mask [symmetric] bit_simps)
qed

text \<open>Reading back what was appended, after \<open>i\<close> groups have been read.\<close>

lemma uvarint_loop_AppendUvarint:
  assumes "unat x < 2 ^ (64 - 7 * i)" and "i \<le> 9"
  shows "uvarint_loop i acc (7 * i) (AppendUvarint [] x @ rest) =
    (acc OR push_bit (7 * i) x, int (i + length (AppendUvarint [] x)))"
  using assms
proof (induction x arbitrary: i acc rule: shift_induct)
  case (small x)
  then have n: "unat x < 128"
    by (simp add: word_less_nat_alt)
  then have b: "unat (ucast x :: byte) = unat x"
    by (simp add: unsigned_ucast_eq take_bit_eq_mod)
  then have "ucast (ucast x :: byte) = x"
    by (simp add: word_unat_eq_iff unsigned_ucast_eq take_bit_eq_mod unat_mod)
  moreover have "(ucast x :: byte) < 0x80"
    using n b by (simp add: word_less_nat_alt)
  moreover have "\<not> (i = 9 \<and> (1 :: byte) < ucast x)"
    using small.prems b by (auto simp: word_less_nat_alt)
  ultimately show ?case
    using small by (simp add: AppendUvarint_simps(1))
next
  case (shift x)
  then have n: "128 \<le> unat x"
    by (simp add: word_le_nat_alt)
  with shift.prems have i: "i < 9"
    by (cases "i = 9") auto
  then have "(2 :: nat) ^ (64 - 7 * i) = 128 * 2 ^ (64 - 7 * Suc i)"
    using power_add [of "2 :: nat" 7 "64 - 7 * Suc i"] by simp
  with shift.prems have "unat (drop_bit 7 x) < 2 ^ (64 - 7 * Suc i)"
    by (simp add: unat_drop_bit_7 less_mult_imp_div_less mult.commute)
  from shift.IH [OF this, of "acc OR push_bit (7 * i) (ucast (ucast x AND 0x7f :: byte))"] i shift.hyps
    shift_parts [of "7 * i" x]
  show ?case
    by (simp add: AppendUvarint_step high_byte add.commute or.assoc)
qed

lemma Uvarint_AppendUvarint:
  "Uvarint (AppendUvarint [] x @ rest) = (x, int (length (AppendUvarint [] x)))"
  using uvarint_loop_AppendUvarint [of x 0 0 rest] unsigned_less [of x] by (simp add: Uvarint_def)

lemma uvarint_loop_bound:
  "uvarint_loop i x s buf = (v, n) \<Longrightarrow> n \<le> int (i + length buf)"
  by (induction i x s buf rule: uvarint_loop.induct) (fastforce split: if_splits)+

lemma Uvarint_bound: "Uvarint buf = (v, n) \<Longrightarrow> n \<le> int (length buf)"
  using uvarint_loop_bound [of 0 0 0 buf] by (simp add: Uvarint_def)

end
