(* ===== verification/Protocol_Frame.thy ===== *)
theory Protocol_Frame
  imports Protocol_Address Go_Varint
begin

text \<open>
  \<open>internal/protocol/frame.go\<close>: the request and reply at the head of a proxy stream, and
  the UDP envelope carried in a QUIC datagram. The stream headers are interpretations of
  \<open>stream_codec\<close>.
\<close>

section \<open>Definitions\<close>

definition Version :: byte where "Version = 0x02"
definition CmdTCPConnect :: byte where "CmdTCPConnect = 0x01"
definition FlagCompress :: byte where "FlagCompress = 0x01"
definition CtrlPing :: byte where "CtrlPing = 0x01"
definition CtrlPong :: byte where "CtrlPong = 0x02"
definition StatusOK :: byte where "StatusOK = 0x00"
definition StatusGeneralErr :: byte where "StatusGeneralErr = 0x01"
definition StatusConnRefused :: byte where "StatusConnRefused = 0x02"
definition StatusHostUnreach :: byte where "StatusHostUnreach = 0x03"
definition StatusNotAllowed :: byte where "StatusNotAllowed = 0x04"

record StreamRequest =
  Cmd :: byte
  Flags :: byte
  Addr :: Address

text \<open>The bytes of a request; \<open>WriteTo\<close> hands them to the writer in one call.\<close>

definition request_bytes :: "StreamRequest \<Rightarrow> bytes" where
  "request_bytes rq = Encode (Addr rq) [Version, Cmd rq, Flags rq]"

definition short_write :: "nat \<Rightarrow> nat \<Rightarrow> go_error option \<Rightarrow> go_error option" where
  "short_write n len err = (if err = None \<and> n \<noteq> len then Some ErrShortWrite else err)"

definition WriteTo :: "StreamRequest \<Rightarrow> writer \<Rightarrow> (nat \<times> go_error option) \<times> writer" where
  "WriteTo rq w =
     (case Validate (Addr rq) of
        Some err \<Rightarrow> ((0, Some err), w)
      | None \<Rightarrow>
          (let buf = request_bytes rq
           in case Write buf w of ((n, err), w) \<Rightarrow> ((n, short_write n (length buf) err), w)))"

definition ReadStreamRequest :: "reader \<Rightarrow> (go_error + StreamRequest) \<times> reader" where
  "ReadStreamRequest r =
     (case ReadFull 3 r of
        (Inl e, r) \<Rightarrow> (Inl e, r)
      | (Inr hdr, r) \<Rightarrow>
          (if hdr ! 0 \<noteq> Version then (Inl (ErrorString ''protocol: unsupported version''), r)
           else (case ReadAddress r of
               (Inl e, r) \<Rightarrow> (Inl e, r)
             | (Inr addr, r) \<Rightarrow> (Inr \<lparr>Cmd = hdr ! 1, Flags = hdr ! 2, Addr = addr\<rparr>, r))))"

definition WriteReply :: "byte \<Rightarrow> byte \<Rightarrow> writer \<Rightarrow> go_error option \<times> writer" where
  "WriteReply status flags w =
     (case Write [status, flags] w of ((n, err), w) \<Rightarrow> (short_write n 2 err, w))"

definition ReadReply :: "reader \<Rightarrow> (go_error + (byte \<times> byte)) \<times> reader" where
  "ReadReply r =
     (case ReadFull 2 r of
        (Inl e, r) \<Rightarrow> (Inl e, r)
      | (Inr b, r) \<Rightarrow> (Inr (b ! 0, b ! 1), r))"

definition MaxUDPPayload :: nat where "MaxUDPPayload = 850"
definition MaxUDPDatagramSize :: nat where "MaxUDPDatagramSize = 1120"

definition EncodeDatagram :: "u64 \<Rightarrow> Address \<Rightarrow> bytes \<Rightarrow> bytes" where
  "EncodeDatagram sessionID addr payload =
     (let buf = [Version];
          buf = AppendUvarint buf sessionID;
          buf = Encode addr buf
      in buf @ payload)"

record Datagram =
  SessionID :: u64
  DAddr :: Address
  Payload :: bytes

definition DecodeDatagram :: "bytes \<Rightarrow> go_error + Datagram" where
  "DecodeDatagram buf =
     (if length buf < 2 \<or> MaxUDPDatagramSize < length buf \<or> hd buf \<noteq> Version
      then Inl (ErrorString ''protocol: bad datagram header'')
      else (case Uvarint (drop 1 buf) of
          (sid, n) \<Rightarrow>
            if n \<le> 0 then Inl (ErrorString ''protocol: bad datagram session id'')
            else let off = 1 + nat n
              in case decodeAddress (drop off buf) of
                   Inl e \<Rightarrow> Inl e
                 | Inr (addr, used) \<Rightarrow>
                     let off = off + used
                     in if MaxUDPPayload < length buf - off
                        then Inl (ErrorString ''protocol: UDP payload too large'')
                        else Inr \<lparr>SessionID = sid, DAddr = addr, Payload = drop off buf\<rparr>))"

section \<open>Stream headers\<close>

lemma request_bytes_eq: "request_bytes rq = [Version, Cmd rq, Flags rq] @ Encode (Addr rq) []"
  unfolding request_bytes_def by (rule Encode_append)

lemma ReadStreamRequest_bytes:
  assumes "wf_address (Addr rq)"
  shows "ReadStreamRequest \<lparr>rbuf = request_bytes rq @ rest, rend = e\<rparr> = (Inr rq, \<lparr>rbuf = rest, rend = e\<rparr>)"
  using ReadFull_append [of "[Version, Cmd rq, Flags rq]" 3 "Encode (Addr rq) [] @ rest" e]
    addr.dec_enc [OF assms, of rest e]
  by (simp add: ReadStreamRequest_def request_bytes_eq)

lemma ReadStreamRequest_inv:
  assumes "ReadStreamRequest r = (Inr rq, r')"
  shows "wf_address (Addr rq) \<and> rbuf r = request_bytes rq @ rbuf r' \<and> rend r' = rend r"
proof -
  from assms obtain hdr r1 where h: "ReadFull 3 r = (Inr hdr, r1)" "hdr ! 0 = Version"
      "ReadAddress r1 = (Inr (Addr rq), r')" and f: "Cmd rq = hdr ! 1" "Flags rq = hdr ! 2"
    by (auto simp: ReadStreamRequest_def split: prod.splits sum.splits if_splits)
  from ReadFull_split [OF h(1)] obtain x y z where "hdr = [x, y, z]" "rbuf r = hdr @ rbuf r1" "rend r1 = rend r"
    by (auto simp: length_Suc_conv numeral_3_eq_3)
  with h f addr.dec_inv [OF h(3)] show ?thesis
    by (simp add: request_bytes_eq)
qed

lemma length_request_bytes: "wf_address (Addr rq) \<Longrightarrow> length (request_bytes rq) \<le> 261"
  using addr.enc_bound [of "Addr rq"] by (simp add: request_bytes_eq)

interpretation request: bounded_codec request_bytes ReadStreamRequest "\<lambda>rq. wf_address (Addr rq)" 261
  by unfold_locales (rule ReadStreamRequest_bytes ReadStreamRequest_inv length_request_bytes; assumption)+

interpretation reply: bounded_codec "\<lambda>(status, flags). [status, flags]" ReadReply "\<lambda>_. True" 2
proof unfold_locales
  fix a :: "byte \<times> byte" and rest e
  show "ReadReply \<lparr>rbuf = (case a of (status, flags) \<Rightarrow> [status, flags]) @ rest, rend = e\<rparr> =
      (Inr a, \<lparr>rbuf = rest, rend = e\<rparr>)"
    using ReadFull_append [of "[fst a, snd a]" 2 rest e] by (cases a) (simp add: ReadReply_def)
next
  fix r a r'
  assume "ReadReply r = (Inr a, r')"
  then obtain b where b: "ReadFull 2 r = (Inr b, r')" "a = (b ! 0, b ! 1)"
    by (auto simp: ReadReply_def split: prod.splits sum.splits)
  then show "True \<and> rbuf r = (case a of (status, flags) \<Rightarrow> [status, flags]) @ rbuf r' \<and> rend r' = rend r"
    using ReadFull_split [OF b(1)] by (auto simp: length_Suc_conv numeral_2_eq_2)
qed auto

section \<open>Datagrams\<close>

lemma EncodeDatagram_eq:
  "EncodeDatagram sid a p = Version # AppendUvarint [] sid @ Encode a [] @ p"
  using AppendUvarint_append [of "[Version]" sid] Encode_append [of a "Version # AppendUvarint [] sid"]
  by (simp add: EncodeDatagram_def)

lemma length_EncodeDatagram:
  assumes "wf_address a" and "length p \<le> MaxUDPPayload"
  shows "length (EncodeDatagram sid a p) < MaxUDPDatagramSize"
  using assms(2) addr.enc_bound [OF assms(1)] length_AppendUvarint [of sid]
  by (simp add: EncodeDatagram_eq MaxUDPPayload_def MaxUDPDatagramSize_def)

lemma decodeAddress_Encode:
  "wf_address a \<Longrightarrow> decodeAddress (Encode a [] @ rest) = Inr (a, length (Encode a []))"
  by (simp add: decodeAddress_as_decode addr.dec_enc)

lemma decodeAddress_inv:
  assumes "decodeAddress buf = Inr (a, n)"
  shows "wf_address a" and "n \<le> length buf" and "buf = Encode a [] @ drop n buf"
proof -
  from assms obtain r' where r: "ReadAddress \<lparr>rbuf = buf, rend = EOF\<rparr> = (Inr a, r')" and n: "n = length buf - length (rbuf r')"
    by (auto simp: decodeAddress_as_decode as_decode_def split: prod.splits sum.splits)
  from addr.dec_inv [OF r] n show "wf_address a" and "n \<le> length buf" and "buf = Encode a [] @ drop n buf"
    by auto
qed

lemma DecodeDatagram_Encode:
  assumes "wf_address a" and "length p \<le> MaxUDPPayload"
  shows "DecodeDatagram (EncodeDatagram sid a p) = Inr \<lparr>SessionID = sid, DAddr = a, Payload = p\<rparr>"
proof -
  have "2 \<le> length (EncodeDatagram sid a p)"
    using length_AppendUvarint_pos [of sid] by (simp add: EncodeDatagram_eq Suc_le_eq)
  with length_EncodeDatagram [OF assms, of sid] assms show ?thesis
    using length_AppendUvarint_pos [of sid] decodeAddress_Encode [OF assms(1), of p]
    by (simp add: DecodeDatagram_def EncodeDatagram_eq Uvarint_AppendUvarint Let_def)
qed

lemma DecodeDatagram_inv:
  assumes "DecodeDatagram buf = Inr d"
  obtains n where "Uvarint (drop 1 buf) = (SessionID d, int n)" "0 < n"
    "buf = Version # take n (drop 1 buf) @ Encode (DAddr d) [] @ Payload d"
    "wf_address (DAddr d)" "length (Payload d) \<le> MaxUDPPayload" "length buf \<le> MaxUDPDatagramSize"
proof -
  obtain sid i where u: "Uvarint (drop 1 buf) = (sid, i)"
    by fastforce
  from assms u obtain a used where d: "0 < i" "decodeAddress (drop (1 + nat i) buf) = Inr (a, used)"
      "length buf - (1 + nat i + used) \<le> MaxUDPPayload" "length buf \<le> MaxUDPDatagramSize" "2 \<le> length buf" "hd buf = Version"
      "d = \<lparr>SessionID = sid, DAddr = a, Payload = drop (1 + nat i + used) buf\<rparr>"
    by (auto simp: DecodeDatagram_def Let_def not_less not_le split: if_splits sum.splits prod.splits)
  note inv = decodeAddress_inv [OF d(2)]
  have "drop (1 + nat i) buf = Encode a [] @ Payload d"
    using inv(3) d(7) by (simp add: add.commute)
  moreover have "buf = Version # take (nat i) (drop 1 buf) @ drop (1 + nat i) buf"
    using d(5,6) by (cases buf) auto
  ultimately show thesis
    using that [of "nat i"] u d inv(1) by simp
qed

lemma Write_all:
  assumes "Write b w = ((n, err), w')" and "short_write n (length b) err = None"
  shows "wout w' = wout w @ b"
  using Write_extends [OF assms(1)] assms(2) by (auto simp: short_write_def split: if_splits)

section \<open>Properties\<close>

text \<open>C27: \<open>ReadStreamRequest\<close> accepts exactly the headers \<open>WriteTo\<close> builds for requests
  with a well-formed address, and consumes exactly those bytes: nothing of the proxied data
  that follows the header is lost or taken for a part of it.\<close>

theorem ReadStreamRequest_exact:
  "ReadStreamRequest r = (Inr rq, r') \<longleftrightarrow>
     wf_address (Addr rq) \<and> rbuf r = request_bytes rq @ rbuf r' \<and> rend r' = rend r"
  by (rule request.dec_iff)



text \<open>C29: The UDP envelope round trip. For a well-formed address and a payload of at most
  850 bytes the envelope is below the 1120-byte limit and decodes to the same session,
  address and payload, for every 64-bit session id.\<close>

theorem DecodeDatagram_EncodeDatagram:
  assumes "wf_address a" and "length p \<le> MaxUDPPayload"
  shows "length (EncodeDatagram sid a p) < MaxUDPDatagramSize \<and>
    DecodeDatagram (EncodeDatagram sid a p) = Inr \<lparr>SessionID = sid, DAddr = a, Payload = p\<rparr>"
  using length_EncodeDatagram [OF assms] DecodeDatagram_Encode [OF assms] by simp

theorem DecodeDatagram_EncodeDatagram_witness:
  "let a = \<lparr>Atyp = AtypIPv4, Host = [], IP = [10, 0, 0, 1], Port = 53\<rparr>
   in EncodeDatagram 300 a [9, 9] = [2, 0xac, 0x02, 1, 10, 0, 0, 1, 0, 53, 9, 9] \<and>
      DecodeDatagram (EncodeDatagram 300 a [9, 9]) = Inr \<lparr>SessionID = 300, DAddr = a, Payload = [9, 9]\<rparr>"
proof -
  let ?a = "\<lparr>Atyp = AtypIPv4, Host = [], IP = [10, 0, 0, 1], Port = 53\<rparr> :: Address"
  have "wf_address ?a" "length [9, 9 :: byte] \<le> MaxUDPPayload"
    by (simp_all add: wf_address_def Validate_def MaxUDPPayload_def)
  note rt = DecodeDatagram_EncodeDatagram [OF this, of 300]
  have "EncodeDatagram 300 ?a [9, 9] = [2, 0xac, 0x02, 1, 10, 0, 0, 1, 0, 53, 9, 9]"
    by code_simp
  with rt show ?thesis by (simp add: Let_def)
qed

text \<open>C30: What \<open>DecodeDatagram\<close> accepts from an untrusted peer: the datagram is at most
  1120 bytes, its address is well formed, its payload is at most 850 bytes and is the rest of
  the datagram after the encoded address, and relaying it (encoding the decoded parts again)
  gives an envelope that decodes to the same value.\<close>

theorem DecodeDatagram_sound:
  assumes "DecodeDatagram buf = Inr d"
  shows "length buf \<le> MaxUDPDatagramSize \<and> wf_address (DAddr d) \<and> length (Payload d) \<le> MaxUDPPayload \<and>
    (\<exists>varint. buf = Version # varint @ Encode (DAddr d) [] @ Payload d \<and>
              Uvarint (drop 1 buf) = (SessionID d, int (length varint))) \<and>
    DecodeDatagram (EncodeDatagram (SessionID d) (DAddr d) (Payload d)) = Inr d"
proof -
  from assms obtain n where n: "Uvarint (drop 1 buf) = (SessionID d, int n)" "0 < n"
    "buf = Version # take n (drop 1 buf) @ Encode (DAddr d) [] @ Payload d"
    "wf_address (DAddr d)" "length (Payload d) \<le> MaxUDPPayload" "length buf \<le> MaxUDPDatagramSize"
    by (rule DecodeDatagram_inv)
  have "length (take n (drop 1 buf)) = n"
    using Uvarint_bound [OF n(1)] by simp
  with n DecodeDatagram_Encode [OF n(4,5), of "SessionID d"] show ?thesis
    by (intro conjI exI [of _ "take n (drop 1 buf)"]) auto
qed

theorem DecodeDatagram_sound_witness:
  "let d = \<lparr>SessionID = 5, DAddr = \<lparr>Atyp = AtypIPv4, Host = [], IP = [10, 0, 0, 1], Port = 53\<rparr>, Payload = [9]\<rparr>
   in DecodeDatagram [2, 0x85, 0, 1, 10, 0, 0, 1, 0, 53, 9] = Inr d \<and>
      DecodeDatagram (EncodeDatagram (SessionID d) (DAddr d) (Payload d)) = Inr d"
proof -
  let ?d = "\<lparr>SessionID = 5, DAddr = \<lparr>Atyp = AtypIPv4, Host = [], IP = [10, 0, 0, 1], Port = 53\<rparr>, Payload = [9]\<rparr> :: Datagram"
  have "DecodeDatagram [2, 0x85, 0, 1, 10, 0, 0, 1, 0, 53, 9] = Inr ?d"
    by (simp add: DecodeDatagram_def Uvarint_def Version_def MaxUDPDatagramSize_def MaxUDPPayload_def
        decodeAddress_def decode_port_def AtypIPv4_def validated_def Validate_def zero_Address_def Uint16_def)
  with DecodeDatagram_sound [OF this] show ?thesis by (simp add: Let_def)
qed

end
