(* ===== verification/Admission.thy ===== *)
theory Admission
  imports Wanopt_Prelude
begin

text \<open>
  \<open>internal/admission/budget.go\<close>: the process-wide budget of tunnel requests. The
  buffered channel is its number of elements and its capacity; a \<open>Lease\<close> is an object of
  a heap, with what its \<open>sync.Once\<close> and its acquirer have done so far. The operations are
  the source's, composed of the channel operation and the call of the observer, and the step
  relation interleaves these between goroutines.
\<close>

section \<open>Definitions\<close>

text \<open>
  The life of a lease: its slot is in the channel (\<open>Sent\<close>), \<open>observe(1)\<close> has been called
  and the caller holds it (\<open>Held\<close>), the body of \<open>once\<close> has taken the slot out
  (\<open>Received\<close>), \<open>observe(-1)\<close> has been called (\<open>Released\<close>).
\<close>

datatype phase = Sent | Held | Received | Released

record Budget =
  capacity :: nat
  slots :: nat
  observed :: bool
  gauge :: int
  leases :: "phase list"

definition New :: "int \<Rightarrow> bool \<Rightarrow> Budget option" where
  "New limit observe =
     (if limit < 1 then None
      else Some \<lparr>capacity = nat limit, slots = 0, observed = observe, gauge = 0, leases = []\<rparr>)"

definition InUse :: "Budget \<Rightarrow> nat" where
  "InUse b = slots b"

definition call_observe :: "int \<Rightarrow> Budget \<Rightarrow> Budget" where
  "call_observe d b = (if observed b then b\<lparr>gauge := gauge b + d\<rparr> else b)"

text \<open>The \<open>select\<close> with a \<open>default\<close>: the send succeeds when the buffer has room.\<close>

definition try_send :: "Budget \<Rightarrow> nat option \<times> Budget" where
  "try_send b =
     (if slots b < capacity b
      then (Some (length (leases b)), b\<lparr>slots := slots b + 1, leases := leases b @ [Sent]\<rparr>)
      else (None, b))"

definition observe_acquired :: "nat \<Rightarrow> Budget \<Rightarrow> Budget" where
  "observe_acquired l b = call_observe 1 (b\<lparr>leases := (leases b)[l := Held]\<rparr>)"

definition TryAcquire :: "Budget \<Rightarrow> nat option \<times> Budget" where
  "TryAcquire b =
     (case try_send b of
        (None, b) \<Rightarrow> (None, b)
      | (Some l, b) \<Rightarrow> (Some l, observe_acquired l b))"

text \<open>The receive blocks on an empty channel: \<open>None\<close>.\<close>

definition receive :: "nat \<Rightarrow> Budget \<Rightarrow> Budget option" where
  "receive l b =
     (if slots b = 0 then None
      else Some (b\<lparr>slots := slots b - 1, leases := (leases b)[l := Received]\<rparr>))"

definition observe_released :: "nat \<Rightarrow> Budget \<Rightarrow> Budget" where
  "observe_released l b = call_observe (- 1) (b\<lparr>leases := (leases b)[l := Released]\<rparr>)"

text \<open>\<open>Release\<close> on a possibly nil lease; the body runs only while \<open>once\<close> has not.\<close>

definition Release :: "nat option \<Rightarrow> Budget \<Rightarrow> Budget option" where
  "Release lease b =
     (case lease of
        None \<Rightarrow> Some b
      | Some l \<Rightarrow>
          if leases b ! l = Released then Some b
          else (case receive l b of None \<Rightarrow> None | Some b \<Rightarrow> Some (observe_released l b)))"

text \<open>The interleavings: each goroutine's next action, in any order.\<close>

inductive budget_step :: "Budget \<Rightarrow> Budget \<Rightarrow> bool" where
  send: "try_send b = (Some l, b') \<Longrightarrow> budget_step b b'"
| refuse: "try_send b = (None, b') \<Longrightarrow> budget_step b b'"
| acquired: "l < length (leases b) \<Longrightarrow> leases b ! l = Sent \<Longrightarrow> budget_step b (observe_acquired l b)"
| recv: "l < length (leases b) \<Longrightarrow> leases b ! l = Held \<Longrightarrow> receive l b = Some b' \<Longrightarrow> budget_step b b'"
| released: "l < length (leases b) \<Longrightarrow> leases b ! l = Received \<Longrightarrow> budget_step b (observe_released l b)"

definition in_phase :: "phase set \<Rightarrow> Budget \<Rightarrow> nat" where
  "in_phase ps b = length (filter (\<lambda>p. p \<in> ps) (leases b))"

definition budget_inv :: "Budget \<Rightarrow> bool" where
  "budget_inv b =
     (slots b \<le> capacity b \<and> slots b = in_phase {Sent, Held} b \<and>
      gauge b = (if observed b then int (in_phase {Held, Received} b) else 0))"

definition fresh_budget :: "Budget \<Rightarrow> bool" where
  "fresh_budget b = (\<exists>limit observe. New limit observe = Some b)"

section \<open>Invariant\<close>

lemma filter_update_count:
  assumes "l < length xs"
  shows "length (filter P (xs[l := y])) + (if P (xs ! l) then 1 else 0) =
    length (filter P xs) + (if P y then 1 else 0)"
  using assms
proof (induction xs arbitrary: l)
  case (Cons x xs)
  then show ?case by (cases l) auto
qed simp

lemma in_phase_update:
  assumes "l < length (leases b)"
  shows "in_phase ps (b\<lparr>leases := (leases b)[l := q]\<rparr>) + (if leases b ! l \<in> ps then 1 else 0) =
    in_phase ps b + (if q \<in> ps then 1 else 0)"
  using filter_update_count [OF assms, of "\<lambda>p. p \<in> ps" q] by (simp add: in_phase_def)

lemma in_phase_pos:
  assumes "l < length (leases b)" and "leases b ! l \<in> ps"
  shows "0 < in_phase ps b"
proof -
  have "leases b ! l \<in> set (filter (\<lambda>p. p \<in> ps) (leases b))"
    using assms by simp
  then show ?thesis
    by (metis in_phase_def length_pos_if_in_set)
qed

lemma in_phase_cong [simp]:
  "in_phase ps (b\<lparr>slots := n\<rparr>) = in_phase ps b" "in_phase ps (b\<lparr>gauge := g\<rparr>) = in_phase ps b"
  "in_phase ps (b\<lparr>slots := n, leases := xs\<rparr>) = in_phase ps (b\<lparr>leases := xs\<rparr>)"
  "in_phase ps (b\<lparr>leases := xs, gauge := g\<rparr>) = in_phase ps (b\<lparr>leases := xs\<rparr>)"
  by (simp_all add: in_phase_def)

lemma budget_inv_fresh: "fresh_budget b \<Longrightarrow> budget_inv b"
  by (auto simp: fresh_budget_def New_def budget_inv_def in_phase_def split: if_splits)

lemma budget_inv_send: "budget_inv b \<Longrightarrow> try_send b = (r, b') \<Longrightarrow> budget_inv b'"
  by (auto simp: try_send_def budget_inv_def in_phase_def split: if_splits)

lemma budget_inv_acquired:
  assumes "budget_inv b" "l < length (leases b)" "leases b ! l = Sent"
  shows "budget_inv (observe_acquired l b)"
  using assms in_phase_update [OF assms(2), of "{Sent, Held}" Held] in_phase_update [OF assms(2), of "{Held, Received}" Held]
  by (simp add: budget_inv_def observe_acquired_def call_observe_def)

lemma budget_inv_receive:
  assumes "budget_inv b" "l < length (leases b)" "leases b ! l = Held" "receive l b = Some b'"
  shows "budget_inv b'"
  using assms in_phase_update [OF assms(2), of "{Sent, Held}" Received]
    in_phase_update [OF assms(2), of "{Held, Received}" Received]
  by (auto simp: budget_inv_def receive_def split: if_splits)

lemma budget_inv_released:
  assumes "budget_inv b" "l < length (leases b)" "leases b ! l = Received"
  shows "budget_inv (observe_released l b)"
  using assms in_phase_update [OF assms(2), of "{Sent, Held}" Released]
    in_phase_update [OF assms(2), of "{Held, Received}" Released]
  by (auto simp: budget_inv_def observe_released_def call_observe_def)

lemma budget_inv_step: "budget_step b b' \<Longrightarrow> budget_inv b \<Longrightarrow> budget_inv b'"
  by (induction rule: budget_step.induct)
     (auto intro: budget_inv_send budget_inv_acquired budget_inv_receive budget_inv_released)

interpretation budget: inductive_invariant fresh_budget budget_step budget_inv
  by unfold_locales (auto intro: budget_inv_fresh budget_inv_step)

text \<open>The operations of a goroutine that runs undisturbed are sequences of steps.\<close>

lemma TryAcquire_steps: "TryAcquire b = (r, b') \<Longrightarrow> budget_step\<^sup>*\<^sup>* b b'"
proof (cases "try_send b")
  case (Pair x c)
  assume ta: "TryAcquire b = (r, b')"
  show ?thesis
  proof (cases x)
    case None
    with ta Pair show ?thesis
      by (auto simp: TryAcquire_def intro: budget_step.refuse)
  next
    case (Some l)
    with Pair have "l < length (leases c)" "leases c ! l = Sent"
      by (auto simp: try_send_def split: if_splits)
    then have "budget_step c (observe_acquired l c)"
      by (rule budget_step.acquired)
    with budget_step.send [OF Pair [unfolded Some]] have "budget_step\<^sup>*\<^sup>* b (observe_acquired l c)"
      by (rule converse_rtranclp_into_rtranclp [OF _ r_into_rtranclp])
    with ta Pair Some show ?thesis
      by (simp add: TryAcquire_def)
  qed
qed

lemma held_slot:
  "budget_inv b \<Longrightarrow> l < length (leases b) \<Longrightarrow> leases b ! l = Held \<Longrightarrow> 0 < slots b"
  using in_phase_pos [of l b "{Sent, Held}"] by (simp add: budget_inv_def)

lemma Release_held:
  assumes "budget_inv b" "l < length (leases b)" "leases b ! l = Held"
  obtains b' where "Release (Some l) b = Some b'" "slots b' + 1 = slots b" "leases b' = (leases b)[l := Released]"
    "budget_step\<^sup>*\<^sup>* b b'"
proof -
  obtain c where c: "receive l b = Some c" "slots c + 1 = slots b" "leases c = (leases b)[l := Received]"
    using held_slot [OF assms] by (auto simp: receive_def)
  have "budget_step b c" "budget_step c (observe_released l c)"
    using assms c by (auto intro: budget_step.recv budget_step.released)
  with c assms show thesis
    by (intro that [of "observe_released l c"])
       (simp_all add: Release_def observe_released_def call_observe_def converse_rtranclp_into_rtranclp [OF _ r_into_rtranclp])
qed

section \<open>Leases as an interface\<close>

text \<open>
  What the server and the client rely on: a pool of leases that are out. A new lease is not one
  of them, a refusal means the pool is full, a lease that is out can be returned without
  blocking, and the pool never outgrows its capacity.
\<close>

locale lease_provider =
  fixes acquire :: "'b \<Rightarrow> nat option \<times> 'b" and release :: "nat \<Rightarrow> 'b \<Rightarrow> 'b option"
    and pool :: "'b \<Rightarrow> nat list \<Rightarrow> bool" and cap :: "'b \<Rightarrow> nat"
  assumes acquire_Some: "pool b ls \<Longrightarrow> acquire b = (Some l, b') \<Longrightarrow> l \<notin> set ls \<and> pool b' (l # ls) \<and> cap b' = cap b"
    and acquire_None: "pool b ls \<Longrightarrow> acquire b = (None, b') \<Longrightarrow> b' = b \<and> length ls = cap b"
    and release_out: "pool b ls \<Longrightarrow> l \<in> set ls \<Longrightarrow> \<exists>b'. release l b = Some b' \<and> pool b' (remove1 l ls) \<and> cap b' = cap b"
    and pool_bound: "pool b ls \<Longrightarrow> length ls \<le> cap b"
    and pool_order: "pool b ls \<Longrightarrow> distinct ls \<and> (distinct ls' \<and> set ls' = set ls \<longrightarrow> pool b ls')"
begin

lemma acquire_release:
  assumes "pool b ls" "acquire b = (Some l, b')"
  shows "\<exists>b''. release l b' = Some b'' \<and> pool b'' ls \<and> cap b'' = cap b"
  using acquire_Some [OF assms] release_out [of b' "l # ls" l] by auto

lemma drain:
  "pool b ls \<Longrightarrow> \<exists>b'. foldr (\<lambda>l x. Option.bind x (release l)) ls (Some b) = Some b' \<and> pool b' []"
proof -
  have "pool b (xs @ ls) \<Longrightarrow> \<exists>b'. foldr (\<lambda>l x. Option.bind x (release l)) ls (Some b) = Some b' \<and> pool b' xs" for xs
  proof (induction ls arbitrary: xs)
    case (Cons l ls)
    have "set (xs @ [l]) \<union> set ls = set (xs @ l # ls)" by auto
    with Cons.prems pool_order [OF Cons.prems, of "(xs @ [l]) @ ls"] have "pool b ((xs @ [l]) @ ls)"
      by auto
    from Cons.IH [OF this] obtain c where c: "foldr (\<lambda>l x. Option.bind x (release l)) ls (Some b) = Some c" "pool c (xs @ [l])"
      by blast
    from pool_order [OF c(2)] have "l \<notin> set xs" by simp
    then have "remove1 l (xs @ [l]) = xs" by (simp add: remove1_append)
    with release_out [OF c(2), of l] c(1) show ?case by auto
  qed auto
  from this [of "[]"] show "pool b ls \<Longrightarrow> \<exists>b'. foldr (\<lambda>l x. Option.bind x (release l)) ls (Some b) = Some b' \<and> pool b' []"
    by simp
qed

end

definition lease_pool :: "Budget \<Rightarrow> nat list \<Rightarrow> bool" where
  "lease_pool b ls =
     (distinct ls \<and> slots b = length ls \<and> slots b \<le> capacity b \<and>
      (\<forall>l \<in> set ls. l < length (leases b) \<and> leases b ! l = Held))"

lemma lease_pool_fresh: "New limit observe = Some b \<Longrightarrow> lease_pool b []"
  by (auto simp: New_def lease_pool_def split: if_splits)

lemma capacity_New: "New limit observe = Some b \<Longrightarrow> int (capacity b) = limit \<and> 1 \<le> limit"
  by (auto simp: New_def split: if_splits)

lemma lease_pool_acquire:
  assumes "lease_pool b ls" "TryAcquire b = (Some l, b')"
  shows "l \<notin> set ls \<and> lease_pool b' (l # ls) \<and> capacity b' = capacity b"
  using assms
  by (auto simp: lease_pool_def TryAcquire_def try_send_def observe_acquired_def call_observe_def nth_append
      split: if_splits)

lemma lease_pool_release:
  assumes "lease_pool b ls" "l \<in> set ls"
  shows "\<exists>b'. Release (Some l) b = Some b' \<and> lease_pool b' (remove1 l ls) \<and> capacity b' = capacity b"
proof -
  have "0 < slots b" "leases b ! l = Held" "l < length (leases b)"
    using assms length_pos_if_in_set [of l ls] by (auto simp: lease_pool_def)
  with assms show ?thesis
    by (auto simp: Release_def receive_def observe_released_def call_observe_def lease_pool_def length_remove1
        nth_list_update)
qed

interpretation lease: lease_provider TryAcquire "\<lambda>l. Release (Some l)" lease_pool capacity
proof unfold_locales
  show "lease_pool b ls \<Longrightarrow> TryAcquire b = (None, b') \<Longrightarrow> b' = b \<and> length ls = capacity b" for b ls b'
    by (auto simp: lease_pool_def TryAcquire_def try_send_def split: if_splits)
  show "lease_pool b ls \<Longrightarrow> length ls \<le> capacity b" for b ls
    by (simp add: lease_pool_def)
  show "lease_pool b ls \<Longrightarrow> distinct ls \<and> (distinct ls' \<and> set ls' = set ls \<longrightarrow> lease_pool b ls')" for b ls ls'
    using distinct_card [of ls] distinct_card [of ls'] by (auto simp: lease_pool_def)
qed (use lease_pool_acquire lease_pool_release in blast)+

section \<open>Properties\<close>



text \<open>C32: \<open>TryAcquire\<close> never blocks: it hands out a lease exactly when the budget has room
  and otherwise changes nothing. In any reachable state \<open>Release\<close> of a held lease does not
  block on the channel, frees exactly one slot, and releasing the same lease again has no
  effect.\<close>

theorem TryAcquire_Release:
  assumes "New limit observe = Some b0" and "budget_step\<^sup>*\<^sup>* b0 b"
  shows "(InUse b = capacity b \<longrightarrow> TryAcquire b = (None, b)) \<and>
    (InUse b < capacity b \<longrightarrow>
       (\<exists>l b'. TryAcquire b = (Some l, b') \<and> InUse b' = InUse b + 1 \<and> leases b' ! l = Held)) \<and>
    (\<forall>l < length (leases b). leases b ! l = Held \<longrightarrow>
       (\<exists>b'. Release (Some l) b = Some b' \<and> InUse b' + 1 = InUse b \<and> Release (Some l) b' = Some b'))"
proof (intro conjI impI allI)
  have inv: "budget_inv b"
    using assms budget.inv_reachable by (auto simp: fresh_budget_def)
  show "TryAcquire b = (None, b)" if "InUse b = capacity b"
    using that by (simp add: TryAcquire_def try_send_def InUse_def)
  show "\<exists>l b'. TryAcquire b = (Some l, b') \<and> InUse b' = InUse b + 1 \<and> leases b' ! l = Held"
    if "InUse b < capacity b"
    using that by (simp add: TryAcquire_def try_send_def InUse_def observe_acquired_def call_observe_def)
  fix l assume l: "l < length (leases b)" "leases b ! l = Held"
  from Release_held [OF inv l] obtain b' where
    b': "Release (Some l) b = Some b'" "slots b' + 1 = slots b" "leases b' = (leases b)[l := Released]"
    by blast
  moreover from b'(3) l have "Release (Some l) b' = Some b'"
    by (simp add: Release_def)
  ultimately show "\<exists>b'. Release (Some l) b = Some b' \<and> InUse b' + 1 = InUse b \<and> Release (Some l) b' = Some b'"
    by (auto simp: InUse_def)
qed

theorem TryAcquire_Release_witness:
  "\<exists>b0 b. New 1 True = Some b0 \<and> TryAcquire b0 = (Some 0, b) \<and> TryAcquire b = (None, b) \<and>
     (\<exists>b'. Release (Some 0) b = Some b' \<and> Release (Some 0) b' = Some b')"
proof -
  define b0 where "b0 = \<lparr>capacity = 1, slots = 0, observed = True, gauge = 0, leases = []\<rparr>"
  have n: "New 1 True = Some b0"
    by (simp add: New_def b0_def)
  obtain b where t: "TryAcquire b0 = (Some 0, b)" "slots b = 1" "capacity b = 1" "leases b = [Held]"
    by (simp add: TryAcquire_def b0_def try_send_def observe_acquired_def call_observe_def)
  from TryAcquire_Release [OF n TryAcquire_steps [OF t(1)]] t n show ?thesis
    by (auto simp: InUse_def)
qed

end
