(* ===== verification/Acl.thy ===== *)
theory Acl
  imports Protocol_Address
begin

text \<open>
  \<open>internal/acl/acl.go\<close>: destination policies. The first part is the policy itself (rules,
  normalisation of a destination, the checks on names and on resolved addresses), the second
  the resolver with its bound on concurrent lookups. The DNS answer is an argument, since the
  lookup is the operating system's. The arguments of formatted error messages are left out.
\<close>

section \<open>Policy\<close>

record rule =
  cidr :: "IPNet option"
  domain :: string

record AclList =
  allowHosts :: "rule list"
  denyHosts :: "rule list"
  allowPorts :: "u16 set"
  denyPorts :: "u16 set"

definition canonicalName :: "string \<Rightarrow> string" where
  "canonicalName s = ToLower (TrimSuffix s ''.'')"

definition rule_char :: "char \<Rightarrow> bool" where
  "rule_char c =
     (let n = of_char c :: nat
      in 97 \<le> n \<and> n \<le> 122 \<or> 48 \<le> n \<and> n \<le> 57 \<or> c = CHR ''-'' \<or> c = CHR ''_'')"

definition validName :: "string \<Rightarrow> bool" where
  "validName s =
     (if length s = 0 \<or> 253 < length s then False
      else list_all (\<lambda>label. \<not> (length label = 0 \<or> 63 < length label) \<and> list_all rule_char label) (Split s CHR ''.''))"

fun parseRules :: "string list \<Rightarrow> go_error + rule list" where
  "parseRules [] = Inr []"
| "parseRules (spec # specs) =
     (let s = TrimSpace spec;
          more = (\<lambda>r. case parseRules specs of Inl e \<Rightarrow> Inl e | Inr rs \<Rightarrow> Inr (r # rs))
      in if s = [] then parseRules specs
         else if CHR ''/'' \<in> set s then
           (case ParseCIDR s of
              Inl e \<Rightarrow> Inl e
            | Inr n \<Rightarrow> more \<lparr>cidr = Some n, domain = []\<rparr>)
         else (case ParseIP s of
             Some p \<Rightarrow>
               (case To4 p of
                  Some v4 \<Rightarrow> more \<lparr>cidr = Some \<lparr>net_IP = v4, net_Mask = CIDRMask 32 32\<rparr>, domain = []\<rparr>
                | None \<Rightarrow> more \<lparr>cidr = Some \<lparr>net_IP = p, net_Mask = CIDRMask 128 128\<rparr>, domain = []\<rparr>)
           | None \<Rightarrow>
               (let s = canonicalName (TrimPrefix s ''*.'')
                in if \<not> validName s then Inl (ErrorString ''acl: invalid host pattern'')
                   else more \<lparr>cidr = None, domain = s\<rparr>)))"

fun add_ports :: "int list \<Rightarrow> u16 set \<Rightarrow> go_error + u16 set" where
  "add_ports [] dst = Inr dst"
| "add_ports (p # ps) dst =
     (if p < 1 \<or> 65535 < p then Inl (ErrorString ''acl: port outside 1..65535'')
      else add_ports ps (insert (of_int p) dst))"

definition NewList :: "string list \<Rightarrow> string list \<Rightarrow> int list \<Rightarrow> int list \<Rightarrow> go_error + AclList" where
  "NewList allow deny allowP denyP =
     (case parseRules allow of
        Inl e \<Rightarrow> Inl e
      | Inr ah \<Rightarrow>
          (case parseRules deny of
             Inl e \<Rightarrow> Inl e
           | Inr dh \<Rightarrow>
               (case add_ports allowP {} of
                  Inl e \<Rightarrow> Inl e
                | Inr ap \<Rightarrow>
                    (case add_ports denyP {} of
                       Inl e \<Rightarrow> Inl e
                     | Inr dp \<Rightarrow>
                         Inr \<lparr>allowHosts = ah, denyHosts = dh, allowPorts = ap, denyPorts = dp\<rparr>))))"

definition normalized_ip :: "Address \<Rightarrow> go_error + Address" where
  "normalized_ip addr =
     (case To4 (IP addr) of
        Some v4 \<Rightarrow> Inr (addr\<lparr>Atyp := AtypIPv4, IP := v4\<rparr>)
      | None \<Rightarrow>
          (case To16 (IP addr) of
             Some v6 \<Rightarrow> Inr (addr\<lparr>Atyp := AtypIPv6, IP := v6\<rparr>)
           | None \<Rightarrow> Inl ErrAddress))"

definition normalized :: "Address \<Rightarrow> go_error + Address" where
  "normalized addr =
     (if Port addr = 0 then Inl ErrAddress
      else if Atyp addr = AtypDomain then
        (let addr = addr\<lparr>Host := canonicalName (Host addr)\<rparr>
         in case ParseIP (Host addr) of
              Some p \<Rightarrow> normalized_ip (addr\<lparr>IP := p, Host := []\<rparr>)
            | None \<Rightarrow> if \<not> validName (Host addr) then Inl ErrAddress else Inr addr)
      else if Atyp addr \<noteq> AtypIPv4 \<and> Atyp addr \<noteq> AtypIPv6 then Inl ErrAddress
      else normalized_ip addr)"

text \<open>A nil policy is \<open>None\<close>.\<close>

definition portsAllowed :: "AclList option \<Rightarrow> u16 \<Rightarrow> bool" where
  "portsAllowed l port =
     (case l of
        None \<Rightarrow> True
      | Some l \<Rightarrow> port \<notin> denyPorts l \<and> (allowPorts l = {} \<or> port \<in> allowPorts l))"

definition rule_matches :: "Address \<Rightarrow> rule \<Rightarrow> bool" where
  "rule_matches addr r =
     ((case cidr r of None \<Rightarrow> False | Some n \<Rightarrow> Atyp addr \<noteq> AtypDomain \<and> Contains n (IP addr)) \<or>
      (domain r \<noteq> [] \<and> Atyp addr = AtypDomain \<and>
        (Host addr = domain r \<or> HasSuffix (Host addr) (CHR ''.'' # domain r))))"

definition matchAny :: "rule list \<Rightarrow> Address \<Rightarrow> bool" where
  "matchAny rules addr = list_ex (rule_matches addr) rules"

definition Allowed :: "AclList option \<Rightarrow> Address \<Rightarrow> bool" where
  "Allowed l addr =
     (case normalized addr of
        Inl e \<Rightarrow> False
      | Inr a \<Rightarrow>
          if \<not> portsAllowed l (Port a) then False
          else (case l of
              None \<Rightarrow> True
            | Some l \<Rightarrow> \<not> matchAny (denyHosts l) a \<and> (allowHosts l = [] \<or> matchAny (allowHosts l) a)))"

definition resolvedAllowed :: "AclList option \<Rightarrow> Address \<Rightarrow> Address \<Rightarrow> bool" where
  "resolvedAllowed l original ip =
     (if \<not> portsAllowed l (Port original) then False
      else (case l of
          None \<Rightarrow> True
        | Some l \<Rightarrow>
            if matchAny (denyHosts l) original \<or> matchAny (denyHosts l) ip then False
            else allowHosts l = [] \<or> matchAny (allowHosts l) original \<or> matchAny (allowHosts l) ip))"

section \<open>Resolver\<close>

record Resolver =
  policy :: "AclList option"
  rslots :: nat
  rcap :: nat
  rtimeout :: duration

definition NewResolver :: "AclList option \<Rightarrow> duration \<Rightarrow> int \<Rightarrow> Resolver" where
  "NewResolver pol timeout concurrency =
     (let timeout = (if timeout \<le> 0 then 5 * 1000000000 else timeout);
          concurrency = (if concurrency \<le> 0 then 32 else concurrency)
      in \<lparr>policy = pol, rslots = 0, rcap = nat concurrency, rtimeout = timeout\<rparr>)"

text \<open>
  \<open>Resolve\<close> up to the lookup: an answer without a lookup, or the normalised name to look up
  with a slot taken. \<open>ctxErr\<close> is \<open>ctx.Err()\<close> of a context that has ended, \<open>pick\<close> the choice
  of the \<open>select\<close> when the context has ended and a slot is free.
\<close>

datatype resolve_start = Answer "go_error + Address list" | Lookup Address

definition resolve_begin :: "go_error option \<Rightarrow> bool \<Rightarrow> Address \<Rightarrow> Resolver \<Rightarrow> resolve_start \<times> Resolver" where
  "resolve_begin ctxErr pick addr r =
     (case normalized addr of
        Inl e \<Rightarrow> (Answer (Inl e), r)
      | Inr a \<Rightarrow>
          if \<not> portsAllowed (policy r) (Port a) then (Answer (Inl ErrDenied), r)
          else if Atyp a \<noteq> AtypDomain then
            (if \<not> Allowed (policy r) a then (Answer (Inl ErrDenied), r) else (Answer (Inr [a]), r))
          else if (case policy r of None \<Rightarrow> False | Some l \<Rightarrow> matchAny (denyHosts l) a)
            then (Answer (Inl ErrDenied), r)
          else (case (ctxErr, rslots r < rcap r) of
              (Some e, True) \<Rightarrow> if pick then (Answer (Inl e), r) else (Lookup a, r\<lparr>rslots := rslots r + 1\<rparr>)
            | (Some e, False) \<Rightarrow> (Answer (Inl e), r)
            | (None, True) \<Rightarrow> (Lookup a, r\<lparr>rslots := rslots r + 1\<rparr>)
            | (None, False) \<Rightarrow> (Answer (Inl ErrBusy), r)))"

definition candidate :: "netip_addr \<Rightarrow> u16 \<Rightarrow> Address" where
  "candidate ip port =
     \<lparr>Atyp = (if Is4 ip then AtypIPv4 else AtypIPv6), Host = [], IP = AsSlice ip, Port = port\<rparr>"

fun collect :: "AclList option \<Rightarrow> Address \<Rightarrow> netip_addr set \<Rightarrow> netip_addr list \<Rightarrow> Address list" where
  "collect pol a seen [] = []"
| "collect pol a seen (ip # ips) =
     (let ip = Unmap ip
      in if ip = InvalidAddr \<or> ip \<in> seen then collect pol a seen ips
         else let out = collect pol a (insert ip seen) ips
           in if resolvedAllowed pol a (candidate ip (Port a)) then candidate ip (Port a) # out else out)"

definition resolve_end :: "Address \<Rightarrow> go_error + netip_addr list \<Rightarrow> Resolver \<Rightarrow> (go_error + Address list) \<times> Resolver" where
  "resolve_end a answer r =
     (let result = (case answer of
            Inl e \<Rightarrow> Inl e
          | Inr ips \<Rightarrow>
              (let out = collect (policy r) a {} ips
               in if out = [] then Inl ErrDenied else Inr out))
      in (result, r\<lparr>rslots := rslots r - 1\<rparr>))"

definition Resolve ::
    "(string \<Rightarrow> go_error + netip_addr list) \<Rightarrow> go_error option \<Rightarrow> bool \<Rightarrow> Address \<Rightarrow> Resolver \<Rightarrow>
     (go_error + Address list) \<times> Resolver" where
  "Resolve lookup ctxErr pick addr r =
     (case resolve_begin ctxErr pick addr r of
        (Answer x, r) \<Rightarrow> (x, r)
      | (Lookup a, r) \<Rightarrow> resolve_end a (lookup (Host a)) r)"

section \<open>Normalisation\<close>

text \<open>The destinations policy rules are matched against: a valid lower-case name that is no
  address literal, or the shortest binary form of an address.\<close>

definition normal_form :: "Address \<Rightarrow> bool" where
  "normal_form a =
     (Port a \<noteq> 0 \<and>
      (Atyp a = AtypDomain \<and> validName (Host a) \<and> ParseIP (Host a) = None \<or>
       Atyp a = AtypIPv4 \<and> length (IP a) = 4 \<or>
       Atyp a = AtypIPv6 \<and> length (IP a) = 16 \<and> To4 (IP a) = None))"

lemma normalized_ip_Inr:
  "normalized_ip x = Inr a \<Longrightarrow>
   Port a = Port x \<and>
   (Atyp a = AtypIPv4 \<and> length (IP a) = 4 \<or> Atyp a = AtypIPv6 \<and> length (IP a) = 16 \<and> To4 (IP a) = None)"
  by (auto simp: normalized_ip_def To4_def To16_def split: option.splits if_splits)

lemma normalized_normal_form:
  assumes "normalized addr = Inr a"
  shows "normal_form a" and "Port a = Port addr"
  using assms unfolding normalized_def Let_def normal_form_def
  by (auto split: if_splits option.splits dest!: normalized_ip_Inr)

lemma normalized_error: "normalized addr = Inl e \<Longrightarrow> e = ErrAddress"
  by (auto simp: normalized_def normalized_ip_def Let_def split: if_splits option.splits)

lemma normalized_literal:
  "normal_form a \<Longrightarrow> Atyp a \<noteq> AtypDomain \<Longrightarrow> normalized a = Inr a"
  by (auto simp: normal_form_def normalized_def normalized_ip_def)

lemma Allowed_normal:
  assumes "normalized addr = Inr a" and "Atyp a \<noteq> AtypDomain"
  shows "Allowed l a = Allowed l addr"
  using normalized_literal [OF normalized_normal_form(1) [OF assms(1)] assms(2)] assms(1)
  by (simp add: Allowed_def)

section \<open>What resolution returns\<close>

lemma candidate_simps [simp]:
  "Port (candidate ip p) = p" "Host (candidate ip p) = []" "IP (candidate ip p) = AsSlice ip"
  "Atyp (candidate ip p) = (if Is4 ip then AtypIPv4 else AtypIPv6)"
  by (simp_all add: candidate_def)

lemma collect_member:
  assumes "b \<in> set (collect pol a seen ips)"
  shows "resolvedAllowed pol a b" and "\<exists>ip \<in> set ips. Unmap ip \<noteq> InvalidAddr \<and> b = candidate (Unmap ip) (Port a)"
  using assms by (induction pol a seen ips rule: collect.induct) (auto simp: Let_def split: if_splits)

lemma wf_Unmap: "wf_netip ip \<Longrightarrow> wf_netip (Unmap ip)"
  by (auto simp: wf_netip_def Unmap_def split: netip_addr.splits)

lemma normal_form_candidate:
  assumes "wf_netip ip" "Unmap ip \<noteq> InvalidAddr" "p \<noteq> 0"
  shows "normal_form (candidate (Unmap ip) p)"
  using assms
  by (auto simp: normal_form_def wf_netip_def Unmap_def Is4_def AsSlice_def To4_def split: netip_addr.splits if_splits)

definition zoneless :: "netip_addr \<Rightarrow> bool" where
  "zoneless ip = (case ip of Addr6 b z \<Rightarrow> z = [] | _ \<Rightarrow> True)"

lemma zoneless_Unmap: "zoneless ip \<Longrightarrow> zoneless (Unmap ip)"
  by (auto simp: zoneless_def Unmap_def split: netip_addr.splits)

lemma candidate_inj:
  "zoneless x \<Longrightarrow> zoneless y \<Longrightarrow> x \<noteq> InvalidAddr \<Longrightarrow> y \<noteq> InvalidAddr \<Longrightarrow>
   candidate x p = candidate y p \<Longrightarrow> x = y"
  by (cases x; cases y) (auto simp: candidate_def zoneless_def Is4_def AsSlice_def)

lemma collect_fresh:
  "\<forall>ip \<in> set ips. zoneless ip \<Longrightarrow> b \<in> set (collect pol a seen ips) \<Longrightarrow>
   \<exists>ip. zoneless ip \<and> ip \<noteq> InvalidAddr \<and> ip \<notin> seen \<and> b = candidate ip (Port a)"
proof (induction ips arbitrary: seen)
  case (Cons ip ips)
  show ?case
  proof (cases "Unmap ip = InvalidAddr \<or> Unmap ip \<in> seen")
    case True
    with Cons show ?thesis by (simp add: Let_def)
  next
    case False
    with Cons.prems have "b = candidate (Unmap ip) (Port a) \<or> b \<in> set (collect pol a (insert (Unmap ip) seen) ips)"
      by (auto simp: Let_def split: if_splits)
    then show ?thesis
    proof
      assume "b = candidate (Unmap ip) (Port a)"
      with False Cons.prems zoneless_Unmap [of ip] show ?thesis by auto
    next
      assume "b \<in> set (collect pol a (insert (Unmap ip) seen) ips)"
      with Cons show ?thesis by auto
    qed
  qed
qed simp

lemma collect_distinct:
  "\<forall>ip \<in> set ips. zoneless ip \<Longrightarrow> distinct (collect pol a seen ips)"
proof (induction ips arbitrary: seen)
  case (Cons ip ips)
  have "candidate (Unmap ip) (Port a) \<notin> set (collect pol a (insert (Unmap ip) seen) ips)"
    if "Unmap ip \<noteq> InvalidAddr"
  proof
    assume "candidate (Unmap ip) (Port a) \<in> set (collect pol a (insert (Unmap ip) seen) ips)"
    with collect_fresh [of ips] Cons.prems obtain x where
      "zoneless x" "x \<noteq> InvalidAddr" "x \<noteq> Unmap ip" "candidate (Unmap ip) (Port a) = candidate x (Port a)"
      by fastforce
    with candidate_inj [of "Unmap ip" x] zoneless_Unmap [of ip] Cons.prems that show False
      by auto
  qed
  with Cons show ?case by (simp add: Let_def)
qed simp

lemma resolve_begin_Answer:
  assumes "resolve_begin ctxErr pick addr r = (Answer (Inr out), r')"
  shows "\<exists>a. normalized addr = Inr a \<and> out = [a] \<and> Atyp a \<noteq> AtypDomain \<and> Allowed (policy r) a \<and> r' = r"
  using assms by (auto simp: resolve_begin_def split: sum.splits if_splits option.splits bool.splits)

lemma resolve_begin_Lookup:
  assumes "resolve_begin ctxErr pick addr r = (Lookup a, r')"
  shows "normalized addr = Inr a \<and> Atyp a = AtypDomain \<and> rslots r < rcap r \<and> r' = r\<lparr>rslots := rslots r + 1\<rparr>"
  using assms by (auto simp: resolve_begin_def split: sum.splits if_splits option.splits bool.splits)

text \<open>Both ways to an address: a literal the policy allows, or an answer of the lookup.\<close>

lemma Resolve_cases:
  assumes "Resolve lookup ctxErr pick addr r = (Inr out, r')"
  obtains (literal) a where "normalized addr = Inr a" "out = [a]" "Atyp a \<noteq> AtypDomain" "Allowed (policy r) a" "r' = r"
    | (looked_up) a ips where "normalized addr = Inr a" "Atyp a = AtypDomain" "lookup (Host a) = Inr ips"
        "out = collect (policy r) a {} ips" "out \<noteq> []" "rslots r < rcap r" "r' = r"
proof (cases "resolve_begin ctxErr pick addr r")
  case (Pair st r1)
  show thesis
  proof (cases st)
    case (Answer x)
    with assms Pair have "resolve_begin ctxErr pick addr r = (Answer (Inr out), r')"
      by (simp add: Resolve_def)
    from resolve_begin_Answer [OF this] show thesis
      using literal by blast
  next
    case (Lookup a)
    with Pair have b: "normalized addr = Inr a" "Atyp a = AtypDomain" "rslots r < rcap r" "r1 = r\<lparr>rslots := rslots r + 1\<rparr>"
      using resolve_begin_Lookup by blast+
    with assms Pair Lookup show thesis
      by (auto simp: Resolve_def resolve_end_def Let_def split: sum.splits if_splits intro: looked_up)
  qed
qed

lemma Resolve_not_Nil: "Resolve lookup ctxErr pick addr r = (Inr out, r') \<Longrightarrow> out \<noteq> []"
  by (erule Resolve_cases) simp_all

lemma Resolve_policy:
  assumes "Resolve lookup ctxErr pick addr r = (Inr out, r')" and "b \<in> set out"
  shows "Atyp b \<noteq> AtypDomain \<and> Port b = Port addr \<and> portsAllowed (policy r) (Port b) \<and>
    (\<exists>a. normalized addr = Inr a \<and>
      (\<forall>l. policy r = Some l \<longrightarrow>
         \<not> matchAny (denyHosts l) b \<and> \<not> matchAny (denyHosts l) a \<and>
         (allowHosts l = [] \<or> matchAny (allowHosts l) b \<or> matchAny (allowHosts l) a)))"
  using assms(1)
proof (cases rule: Resolve_cases)
  case (literal a)
  then have "normalized a = Inr a"
    using normalized_literal normalized_normal_form by blast
  with literal assms(2) normalized_normal_form [OF literal(1)] show ?thesis
    by (auto simp: Allowed_def split: if_splits option.splits)
next
  case (looked_up a ips)
  from looked_up(4) assms(2) have "b \<in> set (collect (policy r) a {} ips)"
    by simp
  from collect_member [OF this] looked_up normalized_normal_form [OF looked_up(1)] show ?thesis
    by (auto simp: resolvedAllowed_def split: if_splits option.splits)
qed

section \<open>Rules\<close>

definition wf_rule :: "rule \<Rightarrow> bool" where
  "wf_rule r = (cidr r \<noteq> None \<and> domain r = [] \<or> cidr r = None \<and> validName (domain r))"

lemma parseRules_wf: "parseRules specs = Inr rs \<Longrightarrow> list_all wf_rule rs"
  by (induction specs arbitrary: rs)
     (auto simp: Let_def wf_rule_def split: if_splits sum.splits option.splits)

lemma add_ports_Inr:
  "add_ports ps dst = Inr d \<longleftrightarrow> list_all (\<lambda>p. 1 \<le> p \<and> p \<le> 65535) ps \<and> d = of_int ` set ps \<union> dst"
  by (induction ps arbitrary: dst) auto

lemma rule_matches_name:
  "Atyp a = AtypDomain \<Longrightarrow>
   rule_matches a r \<longleftrightarrow> domain r \<noteq> [] \<and> suffix (Split (domain r) CHR ''.'') (Split (Host a) CHR ''.'')"
  using suffix_labels [of "Host a" "domain r" "CHR ''.''"]
  by (auto simp: rule_matches_def split: option.splits)

section \<open>Concurrent lookups\<close>

text \<open>The resolver and the names being looked up. A call of \<open>Resolve\<close> is a \<open>start\<close>, and a
  \<open>finish\<close> when it needed a lookup.\<close>

inductive resolver_step :: "Resolver \<times> Address list \<Rightarrow> Resolver \<times> Address list \<Rightarrow> bool" where
  answered: "resolve_begin ctxErr pick addr r = (Answer x, r') \<Longrightarrow> resolver_step (r, fl) (r', fl)"
| start: "resolve_begin ctxErr pick addr r = (Lookup a, r') \<Longrightarrow> resolver_step (r, fl) (r', a # fl)"
| finish: "resolve_end a answer r = (x, r') \<Longrightarrow> resolver_step (r, xs @ a # ys) (r', xs @ ys)"

definition fresh_resolver :: "Resolver \<times> Address list \<Rightarrow> bool" where
  "fresh_resolver s = (\<exists>pol timeout n. s = (NewResolver pol timeout n, []))"

definition resolver_inv :: "Resolver \<times> Address list \<Rightarrow> bool" where
  "resolver_inv s = (case s of (r, fl) \<Rightarrow>
     rslots r = length fl \<and> rslots r \<le> rcap r \<and> 0 < rcap r \<and>
     list_all (\<lambda>a. Atyp a = AtypDomain \<and> normal_form a) fl)"

lemma resolve_begin_Answer_state:
  "resolve_begin ctxErr pick addr r = (Answer x, r') \<Longrightarrow> r' = r"
  by (auto simp: resolve_begin_def split: sum.splits if_splits option.splits bool.splits)

lemma resolver_inv_step: "resolver_step s t \<Longrightarrow> resolver_inv s \<Longrightarrow> resolver_inv t"
proof (induction rule: resolver_step.induct)
  case (answered ctxErr pick addr r x r' fl)
  then show ?case
    using resolve_begin_Answer_state by fastforce
next
  case (start ctxErr pick addr r a r' fl)
  then show ?case
    using resolve_begin_Lookup [OF start.hyps] normalized_normal_form
    by (auto simp: resolver_inv_def)
next
  case (finish a answer r x r' xs ys)
  then show ?case
    by (auto simp: resolver_inv_def resolve_end_def Let_def)
qed

lemma resolver_inv_fresh: "fresh_resolver s \<Longrightarrow> resolver_inv s"
  by (auto simp: fresh_resolver_def NewResolver_def Let_def resolver_inv_def)

interpretation resolver: inductive_invariant fresh_resolver resolver_step resolver_inv
  by unfold_locales (auto intro: resolver_inv_fresh resolver_inv_step)

section \<open>Properties\<close>

text \<open>C1: Policy enforcement on resolved addresses. Every address \<open>Resolve\<close> returns is
  numeric, carries the requested port, and passes the policy: its port is not denied (and is
  listed when there is an allow list), no deny rule matches it or the requested destination,
  and when there are allow rules one of them matches it or the requested destination. An
  allowed name therefore never opens a denied address.\<close>

theorem Resolve_enforces_policy:
  assumes "Resolve lookup ctxErr pick addr r = (Inr out, r')" and "b \<in> set out"
  shows "Atyp b \<noteq> AtypDomain \<and> Port b = Port addr \<and> portsAllowed (policy r) (Port b) \<and>
    (\<exists>a. normalized addr = Inr a \<and>
      (\<forall>l. policy r = Some l \<longrightarrow>
         \<not> matchAny (denyHosts l) b \<and> \<not> matchAny (denyHosts l) a \<and>
         (allowHosts l = [] \<or> matchAny (allowHosts l) b \<or> matchAny (allowHosts l) a)))"
  using Resolve_policy [OF assms] .

theorem Resolve_enforces_policy_witness:
  "\<exists>lookup r b. policy r = Some \<lparr>allowHosts = [\<lparr>cidr = None, domain = ''a.b''\<rparr>], denyHosts = [], allowPorts = {}, denyPorts = {}\<rparr> \<and>
     Resolve lookup None False \<lparr>Atyp = AtypDomain, Host = ''x.a.b'', IP = [], Port = 443\<rparr> r = (Inr [b], r) \<and>
     Atyp b \<noteq> AtypDomain \<and> Port b = 443"
proof -
  let ?l = "\<lparr>allowHosts = [\<lparr>cidr = None, domain = ''a.b''\<rparr>], denyHosts = [], allowPorts = {}, denyPorts = {}\<rparr> :: AclList"
  let ?r = "NewResolver (Some ?l) 0 0"
  let ?a = "\<lparr>Atyp = AtypDomain, Host = ''x.a.b'', IP = [], Port = 443\<rparr> :: Address"
  let ?b = "\<lparr>Atyp = AtypIPv4, Host = [], IP = [10, 0, 0, 1], Port = 443\<rparr> :: Address"
  have r: "Resolve (\<lambda>h. Inr [Addr4 [10, 0, 0, 1]]) None False ?a ?r = (Inr [?b], ?r)"
    by code_simp
  from Resolve_enforces_policy [OF r, of ?b] r show ?thesis
    by (intro exI [of _ "\<lambda>h. Inr [Addr4 [10, 0, 0, 1]]"] exI [of _ ?r] exI [of _ ?b]) (simp add: NewResolver_def)
qed



text \<open>C20: For a destination that is an address literal (binary or written as a name) no
  lookup happens, no slot is taken, and \<open>Resolve\<close> and \<open>Allowed\<close> give the same verdict.\<close>

theorem Resolve_literal:
  assumes "normalized addr = Inr a" and "Atyp a \<noteq> AtypDomain"
  shows "Resolve lookup ctxErr pick addr r =
    (if Allowed (policy r) addr then Inr [a] else Inl ErrDenied, r)"
proof -
  have "Allowed (policy r) addr \<Longrightarrow> portsAllowed (policy r) (Port a)"
    using assms(1) by (auto simp: Allowed_def split: if_splits)
  with assms Allowed_normal [OF assms] show ?thesis
    by (auto simp: Resolve_def resolve_begin_def)
qed

theorem Resolve_literal_witness:
  "let a = \<lparr>Atyp = AtypIPv4, Host = [], IP = [10, 0, 0, 1], Port = 80\<rparr>
   in normalized a = Inr a \<and> Resolve (\<lambda>h. Inl ErrBusy) None True a (NewResolver None 0 0) = (Inr [a], NewResolver None 0 0)"
proof -
  let ?a = "\<lparr>Atyp = AtypIPv4, Host = [], IP = [10, 0, 0, 1], Port = 80\<rparr> :: Address"
  have n: "normalized ?a = Inr ?a"
    by (simp add: normalized_def normalized_ip_def)
  have "Allowed (policy (NewResolver None 0 0)) ?a"
    by (simp add: Allowed_def n NewResolver_def portsAllowed_def)
  with Resolve_literal [OF n, of "\<lambda>h. Inl ErrBusy" None True "NewResolver None 0 0"] n show ?thesis
    by (simp add: Let_def)
qed

text \<open>C21: A domain rule matches whole labels: a name matches if and only if the labels of
  some rule are the last labels of the name. \<open>example.com\<close> covers \<open>www.example.com\<close> and
  never \<open>badexample.com\<close>; network rules never match a name.\<close>

theorem matchAny_whole_labels:
  "matchAny rules \<lparr>Atyp = AtypDomain, Host = h, IP = q, Port = p\<rparr> \<longleftrightarrow>
     (\<exists>r. r \<in> set rules \<and> domain r \<noteq> [] \<and> suffix (Split (domain r) CHR ''.'') (Split h CHR ''.''))"
  by (auto simp: matchAny_def list_ex_iff rule_matches_name)

text \<open>A policy that \<open>New\<close> accepts is well formed: each rule is either a network or a
  valid canonical name, and the port sets are exactly the configured ports, all within
  1..65535, so that none of them wraps around at 16 bits.\<close>

theorem NewList_well_formed:
  assumes "NewList allow deny allowP denyP = Inr l"
  shows "list_all wf_rule (allowHosts l @ denyHosts l) \<and>
    list_all (\<lambda>p. 1 \<le> p \<and> p \<le> 65535) (allowP @ denyP) \<and>
    allowPorts l = of_int ` set allowP \<and> denyPorts l = of_int ` set denyP"
  using assms parseRules_wf by (auto simp: NewList_def add_ports_Inr split: sum.splits)

theorem NewList_well_formed_witness:
  "\<exists>l. NewList [''*.example.com''] [''10.0.0.1''] [80] [] = Inr l \<and>
     list_all wf_rule (allowHosts l @ denyHosts l) \<and> allowPorts l = {80}"
proof -
  have "\<not> Option.is_none (case NewList [''*.example.com''] [''10.0.0.1''] [80] [] of Inr l \<Rightarrow> Some l | Inl e \<Rightarrow> None)"
    by code_simp
  then obtain l where l: "NewList [''*.example.com''] [''10.0.0.1''] [80] [] = Inr l"
    by (auto split: sum.splits)
  from NewList_well_formed [OF l] l show ?thesis by auto
qed



end
