(* ===== verification/Acl_Dial.thy ===== *)
theory Acl_Dial
  imports Acl
begin

text \<open>
  \<open>internal/acl/acl.go\<close>, dialling: the sequential dial with its shares of the deadline, and
  the race between the two address families as a step relation over the main loop, the two
  goroutines, the fallback timer and the cancellation of the context. What the network answers
  is an argument: an \<open>attempt\<close> per dial.
\<close>

section \<open>Sequential dialling\<close>

type_synonym conn = nat
type_synonym dial_result = "conn option \<times> go_error option"

text \<open>One dial: the time to the deadline of the context before it (if there is a deadline),
  its outcome, and \<open>ctx.Err()\<close> after it.\<close>

record attempt =
  until_deadline :: "duration option"
  outcome :: "go_error + conn"
  ctx_err :: "go_error option"

text \<open>Division of Go's integers truncates towards zero.\<close>

definition go_quot :: "int \<Rightarrow> int \<Rightarrow> int" where
  "go_quot a n = (if 0 \<le> a then a div n else - ((- a) div n))"

definition dial_timeout :: "duration option \<Rightarrow> nat \<Rightarrow> duration" where
  "dial_timeout until left =
     (case until of
        None \<Rightarrow> 10 * second
      | Some u \<Rightarrow>
          (let remaining = go_quot u (int left)
           in if remaining < 10 * second then remaining else 10 * second))"

text \<open>The loop, with the endpoints dialled and their timeouts.\<close>

fun dial_loop ::
    "(nat \<Rightarrow> attempt) \<Rightarrow> nat \<Rightarrow> go_error option \<Rightarrow> Address list \<Rightarrow> dial_result \<times> (string \<times> duration) list" where
  "dial_loop env i lastErr [] = ((None, lastErr), [])"
| "dial_loop env i lastErr (a # as) =
     (let timeout = dial_timeout (until_deadline (env i)) (length (a # as))
      in if timeout \<le> 0 then ((None, Some DeadlineExceeded), [])
         else (case outcome (env i) of
             Inr c \<Rightarrow> ((Some c, None), [(Address_String a, timeout)])
           | Inl e \<Rightarrow>
               (case ctx_err (env i) of
                  Some ce \<Rightarrow> ((None, Some ce), [(Address_String a, timeout)])
                | None \<Rightarrow>
                    (case dial_loop env (i + 1) (Some e) as of
                       (res, log) \<Rightarrow> (res, (Address_String a, timeout) # log)))))"

definition dialAddresses :: "(nat \<Rightarrow> attempt) \<Rightarrow> Address list \<Rightarrow> dial_result \<times> (string \<times> duration) list" where
  "dialAddresses env addresses = dial_loop env 0 None addresses"

section \<open>The race of the address families\<close>

datatype dial_plan = Sequential "Address list" | Race "Address list" "Address list"

definition plan_dial :: "string \<Rightarrow> Address list \<Rightarrow> dial_plan" where
  "plan_dial network addresses =
     (if \<not> HasPrefix network ''tcp'' \<or> length addresses = 1 then Sequential addresses
      else
        let primary = filter (\<lambda>a. Atyp a = Atyp (hd addresses)) addresses;
            fallback = filter (\<lambda>a. Atyp a \<noteq> Atyp (hd addresses)) addresses
        in if fallback = [] then Sequential primary else Race primary fallback)"

text \<open>A goroutine of \<open>run\<close>: not started, inside \<open>dialAddresses\<close>, at the \<open>select\<close>, and past
  it, having handed its result to the main loop or having closed its connection.\<close>

datatype runner = Idle | Dialing | Dialled dial_result | Delivered dial_result | Closed dial_result

record race =
  prim :: runner
  fall :: runner
  started :: bool
  fired :: bool
  firstErr :: "go_error option"
  parent :: "go_error option"
  ret :: "dial_result option"
  dialled :: "(string \<times> duration) list"

definition race_init :: race where
  "race_init = \<lparr>prim = Dialing, fall = Idle, started = False, fired = False, firstErr = None,
     parent = None, ret = None, dialled = []\<rparr>"

definition start_fallback :: "race \<Rightarrow> race" where
  "start_fallback s = (if \<not> started s then s\<lparr>started := True, fall := Dialing\<rparr> else s)"

text \<open>\<open>case got := <-results\<close>.\<close>

definition on_result :: "dial_result \<Rightarrow> race \<Rightarrow> race" where
  "on_result got s =
     (case snd got of
        None \<Rightarrow> s\<lparr>ret := Some (fst got, None)\<rparr>
      | Some e \<Rightarrow>
          (case firstErr s of
             Some f \<Rightarrow> s\<lparr>ret := Some (None, Some (Joined f e))\<rparr>
           | None \<Rightarrow> start_fallback (s\<lparr>firstErr := Some e\<rparr>)))"

inductive race_step :: "Address list \<Rightarrow> Address list \<Rightarrow> race \<Rightarrow> race \<Rightarrow> bool" for primary fallback where
  cancelled: "race_step primary fallback s (s\<lparr>parent := Some e\<rparr>)"
    if "parent s = None"
| ctx_done: "race_step primary fallback s (s\<lparr>ret := Some (None, Some e)\<rparr>)"
    if "ret s = None" "parent s = Some e"
| timer: "race_step primary fallback s (start_fallback (s\<lparr>fired := True\<rparr>))"
    if "ret s = None" "\<not> fired s"
| prim_dialled: "race_step primary fallback s (s\<lparr>prim := Dialled res, dialled := dialled s @ log\<rparr>)"
    if "prim s = Dialing" "dialAddresses env primary = (res, log)"
| fall_dialled: "race_step primary fallback s (s\<lparr>fall := Dialled res, dialled := dialled s @ log\<rparr>)"
    if "fall s = Dialing" "dialAddresses env fallback = (res, log)"
| prim_result: "race_step primary fallback s (on_result res (s\<lparr>prim := Delivered res\<rparr>))"
    if "ret s = None" "prim s = Dialled res"
| fall_result: "race_step primary fallback s (on_result res (s\<lparr>fall := Delivered res\<rparr>))"
    if "ret s = None" "fall s = Dialled res"
| prim_closed: "race_step primary fallback s (s\<lparr>prim := Closed res\<rparr>)"
    if "ret s \<noteq> None \<or> parent s \<noteq> None" "prim s = Dialled res"
| fall_closed: "race_step primary fallback s (s\<lparr>fall := Closed res\<rparr>)"
    if "ret s \<noteq> None \<or> parent s \<noteq> None" "fall s = Dialled res"

text \<open>The outcomes of \<open>DialContext\<close>, with everything dialled up to that point.\<close>

inductive DialContext ::
    "(string \<Rightarrow> go_error + netip_addr list) \<Rightarrow> Resolver \<Rightarrow> string \<Rightarrow> Address \<Rightarrow> dial_result \<Rightarrow> (string \<times> duration) list \<Rightarrow> bool"
  for lookup r network addr where
  refused: "DialContext lookup r network addr (None, Some e) []"
    if "Resolve lookup ctxErr pick addr r = (Inl e, r')"
| sequential: "DialContext lookup r network addr res log"
    if "Resolve lookup ctxErr pick addr r = (Inr addresses, r')" "plan_dial network addresses = Sequential as"
       "dialAddresses env as = (res, log)"
| raced: "DialContext lookup r network addr res (dialled s)"
    if "Resolve lookup ctxErr pick addr r = (Inr addresses, r')" "plan_dial network addresses = Race p f"
       "(race_step p f)\<^sup>*\<^sup>* race_init s" "ret s = Some res"

section \<open>Lemmas on dialling\<close>

definition good_result :: "dial_result \<Rightarrow> bool" where
  "good_result res = ((\<exists>c. res = (Some c, None)) \<or> (\<exists>e. res = (None, Some e)))"

lemma dial_loop_good: "as \<noteq> [] \<or> lastErr \<noteq> None \<Longrightarrow> dial_loop env i lastErr as = (res, log) \<Longrightarrow> good_result res"
  by (induction env i lastErr as arbitrary: log rule: dial_loop.induct)
     (auto simp: Let_def good_result_def split: if_splits sum.splits option.splits prod.splits)

lemma dialAddresses_good: "as \<noteq> [] \<Longrightarrow> dialAddresses env as = (res, log) \<Longrightarrow> good_result res"
  using dial_loop_good [of as None env 0] by (simp add: dialAddresses_def)

lemma dial_timeout_le: "dial_timeout u n \<le> 10 * second"
  by (auto simp: dial_timeout_def Let_def split: option.splits)

lemma dial_loop_log:
  "dial_loop env i lastErr as = (res, log) \<Longrightarrow>
   (\<exists>n \<le> length as. map fst log = map Address_String (take n as)) \<and>
   (\<forall>(e, t) \<in> set log. 0 < t \<and> t \<le> 10 * second)"
proof (induction env i lastErr as arbitrary: res log rule: dial_loop.induct)
  case (2 env i lastErr a as)
  let ?t = "dial_timeout (until_deadline (env i)) (length (a # as))"
  consider (none) "log = []" | (one) "0 < ?t" "log = [(Address_String a, ?t)]"
    | (more) res' log' e where "0 < ?t" "outcome (env i) = Inl e" "ctx_err (env i) = None"
        "dial_loop env (i + 1) (Some e) as = (res', log')" "log = (Address_String a, ?t) # log'"
    using "2.prems" by (auto simp: Let_def split: if_splits sum.splits option.splits prod.splits)
  then show ?case
  proof cases
    case none
    then show ?thesis by (intro conjI exI [of _ 0]) auto
  next
    case one
    with dial_timeout_le show ?thesis by (intro conjI exI [of _ 1]) auto
  next
    case more
    from "2.IH" [OF refl _ more(2,3,4)] more(1) obtain n where
      "n \<le> length as" "map fst log' = map Address_String (take n as)" "\<forall>(e, t) \<in> set log'. 0 < t \<and> t \<le> 10 * second"
      by auto
    with more dial_timeout_le show ?thesis
      by (intro conjI exI [of _ "Suc n"]) auto
  qed
qed simp

lemma dialAddresses_log:
  assumes "dialAddresses env as = (res, log)"
  shows "fst ` set log \<subseteq> Address_String ` set as" and "\<forall>(e, t) \<in> set log. 0 < t \<and> t \<le> 10 * second"
proof -
  from dial_loop_log [OF assms [unfolded dialAddresses_def]] obtain n where
    n: "map fst log = map Address_String (take n as)" and t: "\<forall>(e, t) \<in> set log. 0 < t \<and> t \<le> 10 * second"
    by auto
  from n have "fst ` set log = Address_String ` set (take n as)"
    by (metis list.set_map)
  then show "fst ` set log \<subseteq> Address_String ` set as"
    by (auto dest: in_set_takeD)
  show "\<forall>(e, t) \<in> set log. 0 < t \<and> t \<le> 10 * second"
    by (rule t)
qed


definition runner_good :: "runner \<Rightarrow> bool" where
  "runner_good x = (case x of Dialled r \<Rightarrow> good_result r | Delivered r \<Rightarrow> good_result r | Closed r \<Rightarrow> good_result r | _ \<Rightarrow> True)"

lemma runner_good_simps [simp]:
  "runner_good Idle" "runner_good Dialing" "runner_good (Dialled res) = good_result res"
  "runner_good (Delivered res) = good_result res" "runner_good (Closed res) = good_result res"
  by (simp_all add: runner_good_def)

definition runners_inv :: "race \<Rightarrow> bool" where
  "runners_inv s =
     (prim s \<noteq> Idle \<and> (fall s = Idle \<longleftrightarrow> \<not> started s) \<and> runner_good (prim s) \<and> runner_good (fall s))"

lemma good_result_cases [consumes 1]:
  assumes "good_result res"
  obtains (ok) c where "res = (Some c, None)" | (failed) e where "res = (None, Some e)"
  using assms by (auto simp: good_result_def)

lemma on_result_ok [simp]: "on_result (c, None) s = s\<lparr>ret := Some (c, None)\<rparr>"
  by (simp add: on_result_def)

lemma on_result_first [simp]: "firstErr s = None \<Longrightarrow> on_result (c, Some e) s = start_fallback (s\<lparr>firstErr := Some e\<rparr>)"
  by (simp add: on_result_def)

lemma on_result_second [simp]:
  "firstErr s = Some f \<Longrightarrow> on_result (c, Some e) s = s\<lparr>ret := Some (None, Some (Joined f e))\<rparr>"
  by (simp add: on_result_def)

lemma start_fallback_simps [simp]:
  "prim (start_fallback s) = prim s" "started (start_fallback s)" "ret (start_fallback s) = ret s"
  "parent (start_fallback s) = parent s" "firstErr (start_fallback s) = firstErr s" "dialled (start_fallback s) = dialled s"
  "fall (start_fallback s) = (if started s then fall s else Dialing)"
  by (simp_all add: start_fallback_def)

lemma on_result_simps [simp]:
  "prim (on_result got s) = prim s" "parent (on_result got s) = parent s" "dialled (on_result got s) = dialled s"
  by (simp_all add: on_result_def split: option.splits)

lemma runners_inv_step:
  assumes "race_step p f s t" "p \<noteq> []" "f \<noteq> []" "runners_inv s"
  shows "runners_inv t"
  using assms(1)
proof cases
  case (prim_result res)
  then show ?thesis using assms(4)
    by (cases "snd res"; cases "firstErr s") (auto simp: runners_inv_def on_result_def)
next
  case (fall_result res)
  then show ?thesis using assms(4)
    by (cases "snd res"; cases "firstErr s") (auto simp: runners_inv_def on_result_def)
qed (use assms(2-4) in \<open>auto simp: runners_inv_def dest: dialAddresses_good\<close>)

text \<open>While the main loop waits: at most one goroutine has reported, and it reported the error
  the loop remembers, after which the fallback runs.\<close>

definition waiting_inv :: "race \<Rightarrow> bool" where
  "waiting_inv s = (ret s = None \<longrightarrow>
     (parent s = None \<longrightarrow> (\<forall>r. prim s \<noteq> Closed r \<and> fall s \<noteq> Closed r)) \<and>
     (case firstErr s of
        None \<Rightarrow> (\<forall>r. prim s \<noteq> Delivered r \<and> fall s \<noteq> Delivered r)
      | Some e \<Rightarrow> started s \<and>
          (prim s = Delivered (None, Some e) \<and> (\<forall>r. fall s \<noteq> Delivered r) \<or>
           fall s = Delivered (None, Some e) \<and> (\<forall>r. prim s \<noteq> Delivered r))))"

lemma waiting_inv_step:
  assumes "race_step p f s t" "runners_inv s" "waiting_inv s"
  shows "waiting_inv t"
  using assms(1)
proof cases
  case (prim_result res)
  then have "good_result res"
    using assms(2) by (simp add: runners_inv_def)
  then show ?thesis
    by (cases rule: good_result_cases; cases "firstErr s")
       (use prim_result assms(3) in \<open>auto simp: waiting_inv_def\<close>)
next
  case (fall_result res)
  then have "good_result res" "started s"
    using assms(2) by (auto simp: runners_inv_def)
  then show ?thesis
    by (cases rule: good_result_cases; cases "firstErr s")
       (use fall_result assms(3) in \<open>auto simp: waiting_inv_def\<close>)
qed (use assms(2,3) in \<open>auto simp: waiting_inv_def runners_inv_def split: option.splits\<close>)

text \<open>After it has returned: with a connection a goroutine handed over, or with the error of the
  context, or with the errors of both goroutines.\<close>

definition both_failed :: "race \<Rightarrow> go_error \<Rightarrow> bool" where
  "both_failed s e =
     (\<exists>e1 e2. prim s = Delivered (None, Some e1) \<and> fall s = Delivered (None, Some e2) \<and>
        (e = Joined e1 e2 \<or> e = Joined e2 e1))"

definition returned_inv :: "race \<Rightarrow> bool" where
  "returned_inv s = (case ret s of
       None \<Rightarrow> True
     | Some (None, None) \<Rightarrow> False
     | Some (Some c, Some e) \<Rightarrow> False
     | Some (Some c, None) \<Rightarrow> prim s = Delivered (Some c, None) \<or> fall s = Delivered (Some c, None)
     | Some (None, Some e) \<Rightarrow> parent s = Some e \<or> both_failed s e)"

text \<open>A connection that was handed over is the one returned.\<close>

definition handed_inv :: "race \<Rightarrow> bool" where
  "handed_inv s = (\<forall>c. prim s = Delivered (Some c, None) \<or> fall s = Delivered (Some c, None) \<longrightarrow> ret s = Some (Some c, None))"

lemma returned_inv_waiting: "ret s = None \<Longrightarrow> returned_inv s"
  by (simp add: returned_inv_def)

lemma waiting_failed:
  assumes "waiting_inv s" "ret s = None"
  shows "prim s \<noteq> Delivered (Some c, x) \<and> fall s \<noteq> Delivered (Some c, x)"
  using assms by (cases "firstErr s") (auto simp: waiting_inv_def)

lemma returned_inv_step:
  assumes "race_step p f s t" "runners_inv s" "waiting_inv s" "returned_inv s"
  shows "returned_inv t"
  using assms(1)
proof cases
  case (prim_result res)
  then have "good_result res"
    using assms(2) by (simp add: runners_inv_def)
  then show ?thesis
    by (cases rule: good_result_cases; cases "firstErr s")
       (use prim_result assms(3) in \<open>auto simp: waiting_inv_def returned_inv_def both_failed_def\<close>)
next
  case (fall_result res)
  then have "good_result res"
    using assms(2) by (simp add: runners_inv_def)
  then show ?thesis
    by (cases rule: good_result_cases; cases "firstErr s")
       (use fall_result assms(3) in \<open>auto simp: waiting_inv_def returned_inv_def both_failed_def\<close>)
qed (use assms(4) in \<open>auto simp: returned_inv_def both_failed_def split: option.splits prod.splits\<close>)

lemma handed_inv_step:
  assumes "race_step p f s t" "runners_inv s" "waiting_inv s" "handed_inv s"
  shows "handed_inv t"
  using assms(1)
proof cases
  case (prim_result res)
  then have "good_result res"
    using assms(2) by (simp add: runners_inv_def)
  then show ?thesis
    using waiting_failed [OF assms(3) prim_result(2)] prim_result
    by (cases rule: good_result_cases; cases "firstErr s") (auto simp: handed_inv_def)
next
  case (fall_result res)
  then have "good_result res"
    using assms(2) by (simp add: runners_inv_def)
  then show ?thesis
    using waiting_failed [OF assms(3) fall_result(2)] fall_result
    by (cases rule: good_result_cases; cases "firstErr s") (auto simp: handed_inv_def)
next
  case (ctx_done e)
  with waiting_failed [OF assms(3)] show ?thesis
    by (auto simp: handed_inv_def)
qed (use assms(4) in \<open>auto simp: handed_inv_def\<close>)

text \<open>Everything dialled is an address of the two groups, with a timeout of at most ten
  seconds.\<close>

definition log_ok :: "Address list \<Rightarrow> (string \<times> duration) list \<Rightarrow> bool" where
  "log_ok as log =
     (fst ` set log \<subseteq> Address_String ` set as \<and> (\<forall>(e, t) \<in> set log. 0 < t \<and> t \<le> 10 * second))"

lemma log_ok_append: "log_ok as (xs @ ys) \<longleftrightarrow> log_ok as xs \<and> log_ok as ys"
  by (auto simp: log_ok_def)

lemma log_ok_member:
  assumes "log_ok as log" "(e, t) \<in> set log"
  obtains b where "b \<in> set as" "e = Address_String b" "0 < t" "t \<le> 10 * second"
proof -
  have "e \<in> fst ` set log"
    using assms(2) by (rule image_eqI [rotated]) simp
  with assms that show thesis
    unfolding log_ok_def by blast
qed

lemma log_ok_mono: "log_ok as log \<Longrightarrow> set as \<subseteq> set bs \<Longrightarrow> log_ok bs log"
  unfolding log_ok_def by (blast intro: order_trans [OF _ image_mono])

lemma log_ok_dial: "dialAddresses env as = (res, log) \<Longrightarrow> log_ok as log"
  using dialAddresses_log by (simp add: log_ok_def)

lemma log_ok_step:
  assumes "race_step p f s t" "log_ok (p @ f) (dialled s)"
  shows "log_ok (p @ f) (dialled t)"
  using assms(1) by cases (use assms(2) in \<open>auto simp: log_ok_append intro: log_ok_mono [OF log_ok_dial]\<close>)

definition race_inv :: "Address list \<Rightarrow> Address list \<Rightarrow> race \<Rightarrow> bool" where
  "race_inv p f s =
     (runners_inv s \<and> waiting_inv s \<and> returned_inv s \<and> handed_inv s \<and> log_ok (p @ f) (dialled s))"

definition race_start :: "Address list \<Rightarrow> Address list \<Rightarrow> race \<Rightarrow> bool" where
  "race_start p f s = (s = race_init \<and> p \<noteq> [] \<and> f \<noteq> [])"

text \<open>The two groups are not empty, or there is no race.\<close>

definition real_step :: "Address list \<Rightarrow> Address list \<Rightarrow> race \<Rightarrow> race \<Rightarrow> bool" where
  "real_step p f s t = (p \<noteq> [] \<and> f \<noteq> [] \<and> race_step p f s t)"

lemma race_inv_init: "race_inv p f race_init"
  by (simp add: race_inv_def race_init_def runners_inv_def waiting_inv_def returned_inv_def handed_inv_def log_ok_def)

lemma race_inv_step: "race_inv p f s \<Longrightarrow> real_step p f s t \<Longrightarrow> race_inv p f t"
  unfolding race_inv_def real_step_def
  using runners_inv_step waiting_inv_step returned_inv_step handed_inv_step log_ok_step by blast

interpretation race: inductive_invariant "race_start p f" "real_step p f" "race_inv p f" for p f
  by unfold_locales (auto simp: race_start_def race_inv_init intro: race_inv_step)

lemma plan_dial_Race:
  assumes "plan_dial network as = Race p f" "as \<noteq> []"
  shows "p \<noteq> []" "f \<noteq> []" "set p \<union> set f = set as"
proof -
  from assms(1) have p: "p = filter (\<lambda>a. Atyp a = Atyp (hd as)) as"
    and f: "f = filter (\<lambda>a. Atyp a \<noteq> Atyp (hd as)) as" "f \<noteq> []"
    unfolding plan_dial_def Let_def by (metis dial_plan.distinct(1) dial_plan.inject(2))+
  have "hd as \<in> set p"
    using assms(2) by (simp add: p)
  then show "p \<noteq> []" by auto
  show "f \<noteq> []" by (rule f(2))
  show "set p \<union> set f = set as"
    unfolding p f(1) by auto
qed

lemma plan_dial_Sequential:
  assumes "plan_dial network as = Sequential bs" "as \<noteq> []"
  shows "bs \<noteq> [] \<and> set bs \<subseteq> set as"
proof -
  have "bs = as \<or> bs = filter (\<lambda>a. Atyp a = Atyp (hd as)) as"
    using assms(1) unfolding plan_dial_def Let_def by (metis dial_plan.distinct(1) dial_plan.inject(1))
  moreover have "hd as \<in> set (filter (\<lambda>a. Atyp a = Atyp (hd as)) as)"
    using assms(2) by simp
  ultimately show ?thesis
    using assms(2) by (metis filter_is_subset length_greater_0_conv length_pos_if_in_set order_refl)
qed

lemma reachable_race_inv:
  assumes "(race_step p f)\<^sup>*\<^sup>* race_init s" "p \<noteq> []" "f \<noteq> []"
  shows "race_inv p f s"
proof (rule race.inv_reachable)
  show "race_start p f race_init"
    using assms by (simp add: race_start_def)
  have "race_step p f = real_step p f"
    using assms by (intro ext) (simp add: real_step_def)
  then show "(real_step p f)\<^sup>*\<^sup>* race_init s"
    using assms(1) by simp
qed

section \<open>Progress\<close>

primrec runner_rank :: "runner \<Rightarrow> nat" where
  "runner_rank Idle = 3"
| "runner_rank Dialing = 2"
| "runner_rank (Dialled r) = 1"
| "runner_rank (Delivered r) = 0"
| "runner_rank (Closed r) = 0"

text \<open>How many steps a race can still take.\<close>

definition race_rank :: "race \<Rightarrow> nat" where
  "race_rank s = runner_rank (prim s) + (if started s then runner_rank (fall s) else 3) +
     of_bool (parent s = None) + of_bool (ret s = None) + of_bool (\<not> fired s)"

lemma race_rank_start: "race_rank (start_fallback s) \<le> race_rank s"
  by (simp add: race_rank_def start_fallback_def)

lemma race_rank_result: "race_rank (on_result res s) \<le> race_rank s"
proof -
  have "race_rank (s\<lparr>firstErr := x\<rparr>) = race_rank s" for x
    by (simp add: race_rank_def)
  then show ?thesis
    using race_rank_start [of "s\<lparr>firstErr := Some e\<rparr>" for e]
    by (auto simp: on_result_def race_rank_def [of "s\<lparr>ret := y\<rparr>" for y] race_rank_def [of s] split: option.splits)
qed

lemma race_rank_step:
  assumes "race_step p f s t" "runners_inv s"
  shows "race_rank t < race_rank s"
  using assms(1)
proof cases
  case timer
  have "race_rank (s\<lparr>fired := True\<rparr>) < race_rank s"
    using timer by (simp add: race_rank_def)
  with race_rank_start [of "s\<lparr>fired := True\<rparr>"] timer show ?thesis by simp
next
  case (prim_result res)
  then have "race_rank (s\<lparr>prim := Delivered res\<rparr>) < race_rank s"
    by (simp add: race_rank_def)
  with race_rank_result [of res "s\<lparr>prim := Delivered res\<rparr>"] prim_result show ?thesis by simp
next
  case (fall_result res)
  then have "race_rank (s\<lparr>fall := Delivered res\<rparr>) < race_rank s"
    using assms(2) by (auto simp: race_rank_def runners_inv_def)
  with race_rank_result [of res "s\<lparr>fall := Delivered res\<rparr>"] fall_result show ?thesis by simp
qed (use assms(2) in \<open>auto simp: race_rank_def runners_inv_def\<close>)

lemma dialing_step:
  assumes "prim s = Dialing \<or> fall s = Dialing"
  shows "\<exists>t. race_step p f s t \<and> parent t = parent s"
proof -
  fix env
  obtain r l where "dialAddresses env p = (r, l)" by fastforce
  moreover obtain r' l' where "dialAddresses env f = (r', l')" by fastforce
  ultimately show ?thesis
    using assms race_step.prim_dialled [of s env p r l f] race_step.fall_dialled [of s env f r' l' p] by force
qed

lemma dialled_step:
  assumes "prim s = Dialled res \<or> fall s = Dialled res"
  shows "\<exists>t. race_step p f s t \<and> parent t = parent s"
proof (cases "ret s = None")
  case True
  with assms race_step.prim_result [of s res p f] race_step.fall_result [of s res p f] show ?thesis
    by force
next
  case False
  with assms race_step.prim_closed [of s res p f] race_step.fall_closed [of s res p f] show ?thesis
    by force
qed

lemma waiting_step:
  assumes "race_inv p f s" "ret s = None"
  shows "\<exists>t. race_step p f s t \<and> parent t = parent s"
proof (cases "parent s")
  case (Some e)
  with assms race_step.ctx_done [of s e p f] show ?thesis by force
next
  case None
  with assms have "prim s = Dialing \<or> fall s = Dialing \<or> (\<exists>res. prim s = Dialled res \<or> fall s = Dialled res)"
    by (cases "prim s"; cases "fall s"; cases "firstErr s")
       (auto simp: race_inv_def runners_inv_def waiting_inv_def)
  with dialing_step dialled_step show ?thesis by blast
qed

definition finished :: "dial_result \<Rightarrow> runner \<Rightarrow> bool" where
  "finished res g =
     (g = Idle \<or> (\<exists>x. g = Closed x) \<or> (\<exists>x. g = Delivered x \<and> (fst x \<noteq> None \<longrightarrow> x = res)))"

lemma finishedI:
  assumes "g \<noteq> Dialing" "\<And>x. g \<noteq> Dialled x" "runner_good g" "\<And>c. g = Delivered (Some c, None) \<Longrightarrow> res = (Some c, None)"
  shows "finished res g"
  using assms by (cases g) (auto simp: finished_def good_result_def)

lemma race_rank_init: "race_rank race_init = 8"
  by (simp add: race_rank_def race_init_def)

section \<open>Properties\<close>

text \<open>C2: Only approved addresses are dialled. Whatever the DNS and the network answer and
  however the race of the address families goes, every endpoint \<open>DialContext\<close> dials is the
  text of a numeric address that \<open>Resolve\<close> returned for this destination, that no deny rule
  of the policy matches, and its dial timeout is positive and at most ten seconds.\<close>

theorem DialContext_only_approved:
  assumes "DialContext lookup r network addr res log" and "(endpoint, timeout) \<in> set log"
  shows "0 < timeout \<and> timeout \<le> 10 * second \<and>
    (\<exists>ctxErr pick out r' b. Resolve lookup ctxErr pick addr r = (Inr out, r') \<and> b \<in> set out \<and>
       endpoint = Address_String b \<and> Atyp b \<noteq> AtypDomain \<and>
       (\<forall>l. policy r = Some l \<longrightarrow> \<not> matchAny (denyHosts l) b))"
proof -
  from assms obtain ctxErr pick out r' where ok: "Resolve lookup ctxErr pick addr r = (Inr out, r')" "log_ok out log"
  proof cases
    case (sequential ctxErr pick addresses r' as env)
    then show thesis
      using that plan_dial_Sequential Resolve_not_Nil log_ok_mono [OF log_ok_dial] by meson
  next
    case (raced ctxErr pick addresses r' p f s)
    note pf = plan_dial_Race [OF raced(3) Resolve_not_Nil [OF raced(2)]]
    from reachable_race_inv [OF raced(4) pf(1,2)] have "log_ok (p @ f) (dialled s)"
      by (simp add: race_inv_def)
    moreover have "set (p @ f) \<subseteq> set addresses"
      using pf(3) by simp
    ultimately have "log_ok addresses (dialled s)"
      by (rule log_ok_mono)
    with raced(2) show thesis
      unfolding raced(1) [symmetric] by (rule that)
  qed simp
  from ok(2) assms(2) obtain b where "b \<in> set out" "endpoint = Address_String b" "0 < timeout" "timeout \<le> 10 * second"
    by (rule log_ok_member)
  with Resolve_policy [OF ok(1)] ok(1) show ?thesis by blast
qed

theorem DialContext_only_approved_witness:
  "let a = \<lparr>Atyp = AtypIPv4, Host = [], IP = [10, 0, 0, 1], Port = 80\<rparr>
   in DialContext (\<lambda>h. Inl ErrBusy) (NewResolver None 0 0) ''tcp'' a (Some 7, None) [(Address_String a, 10 * second)] \<and>
      (\<exists>b. Address_String a = Address_String b \<and> Atyp b \<noteq> AtypDomain)"
proof -
  let ?a = "\<lparr>Atyp = AtypIPv4, Host = [], IP = [10, 0, 0, 1], Port = 80\<rparr> :: Address"
  let ?r = "NewResolver None 0 0" and ?lookup = "\<lambda>h. Inl ErrBusy :: go_error + netip_addr list"
  let ?env = "\<lambda>i. \<lparr>until_deadline = None, outcome = Inr 7, ctx_err = None\<rparr> :: attempt"
  have "Resolve ?lookup None True ?a ?r = (Inr [?a], ?r)"
    by (simp add: Resolve_def resolve_begin_def normalized_def normalized_ip_def Allowed_def portsAllowed_def NewResolver_def)
  moreover have "plan_dial ''tcp'' [?a] = Sequential [?a]"
    by (simp add: plan_dial_def)
  moreover have "dialAddresses ?env [?a] = ((Some 7, None), [(Address_String ?a, 10 * second)])"
    by (simp add: dialAddresses_def dial_timeout_def second_def)
  ultimately have d: "DialContext ?lookup ?r ''tcp'' ?a (Some 7, None) [(Address_String ?a, 10 * second)]"
    by (rule DialContext.sequential)
  have "(Address_String ?a, 10 * second) \<in> set [(Address_String ?a, 10 * second)]"
    by (rule list.set_intros)
  from DialContext_only_approved [OF d this]
  have "\<exists>b. Address_String ?a = Address_String b \<and> Atyp b \<noteq> AtypDomain"
    by blast
  with d show ?thesis
    unfolding Let_def by (rule conjI)
qed


text \<open>C12: The race terminates: every step of the main loop, of a goroutine, of the timer or of
  the context decreases a rank that is 8 at the start, so no run has more than 8 steps.\<close>

theorem race_terminates:
  assumes "(race_step p f)\<^sup>*\<^sup>* race_init s" and "p \<noteq> []" and "f \<noteq> []" and "race_step p f s t"
  shows "race_rank t < race_rank s \<and> race_rank s \<le> race_rank race_init \<and> race_rank race_init = 8"
proof -
  have "race_rank s' \<le> race_rank race_init" if "(race_step p f)\<^sup>*\<^sup>* race_init s'" for s'
    using that
  proof (induction rule: rtranclp_induct)
    case (step y z)
    with reachable_race_inv [OF step(1) assms(2,3)] race_rank_step [of p f y z] show ?case
      by (simp add: race_inv_def)
  qed simp
  with assms(1) race_rank_step [OF assms(4)] reachable_race_inv [OF assms(1-3)] show ?thesis
    by (simp add: race_inv_def race_rank_init)
qed

theorem race_terminates_witness:
  "\<exists>p f s. (race_step p f) race_init s \<and> race_rank s < 8"
proof -
  let ?a = "\<lparr>Atyp = AtypIPv4, Host = [], IP = [10, 0, 0, 1], Port = 80\<rparr> :: Address"
  have st: "race_step [?a] [?a] race_init (race_init\<lparr>parent := Some Canceled\<rparr>)"
    by (rule race_step.cancelled) (simp add: race_init_def)
  from race_terminates [OF rtranclp.rtrancl_refl _ _ st] have "race_rank (race_init\<lparr>parent := Some Canceled\<rparr>) < 8"
    by simp
  with st show ?thesis by blast
qed


end
