(* ===== verification/Udp_Nat.thy ===== *)
theory Udp_Nat
  imports Protocol_Frame Acl_Dial "HOL-Library.AList" Complex_Main
begin

text \<open>
  \<open>internal/server/udp.go\<close>: the UDP relay of one tunnel connection. The first part has the
  operations in the order of the source, each cut where the mutex is released, so that a
  goroutine is a sequence of them; the second part interleaves the receive loop, the workers,
  the packet worker, the reply pumps and \<open>close\<close>. Flow objects live in a heap (\<open>nheap\<close>), a
  pointer is an index. Calls of the metrics are logged (\<open>ndrops\<close>, \<open>ngauge\<close>). Tokens are
  rationals where the source has \<open>float64\<close>.
\<close>

section \<open>Options\<close>

record UDPOptions =
  MaxFlows :: int
  QueueSize :: int
  Workers :: int
  NewFlowsPerSecond :: int
  MaxPayload :: int
  IdleTimeout :: duration

definition defaults :: "UDPOptions \<Rightarrow> UDPOptions" where
  "defaults o1 =
     (let o1 = (if MaxFlows o1 \<le> 0 then o1\<lparr>MaxFlows := 256\<rparr> else o1);
          o1 = (if QueueSize o1 \<le> 0 then o1\<lparr>QueueSize := 128\<rparr> else o1);
          o1 = (if Workers o1 \<le> 0 then o1\<lparr>Workers := 4\<rparr> else o1);
          o1 = (if MaxFlows o1 < Workers o1 then o1\<lparr>Workers := MaxFlows o1\<rparr> else o1);
          o1 = (if NewFlowsPerSecond o1 \<le> 0 then o1\<lparr>NewFlowsPerSecond := 32\<rparr> else o1);
          o1 = (if MaxPayload o1 \<le> 0 \<or> int MaxUDPPayload < MaxPayload o1
                then o1\<lparr>MaxPayload := int MaxUDPPayload\<rparr> else o1)
      in if IdleTimeout o1 \<le> 0 then o1\<lparr>IdleTimeout := 60 * second\<rparr> else o1)"

section \<open>State\<close>

record udpFlow =
  fsock :: conn
  fsession :: u64
  ftarget :: Address
  lastSeen :: instant

record udpPacket =
  pflow :: nat
  ppayload :: bytes

record udpNAT =
  nopt :: UDPOptions
  nauth :: bool
  ncancelled :: bool
  nqueue :: "Datagram list"
  npackets :: "udpPacket list"
  nflows :: "(string \<times> nat) list"
  npending :: "string list"
  nclosed :: bool
  ntokens :: rat
  ntokenTime :: instant
  nheap :: "udpFlow list"
  ndrops :: "string list"
  ngauge :: int
  nsock_closed :: "conn list"
  nsent :: "bytes list"

definition makeUDPNAT :: "UDPOptions \<Rightarrow> instant \<Rightarrow> udpNAT" where
  "makeUDPNAT opt now =
     \<lparr>nopt = defaults opt, nauth = False, ncancelled = False, nqueue = [], npackets = [], nflows = [],
      npending = [], nclosed = False, ntokens = of_int (NewFlowsPerSecond (defaults opt)),
      ntokenTime = now, nheap = [], ndrops = [], ngauge = 0, nsock_closed = [], nsent = []\<rparr>"

definition flowKey :: "u64 \<Rightarrow> string \<Rightarrow> string" where
  "flowKey sessionID target = Itoa (unat sessionID) @ ''|'' @ target"

definition drop_metric :: "string \<Rightarrow> udpNAT \<Rightarrow> udpNAT" where
  "drop_metric reason n = n\<lparr>ndrops := ndrops n @ [reason]\<rparr>"

section \<open>The receive loop\<close>

definition forward :: "Datagram \<Rightarrow> udpNAT \<Rightarrow> udpNAT" where
  "forward dg n =
     (if \<not> nauth n then drop_metric ''auth'' n
      else if MaxPayload (nopt n) < int (length (Payload dg)) then drop_metric ''size'' n
      else if ncancelled n then drop_metric ''closed'' n
      else (case map_of (nflows n) (flowKey (SessionID dg) (Address_String (DAddr dg))) of
          Some f \<Rightarrow>
            if int (length (npackets n)) < QueueSize (nopt n)
            then n\<lparr>npackets := npackets n @ [\<lparr>pflow = f, ppayload = Payload dg\<rparr>]\<rparr>
            else drop_metric ''queue'' n
        | None \<Rightarrow>
            if int (length (nqueue n)) < QueueSize (nopt n)
            then n\<lparr>nqueue := nqueue n @ [dg]\<rparr>
            else drop_metric ''queue'' n))"

definition serveDatagram :: "bytes \<Rightarrow> udpNAT \<Rightarrow> udpNAT" where
  "serveDatagram data n =
     (if \<not> nauth n then drop_metric ''auth'' n
      else if MaxUDPDatagramSize < length data then drop_metric ''size'' n
      else (case DecodeDatagram data of
          Inl e \<Rightarrow> drop_metric ''invalid'' n
        | Inr dg \<Rightarrow> forward dg n))"

section \<open>Sending\<close>

text \<open>The token bucket: refill up to one second's worth, then take one if there is one.\<close>

definition refill :: "int \<Rightarrow> instant \<Rightarrow> rat \<times> instant \<Rightarrow> rat" where
  "refill rate now b =
     (case b of (tokens, tokenTime) \<Rightarrow>
        let tokens = tokens + of_int (now - tokenTime) / of_int second * of_int rate
        in if of_int rate < tokens then of_int rate else tokens)"

definition take_token :: "int \<Rightarrow> instant \<Rightarrow> rat \<times> instant \<Rightarrow> bool \<times> (rat \<times> instant)" where
  "take_token rate now b =
     (let tokens = refill rate now b
      in if tokens < 1 then (False, tokens, now) else (True, tokens - 1, now))"

text \<open>\<open>send\<close> up to the dial: nothing more to do, a write on a flow, or a dial for a key.\<close>

datatype send_next = Finished | WriteTo_flow nat | DialFor string

definition send_begin :: "instant \<Rightarrow> Datagram \<Rightarrow> udpNAT \<Rightarrow> send_next \<times> udpNAT" where
  "send_begin now dg n =
     (let key = flowKey (SessionID dg) (Address_String (DAddr dg))
      in if nclosed n then (Finished, n)
         else (case map_of (nflows n) key of
             Some f \<Rightarrow> (WriteTo_flow f, n\<lparr>nheap := (nheap n)[f := (nheap n ! f)\<lparr>lastSeen := now\<rparr>]\<rparr>)
           | None \<Rightarrow>
               if key \<in> set (npending n) then (Finished, drop_metric ''queue'' n)
               else if MaxFlows (nopt n) \<le> int (length (nflows n)) + int (length (npending n))
                 then (Finished, drop_metric ''limit'' n)
               else (case take_token (NewFlowsPerSecond (nopt n)) now (ntokens n, ntokenTime n) of
                   (ok, tokens, tokenTime) \<Rightarrow>
                     let n = n\<lparr>ntokens := tokens, ntokenTime := tokenTime\<rparr>
                     in if \<not> ok then (Finished, drop_metric ''rate'' n)
                        else (DialFor key, n\<lparr>npending := npending n @ [key]\<rparr>))))"

text \<open>The rest of \<open>send\<close>, with what the dial returned (an error or a connection, never both, see
  \<open>Acl_Dial\<close>) and whether it is a UDP socket. A new flow is stored, counted, and its pump
  started; its pointer is returned for the first write.\<close>

definition dial_drop :: "go_error \<Rightarrow> string" where
  "dial_drop err =
     (if errors_Is err ErrDenied then ''acl'' else if errors_Is err ErrBusy then ''limit'' else ''dns'')"

definition send_finish ::
    "instant \<Rightarrow> string \<Rightarrow> Datagram \<Rightarrow> go_error + conn \<Rightarrow> bool \<Rightarrow> udpNAT \<Rightarrow> nat option \<times> udpNAT" where
  "send_finish now key dg res is_udp n =
     (let n = n\<lparr>npending := removeAll key (npending n)\<rparr>
      in case res of
           Inl e \<Rightarrow> (None, drop_metric (dial_drop e) n)
         | Inr remote \<Rightarrow>
             if nclosed n then (None, n\<lparr>nsock_closed := nsock_closed n @ [remote]\<rparr>)
             else if \<not> is_udp then
               (None, drop_metric ''send'' (n\<lparr>nsock_closed := nsock_closed n @ [remote]\<rparr>))
             else
               (Some (length (nheap n)),
                n\<lparr>nheap := nheap n @ [\<lparr>fsock = remote, fsession = SessionID dg, ftarget = DAddr dg, lastSeen = now\<rparr>],
                  nflows := AList.update key (length (nheap n)) (nflows n),
                  ngauge := ngauge n + 1\<rparr>))"

text \<open>\<open>write\<close> under the lock: whether the socket is written to.\<close>

definition write_begin :: "instant \<Rightarrow> nat \<Rightarrow> udpNAT \<Rightarrow> bool \<times> udpNAT" where
  "write_begin now f n =
     (if nclosed n then (False, n)
      else (True, n\<lparr>nheap := (nheap n)[f := (nheap n ! f)\<lparr>lastSeen := now\<rparr>]\<rparr>))"

definition write_end :: "go_error option \<Rightarrow> udpNAT \<Rightarrow> udpNAT" where
  "write_end err n = (if err \<noteq> None then drop_metric ''send'' n else n)"

section \<open>Replies\<close>

definition pump_continues :: "udpNAT \<Rightarrow> bool" where
  "pump_continues n = (\<not> (nclosed n \<or> ncancelled n))"

definition pump_deadline :: "nat \<Rightarrow> udpNAT \<Rightarrow> instant" where
  "pump_deadline f n = lastSeen (nheap n ! f) + IdleTimeout (nopt n)"

text \<open>One read of the pump: the bytes and the error of \<open>Read\<close>, the time, and the answer of
  \<open>SendDatagram\<close>. The result says whether the loop goes on.\<close>

definition pump_read ::
    "nat \<Rightarrow> instant \<Rightarrow> bytes \<Rightarrow> go_error option \<Rightarrow> go_error option \<Rightarrow> udpNAT \<Rightarrow> bool \<times> udpNAT" where
  "pump_read f now buf err sendErr n =
     (if MaxPayload (nopt n) < int (length buf) then (True, drop_metric ''size'' n)
      else (case err of
          Some e \<Rightarrow>
            if errors_Is e NetErrClosed \<or> ncancelled n then (False, n)
            else if as_net_error e = Some True \<and> \<not> IdleTimeout (nopt n) \<le> now - lastSeen (nheap n ! f)
              then (True, n)
            else (False, n)
        | None \<Rightarrow>
            let n = n\<lparr>nheap := (nheap n)[f := (nheap n ! f)\<lparr>lastSeen := now\<rparr>]\<rparr>;
                out = EncodeDatagram (fsession (nheap n ! f)) (ftarget (nheap n ! f)) buf
            in if MaxUDPDatagramSize < length out then (True, drop_metric ''size'' n)
               else (case sendErr of
                   Some e \<Rightarrow> (True, drop_metric ''send'' n)
                 | None \<Rightarrow> (True, n\<lparr>nsent := nsent n @ [out]\<rparr>))))"

text \<open>The deferred cleanup of the pump.\<close>

definition pump_exit :: "string \<Rightarrow> nat \<Rightarrow> udpNAT \<Rightarrow> udpNAT" where
  "pump_exit key f n =
     (let n = n\<lparr>nsock_closed := nsock_closed n @ [fsock (nheap n ! f)]\<rparr>
      in if map_of (nflows n) key = Some f
         then n\<lparr>nflows := AList.delete key (nflows n), ngauge := ngauge n - 1\<rparr>
         else n)"

text \<open>\<open>close\<close> before it waits for the goroutines; \<open>closeOnce\<close> runs it once.\<close>

definition close_nat :: "udpNAT \<Rightarrow> udpNAT" where
  "close_nat n =
     n\<lparr>ncancelled := True, nclosed := True,
       nsock_closed := nsock_closed n @ map (\<lambda>(k, f). fsock (nheap n ! f)) (nflows n)\<rparr>"

section \<open>Interleaving\<close>

text \<open>
  The goroutines of a relay: \<open>idle\<close> workers at their \<open>select\<close>, workers inside a dial
  (\<open>dialing\<close>), workers and the packet worker about to write (\<open>writing\<close>, true for a worker),
  the state of the packet worker, and the pumps with whether they are inside \<open>Read\<close>.
\<close>

datatype packet_worker = Listening | Busy | Gone

record nat_sys =
  relay :: udpNAT
  idle :: nat
  dialing :: "(string \<times> Datagram) list"
  writing :: "(bool \<times> nat) list"
  pworker :: packet_worker
  pumps :: "(string \<times> nat \<times> bool) list"

definition nat_start :: "UDPOptions \<Rightarrow> instant \<Rightarrow> nat_sys" where
  "nat_start opt now =
     \<lparr>relay = makeUDPNAT opt now, idle = nat (Workers (defaults opt)), dialing = [], writing = [],
      pworker = Listening, pumps = []\<rparr>"

text \<open>One round of \<open>worker\<close>, up to the point where it dials, writes or is done.\<close>

definition worker_take :: "instant \<Rightarrow> Datagram \<Rightarrow> Datagram list \<Rightarrow> nat_sys \<Rightarrow> nat_sys" where
  "worker_take now dg rest s =
     (let n = (relay s)\<lparr>nqueue := rest\<rparr>
      in if \<not> ncancelled n \<and> nauth n then
           (case send_begin now dg n of
              (Finished, n) \<Rightarrow> s\<lparr>relay := n\<rparr>
            | (WriteTo_flow f, n) \<Rightarrow> s\<lparr>relay := n, idle := idle s - 1, writing := (True, f) # writing s\<rparr>
            | (DialFor key, n) \<Rightarrow> s\<lparr>relay := n, idle := idle s - 1, dialing := (key, dg) # dialing s\<rparr>)
         else s\<lparr>relay := n\<rparr>)"

definition worker_dialled ::
    "instant \<Rightarrow> string \<Rightarrow> Datagram \<Rightarrow> go_error + conn \<Rightarrow> bool \<Rightarrow> (string \<times> Datagram) list \<Rightarrow> nat_sys \<Rightarrow> nat_sys" where
  "worker_dialled now key dg res is_udp others s =
     (case send_finish now key dg res is_udp (relay s) of
        (None, n) \<Rightarrow> s\<lparr>relay := n, dialing := others, idle := idle s + 1\<rparr>
      | (Some f, n) \<Rightarrow>
          s\<lparr>relay := n, dialing := others, pumps := (key, f, False) # pumps s, writing := (True, f) # writing s\<rparr>)"

definition packet_take :: "udpPacket \<Rightarrow> udpPacket list \<Rightarrow> nat_sys \<Rightarrow> nat_sys" where
  "packet_take p rest s =
     (let n = (relay s)\<lparr>npackets := rest\<rparr>
      in if \<not> ncancelled n then s\<lparr>relay := n, pworker := Busy, writing := (False, pflow p) # writing s\<rparr>
         else s\<lparr>relay := n\<rparr>)"

definition write_done :: "instant \<Rightarrow> bool \<Rightarrow> nat \<Rightarrow> go_error option \<Rightarrow> (bool \<times> nat) list \<Rightarrow> nat_sys \<Rightarrow> nat_sys" where
  "write_done now by_worker f err others s =
     (let n = (case write_begin now f (relay s) of (False, n) \<Rightarrow> n | (True, n) \<Rightarrow> write_end err n);
          s = s\<lparr>relay := n, writing := others\<rparr>
      in if by_worker then s\<lparr>idle := idle s + 1\<rparr> else s\<lparr>pworker := Listening\<rparr>)"

definition pump_loop :: "string \<Rightarrow> nat \<Rightarrow> bool \<Rightarrow> (string \<times> nat \<times> bool) list \<Rightarrow> nat_sys \<Rightarrow> nat_sys" where
  "pump_loop key f next others s =
     (if next then s\<lparr>pumps := (key, f, False) # others\<rparr>
      else s\<lparr>pumps := others, relay := pump_exit key f (relay s)\<rparr>)"

inductive nat_step :: "nat_sys \<Rightarrow> nat_sys \<Rightarrow> bool" where
  received: "nat_step s (s\<lparr>relay := serveDatagram data (relay s)\<rparr>)"
| authenticated: "nat_step s (s\<lparr>relay := (relay s)\<lparr>nauth := True\<rparr>\<rparr>)"
| cancelled: "nat_step s (s\<lparr>relay := (relay s)\<lparr>ncancelled := True\<rparr>\<rparr>)"
| worker: "nat_step s (worker_take now dg rest s)"
    if "0 < idle s" "nqueue (relay s) = dg # rest" "ntokenTime (relay s) \<le> now"
| dialled: "nat_step s (worker_dialled now key dg res is_udp (xs @ ys) s)"
    if "dialing s = xs @ (key, dg) # ys"
| packet: "nat_step s (packet_take p rest s)"
    if "pworker s = Listening" "npackets (relay s) = p # rest"
| wrote: "nat_step s (write_done now w f err (xs @ ys) s)"
    if "writing s = xs @ (w, f) # ys"
| pump_top: "nat_step s (if pump_continues (relay s) then s\<lparr>pumps := (key, f, True) # xs @ ys\<rparr>
                         else pump_loop key f False (xs @ ys) s)"
    if "pumps s = xs @ (key, f, False) # ys"
| pump_got: "nat_step s (case pump_read f now buf err sendErr (relay s) of
                 (next, n) \<Rightarrow> pump_loop key f next (xs @ ys) (s\<lparr>relay := n\<rparr>))"
    if "pumps s = xs @ (key, f, True) # ys"
| closed: "nat_step s (s\<lparr>relay := close_nat (relay s)\<rparr>)"
    if "\<not> nclosed (relay s)"
| worker_exit: "nat_step s (s\<lparr>idle := idle s - 1\<rparr>)"
    if "0 < idle s" "ncancelled (relay s)"
| packet_exit: "nat_step s (s\<lparr>pworker := Gone\<rparr>)"
    if "pworker s = Listening" "ncancelled (relay s)"

text \<open>All goroutines have ended: what \<open>wg.Wait()\<close> in \<open>close\<close> waits for.\<close>

definition all_done :: "nat_sys \<Rightarrow> bool" where
  "all_done s = (idle s = 0 \<and> dialing s = [] \<and> writing s = [] \<and> pworker s = Gone \<and> pumps s = [])"

end
