(* ===== verification/Udp_Nat_Inv.thy ===== *)
theory Udp_Nat_Inv
  imports Udp_Nat
begin

text \<open>
  Correctness of the UDP relay of \<open>Udp_Nat\<close>. The invariant has six parts, each kept by every
  step of every goroutine: the flow table and the pending dials, the flow objects and their
  sockets, the queues and tokens, the workers, the replies, and silence before authentication.
\<close>

declare drop_metric_def [simp]

section \<open>Association lists\<close>

lemma update_absent: "k \<notin> fst ` set xs \<Longrightarrow> AList.update k v xs = xs @ [(k, v)]"
  by (induction xs) auto

lemma length_delete_present:
  "distinct (map fst xs) \<Longrightarrow> map_of xs k = Some v \<Longrightarrow> Suc (length (AList.delete k xs)) = length xs"
proof (induction xs)
  case (Cons x xs)
  show ?case
  proof (cases "fst x = k")
    case True
    with Cons.prems(1) have "k \<notin> fst ` set xs" by auto
    with True show ?thesis by (cases x) simp
  next
    case False
    with Cons show ?thesis by (cases x) auto
  qed
qed simp

lemma set_delete: "set (AList.delete k xs) = {(k', v) \<in> set xs. k' \<noteq> k}"
  by (auto simp: AList.delete_eq)

section \<open>Options\<close>

definition opt_ok :: "UDPOptions \<Rightarrow> bool" where
  "opt_ok p = (0 < MaxFlows p \<and> 0 < QueueSize p \<and> 0 < Workers p \<and> Workers p \<le> MaxFlows p \<and>
     0 < NewFlowsPerSecond p \<and> 0 < MaxPayload p \<and> MaxPayload p \<le> int MaxUDPPayload \<and> 0 < IdleTimeout p)"

lemma opt_ok_defaults: "opt_ok (defaults p)"
  by (simp add: opt_ok_def defaults_def Let_def MaxUDPPayload_def second_def)

section \<open>The flow table\<close>

definition table_ok :: "udpNAT \<Rightarrow> (string \<times> Datagram) list \<Rightarrow> bool" where
  "table_ok n dl =
     (distinct (map fst (nflows n)) \<and> distinct (npending n) \<and> distinct (map fst dl) \<and>
      set (npending n) = fst ` set dl \<and> fst ` set dl \<inter> fst ` set (nflows n) = {} \<and>
      int (length (nflows n) + length (npending n)) \<le> MaxFlows (nopt n) \<and>
      ngauge n = int (length (nflows n)))"

lemma table_ok_cong:
  "nflows m = nflows n \<Longrightarrow> npending m = npending n \<Longrightarrow> nopt m = nopt n \<Longrightarrow> ngauge m = ngauge n \<Longrightarrow>
   table_ok m dl = table_ok n dl"
  by (simp add: table_ok_def)

lemma forward_table [simp]:
  "nflows (forward dg n) = nflows n" "npending (forward dg n) = npending n" "nopt (forward dg n) = nopt n"
  "ngauge (forward dg n) = ngauge n" "nheap (forward dg n) = nheap n" "nclosed (forward dg n) = nclosed n"
  "ntokens (forward dg n) = ntokens n" "ntokenTime (forward dg n) = ntokenTime n" "nsent (forward dg n) = nsent n"
  "nsock_closed (forward dg n) = nsock_closed n" "nauth (forward dg n) = nauth n" "ncancelled (forward dg n) = ncancelled n"
  by (simp_all add: forward_def split: option.splits)

lemma serveDatagram_table [simp]:
  "nflows (serveDatagram d n) = nflows n" "npending (serveDatagram d n) = npending n" "nopt (serveDatagram d n) = nopt n"
  "ngauge (serveDatagram d n) = ngauge n" "nheap (serveDatagram d n) = nheap n" "nclosed (serveDatagram d n) = nclosed n"
  "ntokens (serveDatagram d n) = ntokens n" "ntokenTime (serveDatagram d n) = ntokenTime n" "nsent (serveDatagram d n) = nsent n"
  "nsock_closed (serveDatagram d n) = nsock_closed n" "nauth (serveDatagram d n) = nauth n" "ncancelled (serveDatagram d n) = ncancelled n"
  by (simp_all add: serveDatagram_def split: sum.splits)

text \<open>The three outcomes of the first half of \<open>send\<close>.\<close>

lemma send_begin_cases:
  assumes "send_begin now dg n = (x, n')"
  obtains (finished) "x = Finished" "nflows n' = nflows n" "npending n' = npending n" "nheap n' = nheap n"
    | (writes) f where "x = WriteTo_flow f" "map_of (nflows n) (flowKey (SessionID dg) (Address_String (DAddr dg))) = Some f"
        "n' = n\<lparr>nheap := (nheap n)[f := (nheap n ! f)\<lparr>lastSeen := now\<rparr>]\<rparr>"
    | (dials) key where "x = DialFor key" "key = flowKey (SessionID dg) (Address_String (DAddr dg))"
        "map_of (nflows n) key = None" "key \<notin> set (npending n)"
        "int (length (nflows n) + length (npending n)) < MaxFlows (nopt n)"
        "npending n' = npending n @ [key]" "nflows n' = nflows n" "nheap n' = nheap n" "\<not> nclosed n"
proof -
  let ?key = "flowKey (SessionID dg) (Address_String (DAddr dg))"
  obtain ok tk tt where t: "take_token (NewFlowsPerSecond (nopt n)) now (ntokens n, ntokenTime n) = (ok, tk, tt)"
    by (metis prod.exhaust)
  consider "nclosed n" | f where "\<not> nclosed n" "map_of (nflows n) ?key = Some f"
    | "\<not> nclosed n" "map_of (nflows n) ?key = None" "?key \<in> set (npending n)"
    | "\<not> nclosed n" "map_of (nflows n) ?key = None" "?key \<notin> set (npending n)"
        "MaxFlows (nopt n) \<le> int (length (nflows n)) + int (length (npending n))"
    | "\<not> nclosed n" "map_of (nflows n) ?key = None" "?key \<notin> set (npending n)"
        "\<not> MaxFlows (nopt n) \<le> int (length (nflows n)) + int (length (npending n))"
    by (cases "map_of (nflows n) ?key") blast+
  then show thesis
  proof cases
    case 1
    with assms show thesis by (intro finished) (auto simp: send_begin_def)
  next
    case 2
    with assms show thesis by (intro writes) (auto simp: send_begin_def)
  next
    case 3
    with assms show thesis by (intro finished) (auto simp: send_begin_def)
  next
    case 4
    with assms show thesis by (intro finished) (auto simp: send_begin_def)
  next
    case 5
    show thesis
    proof (cases ok)
      case True
      with assms 5 t show thesis by (intro dials [of ?key]) (auto simp: send_begin_def Let_def)
    next
      case False
      with assms 5 t show thesis by (intro finished) (auto simp: send_begin_def Let_def)
    qed
  qed
qed

lemma send_begin_frame:
  assumes "send_begin now dg n = (x, n')"
  shows "nopt n' = nopt n" "ngauge n' = ngauge n" "nclosed n' = nclosed n" "nsent n' = nsent n"
    "nsock_closed n' = nsock_closed n" "nauth n' = nauth n" "ncancelled n' = ncancelled n" "npackets n' = npackets n" "nqueue n' = nqueue n"
  using assms by (auto simp: send_begin_def Let_def split: if_splits option.splits prod.splits)

lemma send_finish_cases:
  assumes "send_finish now key dg res is_udp n = (x, n')"
  obtains (failed) "x = None" "nflows n' = nflows n" "npending n' = removeAll key (npending n)" "ngauge n' = ngauge n" "nheap n' = nheap n"
      "set (nsock_closed n) \<subseteq> set (nsock_closed n')"
    | (opened) remote where "x = Some (length (nheap n))" "\<not> nclosed n" "res = Inr remote"
        "nheap n' = nheap n @ [\<lparr>fsock = remote, fsession = SessionID dg, ftarget = DAddr dg, lastSeen = now\<rparr>]"
        "nflows n' = AList.update key (length (nheap n)) (nflows n)" "npending n' = removeAll key (npending n)"
        "ngauge n' = ngauge n + 1" "nsock_closed n' = nsock_closed n"
proof (cases res)
  case (Inl e)
  with assms show thesis by (intro failed) (auto simp: send_finish_def Let_def)
next
  case (Inr remote)
  show thesis
  proof (cases "nclosed n \<or> \<not> is_udp")
    case True
    with assms Inr show thesis by (intro failed) (auto simp: send_finish_def Let_def split: if_splits)
  next
    case False
    with assms Inr show thesis by (intro opened) (auto simp: send_finish_def Let_def)
  qed
qed

lemma send_finish_frame:
  assumes "send_finish now key dg res is_udp n = (x, n')"
  shows "nopt n' = nopt n" "nclosed n' = nclosed n" "nsent n' = nsent n" "nauth n' = nauth n" "ncancelled n' = ncancelled n"
    "npackets n' = npackets n" "nqueue n' = nqueue n" "ntokens n' = ntokens n" "ntokenTime n' = ntokenTime n"
  using assms by (auto simp: send_finish_def Let_def split: if_splits sum.splits)

lemma table_ok_send_begin:
  assumes "table_ok n dl" "send_begin now dg n = (x, n')"
  shows "table_ok n' (case x of DialFor key \<Rightarrow> (key, dg) # dl | _ \<Rightarrow> dl)"
  using assms(2)
proof (cases rule: send_begin_cases)
  case finished
  with assms(1) send_begin_frame [OF assms(2)] show ?thesis
    by (simp add: table_ok_def)
next
  case (writes f)
  with assms(1) show ?thesis by (simp add: table_ok_def)
next
  case (dials key)
  with assms(1) have "key \<notin> fst ` set dl" "key \<notin> fst ` set (nflows n)"
    by (auto simp: table_ok_def map_of_eq_None_iff)
  with dials assms(1) send_begin_frame [OF assms(2)] show ?thesis
    by (simp add: table_ok_def)
qed

lemma length_removeAll_distinct: "distinct xs \<Longrightarrow> x \<in> set xs \<Longrightarrow> Suc (length (removeAll x xs)) = length xs"
  by (induction xs) auto

lemma table_ok_send_finish:
  assumes "table_ok n (xs @ (key, dg) # ys)" "send_finish now key dg res is_udp n = (x, n')"
  shows "table_ok n' (xs @ ys)"
proof -
  from assms(1) have k: "key \<in> set (npending n)" "key \<notin> fst ` set (xs @ ys)" "key \<notin> fst ` set (nflows n)"
    "fst ` set (xs @ ys) \<inter> fst ` set (nflows n) = {}" "distinct (map fst (xs @ ys))"
    by (auto simp: table_ok_def)
  have pend: "set (removeAll key (npending n)) = fst ` set (xs @ ys)"
    using assms(1) k(2) by (auto simp: table_ok_def)
  note len = length_removeAll_distinct [of "npending n" key]
  show ?thesis
    using assms(2)
  proof (cases rule: send_finish_cases)
    case failed
    with assms(1) k len pend send_finish_frame(1) [OF assms(2)] show ?thesis
      by (simp add: table_ok_def distinct_removeAll)
  next
    case (opened remote)
    with assms(1) k len pend send_finish_frame(1) [OF assms(2)] show ?thesis
      by (simp add: table_ok_def distinct_removeAll update_absent)
  qed
qed

lemma table_ok_pump_exit: "table_ok n dl \<Longrightarrow> table_ok (pump_exit key f n) dl"
  using length_delete_present [of "nflows n" key f]
  by (auto simp: table_ok_def pump_exit_def Let_def AList.distinct_delete set_delete)

lemma write_frame:
  assumes "write_begin now f n = (b, n')"
  shows "nflows n' = nflows n" "npending n' = npending n" "nopt n' = nopt n" "ngauge n' = ngauge n" "nclosed n' = nclosed n"
    "nsent n' = nsent n" "nsock_closed n' = nsock_closed n" "nauth n' = nauth n" "ncancelled n' = ncancelled n"
    "npackets n' = npackets n" "nqueue n' = nqueue n" "ntokens n' = ntokens n" "ntokenTime n' = ntokenTime n"
  using assms by (auto simp: write_begin_def split: if_splits)

lemma write_end_frame [simp]:
  "nflows (write_end e n) = nflows n" "npending (write_end e n) = npending n" "nopt (write_end e n) = nopt n"
  "ngauge (write_end e n) = ngauge n" "nclosed (write_end e n) = nclosed n" "nheap (write_end e n) = nheap n"
  "nsent (write_end e n) = nsent n" "nsock_closed (write_end e n) = nsock_closed n" "nauth (write_end e n) = nauth n"
  "ncancelled (write_end e n) = ncancelled n" "npackets (write_end e n) = npackets n" "nqueue (write_end e n) = nqueue n"
  "ntokens (write_end e n) = ntokens n" "ntokenTime (write_end e n) = ntokenTime n"
  by (simp_all add: write_end_def)

lemma pump_read_frame:
  assumes "pump_read f now buf err sendErr n = (b, n')"
  shows "nflows n' = nflows n" "npending n' = npending n" "nopt n' = nopt n" "ngauge n' = ngauge n" "nclosed n' = nclosed n"
    "nsock_closed n' = nsock_closed n" "nauth n' = nauth n" "ncancelled n' = ncancelled n"
    "npackets n' = npackets n" "nqueue n' = nqueue n" "ntokens n' = ntokens n" "ntokenTime n' = ntokenTime n"
  using assms by (auto simp: pump_read_def Let_def split: if_splits option.splits)

lemma table_step:
  assumes "nat_step s t" "table_ok (relay s) (dialing s)"
  shows "table_ok (relay t) (dialing t)"
  using assms(1)
proof cases
  case (worker dg rest now)
  obtain x n' where sb: "send_begin now dg ((relay s)\<lparr>nqueue := rest\<rparr>) = (x, n')"
    by (rule prod.exhaust)
  have "table_ok ((relay s)\<lparr>nqueue := rest\<rparr>) (dialing s)"
    using assms(2) by (simp add: table_ok_def)
  with table_ok_send_begin [OF this sb] worker sb show ?thesis
    by (auto simp: worker_take_def Let_def split: send_next.splits)
next
  case (dialled xs key dg ys now res is_udp)
  obtain x n' where sf: "send_finish now key dg res is_udp (relay s) = (x, n')"
    by (rule prod.exhaust)
  from table_ok_send_finish [OF _ sf] assms(2) dialled sf show ?thesis
    by (auto simp: worker_dialled_def split: option.splits)
next
  case (packet p rest)
  with assms(2) show ?thesis by (auto simp: packet_take_def Let_def table_ok_def)
next
  case (wrote xs w f ys now err)
  obtain b n' where "write_begin now f (relay s) = (b, n')"
    by (rule prod.exhaust)
  with wrote write_frame [OF this] assms(2) show ?thesis
    by (cases b) (auto simp: write_done_def Let_def table_ok_def)
next
  case (pump_top xs key f ys)
  with assms(2) table_ok_pump_exit show ?thesis by (auto simp: pump_loop_def)
next
  case (pump_got xs key f ys now buf err sendErr)
  obtain b n' where pr: "pump_read f now buf err sendErr (relay s) = (b, n')"
    by (rule prod.exhaust)
  have "table_ok n' (dialing s)"
    using assms(2) pump_read_frame [OF pr] table_ok_cong by metis
  with pump_got pr table_ok_pump_exit show ?thesis by (auto simp: pump_loop_def)
qed (use assms(2) in \<open>auto simp: table_ok_def close_nat_def\<close>)

section \<open>Flow objects and sockets\<close>

text \<open>What of a flow object never changes.\<close>

definition flow_id :: "udpFlow \<Rightarrow> conn \<times> u64 \<times> Address" where
  "flow_id f = (fsock f, fsession f, ftarget f)"

abbreviation ids :: "udpNAT \<Rightarrow> (conn \<times> u64 \<times> Address) list" where
  "ids n \<equiv> map flow_id (nheap n)"

lemma touch_ids [simp]: "map flow_id (xs[i := (xs ! i)\<lparr>lastSeen := t\<rparr>]) = map flow_id xs"
proof (cases "i < length xs")
  case True
  then have "flow_id ((xs ! i)\<lparr>lastSeen := t\<rparr>) = map flow_id xs ! i"
    by (simp add: flow_id_def)
  then show ?thesis
    by (simp add: map_update)
qed (simp add: list_update_beyond)

definition key_of :: "conn \<times> u64 \<times> Address \<Rightarrow> string" where
  "key_of i = (case i of (c, sid, a) \<Rightarrow> flowKey sid (Address_String a))"

definition good_datagram :: "Datagram \<Rightarrow> bool" where
  "good_datagram dg = wf_address (DAddr dg)"

definition objects_ok ::
    "(conn \<times> u64 \<times> Address) list \<Rightarrow> (string \<times> nat) list \<Rightarrow> conn list \<Rightarrow> (string \<times> nat \<times> bool) list \<Rightarrow> bool" where
  "objects_ok hs fl cl pu =
     ((\<forall>(k, f) \<in> set fl. f < length hs \<and> k = key_of (hs ! f) \<and> (\<exists>b. (k, f, b) \<in> set pu)) \<and>
      (\<forall>(k, f, b) \<in> set pu. f < length hs) \<and>
      (\<forall>f < length hs. wf_address (snd (snd (hs ! f))) \<and> (fst (hs ! f) \<in> set cl \<or> (\<exists>k b. (k, f, b) \<in> set pu))))"

definition work_ok :: "nat \<Rightarrow> udpNAT \<Rightarrow> (string \<times> Datagram) list \<Rightarrow> (bool \<times> nat) list \<Rightarrow> bool" where
  "work_ok len n dl wr =
     ((\<forall>(k, dg) \<in> set dl. k = flowKey (SessionID dg) (Address_String (DAddr dg)) \<and> good_datagram dg) \<and>
      (\<forall>dg \<in> set (nqueue n). good_datagram dg) \<and> (\<forall>p \<in> set (npackets n). pflow p < len) \<and>
      (\<forall>(w, f) \<in> set wr. f < len))"

definition heap_inv :: "nat_sys \<Rightarrow> bool" where
  "heap_inv s =
     (objects_ok (ids (relay s)) (nflows (relay s)) (nsock_closed (relay s)) (pumps s) \<and>
      work_ok (length (nheap (relay s))) (relay s) (dialing s) (writing s))"

lemma objects_ok_open:
  assumes "objects_ok hs fl cl pu" "k \<notin> fst ` set fl" "k = key_of i" "wf_address (snd (snd i))"
  shows "objects_ok (hs @ [i]) (AList.update k (length hs) fl) cl ((k, length hs, False) # pu)"
  using assms unfolding objects_ok_def by (fastforce simp: update_absent nth_append less_Suc_eq)

lemma objects_okD:
  assumes "objects_ok hs fl cl pu"
  shows "(k, f) \<in> set fl \<Longrightarrow> f < length hs \<and> k = key_of (hs ! f) \<and> (\<exists>b. (k, f, b) \<in> set pu)"
    and "(k, f, b) \<in> set pu \<Longrightarrow> f < length hs"
    and "f < length hs \<Longrightarrow> wf_address (snd (snd (hs ! f))) \<and> (fst (hs ! f) \<in> set cl \<or> (\<exists>k b. (k, f, b) \<in> set pu))"
  using assms unfolding objects_ok_def by blast+

lemma objects_okI:
  assumes "\<And>k f. (k, f) \<in> set fl \<Longrightarrow> f < length hs \<and> k = key_of (hs ! f) \<and> (\<exists>b. (k, f, b) \<in> set pu)"
    and "\<And>k f b. (k, f, b) \<in> set pu \<Longrightarrow> f < length hs"
    and "\<And>f. f < length hs \<Longrightarrow> wf_address (snd (snd (hs ! f))) \<and> (fst (hs ! f) \<in> set cl \<or> (\<exists>k b. (k, f, b) \<in> set pu))"
  shows "objects_ok hs fl cl pu"
  using assms unfolding objects_ok_def by auto

lemma objects_ok_closed:
  assumes "objects_ok hs fl cl pu"
  shows "objects_ok hs fl (cl @ cl2) pu"
proof (rule objects_okI)
  show "wf_address (snd (snd (hs ! f))) \<and> (fst (hs ! f) \<in> set (cl @ cl2) \<or> (\<exists>k b. (k, f, b) \<in> set pu))"
    if "f < length hs" for f
    using objects_okD(3) [OF assms that] by auto
qed (use objects_okD(1,2) [OF assms] in blast)+

lemma objects_ok_loop:
  assumes "objects_ok hs fl cl (xs @ (k, f, b) # ys)"
  shows "objects_ok hs fl cl ((k, f, c) # xs @ ys)"
proof -
  have pu: "(\<exists>b. (k', f', b) \<in> set ((k, f, c) # xs @ ys)) = (\<exists>b'. (k', f', b') \<in> set (xs @ (k, f, b) # ys))" for k' f'
    by auto
  show ?thesis
  proof (rule objects_okI)
    show "f' < length hs \<and> k' = key_of (hs ! f') \<and> (\<exists>b. (k', f', b) \<in> set ((k, f, c) # xs @ ys))" if "(k', f') \<in> set fl" for k' f'
      using objects_okD(1) [OF assms that] pu by blast
    show "f' < length hs" if "(k', f', b') \<in> set ((k, f, c) # xs @ ys)" for k' f' b'
      using that pu objects_okD(2) [OF assms] by blast
    show "wf_address (snd (snd (hs ! f'))) \<and> (fst (hs ! f') \<in> set cl \<or> (\<exists>k' b. (k', f', b) \<in> set ((k, f, c) # xs @ ys)))"
      if "f' < length hs" for f'
      using objects_okD(3) [OF assms that] pu by blast
  qed
qed

lemma objects_ok_exit:
  assumes "objects_ok hs fl cl (xs @ (k, f, b) # ys)" "distinct (map fst fl)"
  shows "objects_ok hs (if map_of fl k = Some f then AList.delete k fl else fl) (cl @ [fst (hs ! f)]) (xs @ ys)"
proof -
  have "(k', f') \<noteq> (k, f)" if "(k', f') \<in> set (if map_of fl k = Some f then AList.delete k fl else fl)" for k' f'
    using that assms(2) by (auto simp: set_delete split: if_splits)
  moreover have "set (if map_of fl k = Some f then AList.delete k fl else fl) \<subseteq> set fl"
    by (auto simp: set_delete)
  ultimately have flow: "(k', f') \<in> set fl \<and> (k', f') \<noteq> (k, f)"
    if "(k', f') \<in> set (if map_of fl k = Some f then AList.delete k fl else fl)" for k' f'
    using that by blast
  have pu: "(k', f', b') \<in> set (xs @ ys)" if "(k', f', b') \<in> set (xs @ (k, f, b) # ys)" "(k', f') \<noteq> (k, f)" for k' f' b'
    using that by auto
  show ?thesis
  proof (rule objects_okI)
    show "f' < length hs \<and> k' = key_of (hs ! f') \<and> (\<exists>b. (k', f', b) \<in> set (xs @ ys))"
      if "(k', f') \<in> set (if map_of fl k = Some f then AList.delete k fl else fl)" for k' f'
      using objects_okD(1) [OF assms(1)] flow [OF that] pu by blast
    show "f' < length hs" if "(k', f', b') \<in> set (xs @ ys)" for k' f' b'
      using that objects_okD(2) [OF assms(1), of k' f' b'] by auto
    show "wf_address (snd (snd (hs ! f'))) \<and>
        (fst (hs ! f') \<in> set (cl @ [fst (hs ! f)]) \<or> (\<exists>k' b. (k', f', b) \<in> set (xs @ ys)))" if "f' < length hs" for f'
    proof (cases "f' = f")
      case True
      with objects_okD(3) [OF assms(1) that] show ?thesis by simp
    next
      case False
      with objects_okD(3) [OF assms(1) that] pu show ?thesis by (metis UnCI prod.inject set_append)
    qed
  qed
qed

lemma pump_exit_fields [simp]:
  "nheap (pump_exit k f n) = nheap n" "npackets (pump_exit k f n) = npackets n" "nqueue (pump_exit k f n) = nqueue n"
  "nopt (pump_exit k f n) = nopt n" "nauth (pump_exit k f n) = nauth n" "ntokens (pump_exit k f n) = ntokens n"
  "nsent (pump_exit k f n) = nsent n" "ncancelled (pump_exit k f n) = ncancelled n" "nclosed (pump_exit k f n) = nclosed n"
  "nsock_closed (pump_exit k f n) = nsock_closed n @ [fsock (nheap n ! f)]"
  "nflows (pump_exit k f n) = (if map_of (nflows n) k = Some f then AList.delete k (nflows n) else nflows n)"
  by (simp_all add: pump_exit_def Let_def)

lemma pump_read_ids: "pump_read f now buf err sendErr n = (b, n') \<Longrightarrow> ids n' = ids n"
  by (auto simp: pump_read_def Let_def split: if_splits option.splits)

lemma ids_length: "ids m = ids n \<Longrightarrow> length (nheap m) = length (nheap n)"
  by (metis length_map)

lemma work_ok_cong:
  "nqueue m = nqueue n \<Longrightarrow> npackets m = npackets n \<Longrightarrow> work_ok len m dl wr = work_ok len n dl wr"
  by (simp add: work_ok_def)

lemma heap_inv_exit:
  assumes "heap_inv s" "pumps s = xs @ (k, f, b) # ys" "distinct (map fst (nflows (relay s)))"
  shows "heap_inv (pump_loop k f next (xs @ ys) s)"
proof -
  have f: "f < length (nheap (relay s))"
    using assms(1,2) objects_okD(2) [of "ids (relay s)"] by (fastforce simp: heap_inv_def)
  from assms(1,2) have o: "objects_ok (ids (relay s)) (nflows (relay s)) (nsock_closed (relay s)) (xs @ (k, f, b) # ys)"
    by (simp add: heap_inv_def)
  from objects_ok_exit [OF o assms(3)] f
  have "objects_ok (ids (relay s)) (nflows (pump_exit k f (relay s))) (nsock_closed (pump_exit k f (relay s))) (xs @ ys)"
    by (simp add: flow_id_def)
  with assms(1) objects_ok_loop [OF o, of False] show ?thesis
    by (auto simp: pump_loop_def heap_inv_def work_ok_def)
qed

lemma heap_inv_send_begin:
  assumes "heap_inv s" "nqueue (relay s) = dg # rest"
  shows "heap_inv (worker_take now dg rest s)"
proof -
  let ?n = "(relay s)\<lparr>nqueue := rest\<rparr>"
  obtain x n' where sb: "send_begin now dg ?n = (x, n')"
    by (rule prod.exhaust)
  have w: "work_ok (length (nheap (relay s))) ?n (dialing s) (writing s)" "good_datagram dg"
    using assms by (auto simp: heap_inv_def work_ok_def)
  have o: "objects_ok (ids (relay s)) (nflows (relay s)) (nsock_closed (relay s)) (pumps s)"
    using assms by (simp add: heap_inv_def)
  note fr = send_begin_frame [OF sb]
  show ?thesis
  proof (cases "\<not> ncancelled (relay s) \<and> nauth (relay s)")
    case False
    with w o show ?thesis by (auto simp: worker_take_def heap_inv_def)
  next
    case True
    from sb show ?thesis
    proof (cases rule: send_begin_cases)
      case finished
      with True sb w o fr show ?thesis
        by (simp add: worker_take_def heap_inv_def work_ok_def)
    next
      case (writes f)
      then have "f < length (nheap (relay s))"
        using objects_okD(1) [OF o] map_of_SomeD by fastforce
      with writes True sb w o show ?thesis
        by (simp add: worker_take_def heap_inv_def work_ok_def)
    next
      case (dials key)
      with True sb w o fr show ?thesis
        by (simp add: worker_take_def heap_inv_def work_ok_def)
    qed
  qed
qed

lemma heap_inv_dialled:
  assumes "heap_inv s" "table_ok (relay s) (dialing s)" "dialing s = xs @ (key, dg) # ys"
  shows "heap_inv (worker_dialled now key dg res is_udp (xs @ ys) s)"
proof -
  obtain x n' where sf: "send_finish now key dg res is_udp (relay s) = (x, n')"
    by (rule prod.exhaust)
  note fr = send_finish_frame [OF sf]
  have o: "objects_ok (ids (relay s)) (nflows (relay s)) (nsock_closed (relay s)) (pumps s)"
    and w: "work_ok (length (nheap (relay s))) (relay s) (xs @ ys) (writing s)"
    and k: "key = flowKey (SessionID dg) (Address_String (DAddr dg))" "good_datagram dg"
    using assms(1,3) by (auto simp: heap_inv_def work_ok_def)
  from sf show ?thesis
  proof (cases rule: send_finish_cases)
    case failed
    then obtain cl where "nsock_closed n' = nsock_closed (relay s) @ cl"
      using sf by (auto simp: send_finish_def Let_def split: sum.splits if_splits)
    with objects_ok_closed [OF o, of cl] failed sf w fr show ?thesis
      by (simp add: worker_dialled_def heap_inv_def work_ok_def)
  next
    case (opened remote)
    let ?i = "(remote, SessionID dg, DAddr dg)"
    have "key \<notin> fst ` set (nflows (relay s))"
      using assms(2,3) by (auto simp: table_ok_def)
    from objects_ok_open [OF o this, of ?i] k
    have "objects_ok (ids (relay s) @ [?i]) (AList.update key (length (nheap (relay s))) (nflows (relay s)))
        (nsock_closed (relay s)) ((key, length (nheap (relay s)), False) # pumps s)"
      by (simp add: key_of_def good_datagram_def)
    moreover have "work_ok (Suc (length (nheap (relay s)))) (relay s) (xs @ ys) ((True, length (nheap (relay s))) # writing s)"
      using w by (auto simp: work_ok_def less_SucI)
    ultimately show ?thesis
      using opened sf fr by (simp add: worker_dialled_def heap_inv_def work_ok_def flow_id_def)
  qed
qed

lemma forward_queues:
  "nqueue (forward dg n) = nqueue n \<and> npackets (forward dg n) = npackets n \<or>
   nqueue (forward dg n) = nqueue n @ [dg] \<and> npackets (forward dg n) = npackets n \<or>
   nqueue (forward dg n) = nqueue n \<and>
     (\<exists>f k. map_of (nflows n) k = Some f \<and> npackets (forward dg n) = npackets n @ [\<lparr>pflow = f, ppayload = Payload dg\<rparr>])"
  by (auto simp: forward_def split: option.splits)

lemma heap_inv_received:
  assumes "heap_inv s"
  shows "heap_inv (s\<lparr>relay := serveDatagram data (relay s)\<rparr>)"
proof (cases "DecodeDatagram data")
  case (Inl e)
  with assms show ?thesis
    by (simp add: heap_inv_def serveDatagram_def work_ok_def)
next
  case (Inr dg)
  then have "good_datagram dg"
    by (auto simp: good_datagram_def elim: DecodeDatagram_inv)
  moreover have "f < length (nheap (relay s))" if "map_of (nflows (relay s)) k = Some f" for k f
    using assms that objects_okD(1) [of "ids (relay s)"] map_of_SomeD by (fastforce simp: heap_inv_def)
  ultimately have "work_ok (length (nheap (relay s))) (forward dg (relay s)) (dialing s) (writing s)"
    using assms forward_queues [of dg "relay s"] unfolding heap_inv_def work_ok_def
    by (elim disjE conjE exE) auto
  with assms Inr show ?thesis
    by (auto simp: heap_inv_def serveDatagram_def work_ok_def)
qed

lemma heap_inv_wrote:
  assumes "heap_inv s" "writing s = xs @ (w, f) # ys"
  shows "heap_inv (write_done now w f err (xs @ ys) s)"
proof -
  obtain b n' where wb: "write_begin now f (relay s) = (b, n')"
    by (rule prod.exhaust)
  then have "ids n' = ids (relay s)"
    by (auto simp: write_begin_def split: if_splits)
  with assms wb write_frame [OF wb] ids_length [OF this] show ?thesis
    by (cases b) (auto simp: write_done_def Let_def heap_inv_def work_ok_def)
qed

lemma heap_step:
  assumes "nat_step s t" "table_ok (relay s) (dialing s)" "heap_inv s"
  shows "heap_inv t"
  using assms(1)
proof cases
  case (received data)
  with heap_inv_received [OF assms(3)] show ?thesis by simp
next
  case (worker dg rest now)
  with heap_inv_send_begin [OF assms(3)] show ?thesis by simp
next
  case (dialled xs key dg ys now res is_udp)
  with heap_inv_dialled [OF assms(3,2)] show ?thesis by simp
next
  case (packet p rest)
  with assms(3) show ?thesis by (auto simp: packet_take_def Let_def heap_inv_def work_ok_def)
next
  case (wrote xs w f ys now err)
  with heap_inv_wrote [OF assms(3)] show ?thesis by simp
next
  case (pump_top xs key f ys)
  have "distinct (map fst (nflows (relay s)))"
    using assms(2) by (simp add: table_ok_def)
  with heap_inv_exit [OF assms(3) pump_top(2)] pump_top assms(3) objects_ok_loop show ?thesis
    by (auto simp: heap_inv_def)
next
  case (pump_got xs key f ys now buf err sendErr)
  obtain b n' where pr: "pump_read f now buf err sendErr (relay s) = (b, n')"
    by (rule prod.exhaust)
  note fr = pump_read_frame [OF pr] and i = pump_read_ids [OF pr]
  have "heap_inv (s\<lparr>relay := n'\<rparr>)" "distinct (map fst (nflows n'))"
    using assms(2,3) fr i ids_length [OF i] by (simp_all add: heap_inv_def work_ok_def table_ok_def)
  with heap_inv_exit [of "s\<lparr>relay := n'\<rparr>" xs key f True ys b] pump_got pr show ?thesis
    by simp
next
  case closed
  with assms(3) objects_ok_closed show ?thesis
    by (auto simp: heap_inv_def work_ok_def close_nat_def)
qed (use assms(3) in \<open>auto simp: heap_inv_def work_ok_def\<close>)

section \<open>Queues, workers and tokens\<close>

definition queues_ok :: "udpNAT \<Rightarrow> bool" where
  "queues_ok n =
     (opt_ok (nopt n) \<and> int (length (nqueue n)) \<le> QueueSize (nopt n) \<and> int (length (npackets n)) \<le> QueueSize (nopt n) \<and>
      (\<forall>dg \<in> set (nqueue n). int (length (Payload dg)) \<le> MaxPayload (nopt n)) \<and>
      0 \<le> ntokens n \<and> ntokens n \<le> of_int (NewFlowsPerSecond (nopt n)))"

lemma queues_ok_cong:
  "nopt m = nopt n \<Longrightarrow> nqueue m = nqueue n \<Longrightarrow> npackets m = npackets n \<Longrightarrow> ntokens m = ntokens n \<Longrightarrow> queues_ok m = queues_ok n"
  by (simp add: queues_ok_def)

lemma refill_bounds:
  assumes "0 \<le> tk" "tk \<le> of_int rate" "tt \<le> now" "0 < rate"
  shows "tk \<le> refill rate now (tk, tt)" "refill rate now (tk, tt) \<le> of_int rate"
    "refill rate now (tk, tt) \<le> tk + of_int (now - tt) / of_int second * of_int rate"
  using assms by (auto simp: refill_def Let_def second_def)

lemma take_token_bounds:
  assumes "take_token rate now (tk, tt) = (ok, tk', tt')" "0 \<le> tk" "tk \<le> of_int rate" "tt \<le> now" "0 < rate"
  shows "0 \<le> tk'" "tk' \<le> of_int rate" "tt' = now"
    "of_bool ok + tk' \<le> tk + of_int (now - tt) / of_int second * of_int rate"
  using assms(1) refill_bounds [OF assms(2-5)] assms(2) by (auto simp: take_token_def Let_def split: if_splits)

lemma send_begin_tokens:
  assumes "send_begin now dg n = (x, n')" "queues_ok n" "ntokenTime n \<le> now"
  shows "queues_ok n'"
proof -
  obtain ok tk tt where t: "take_token (NewFlowsPerSecond (nopt n)) now (ntokens n, ntokenTime n) = (ok, tk, tt)"
    by (metis prod.exhaust)
  have "0 \<le> tk" "tk \<le> of_int (NewFlowsPerSecond (nopt n))"
    using take_token_bounds [OF t] assms(2,3) by (auto simp: queues_ok_def opt_ok_def)
  then have "0 \<le> ntokens n' \<and> ntokens n' \<le> of_int (NewFlowsPerSecond (nopt n))"
    using assms(1,2) t by (auto simp: send_begin_def queues_ok_def Let_def split: if_splits option.splits)
  with assms(2) send_begin_frame [OF assms(1)] show ?thesis
    by (simp add: queues_ok_def)
qed

lemma queues_ok_forward: "queues_ok n \<Longrightarrow> queues_ok (forward dg n)"
  by (auto simp: queues_ok_def forward_def split: option.splits)

lemma queues_step:
  assumes "nat_step s t" "queues_ok (relay s)"
  shows "queues_ok (relay t)"
  using assms(1)
proof cases
  case (received data)
  have "queues_ok (drop_metric r (relay s))" for r
    using assms(2) by (simp add: queues_ok_def)
  with received queues_ok_forward [OF assms(2)] show ?thesis
    by (simp add: serveDatagram_def del: drop_metric_def split: sum.splits)
next
  case (worker dg rest now)
  have q: "queues_ok ((relay s)\<lparr>nqueue := rest\<rparr>)"
    using assms(2) worker by (auto simp: queues_ok_def)
  obtain x n' where sb: "send_begin now dg ((relay s)\<lparr>nqueue := rest\<rparr>) = (x, n')"
    by (rule prod.exhaust)
  from send_begin_tokens [OF sb q] worker sb q show ?thesis
    by (auto simp: worker_take_def Let_def split: send_next.splits)
next
  case (dialled xs key dg ys now res is_udp)
  obtain x n' where sf: "send_finish now key dg res is_udp (relay s) = (x, n')"
    by (rule prod.exhaust)
  from send_finish_frame [OF sf] assms(2) dialled sf show ?thesis
    by (auto simp: worker_dialled_def queues_ok_def split: option.splits)
next
  case (packet p rest)
  with assms(2) show ?thesis by (auto simp: packet_take_def Let_def queues_ok_def)
next
  case (wrote xs w f ys now err)
  obtain b n' where "write_begin now f (relay s) = (b, n')"
    by (rule prod.exhaust)
  with wrote write_frame [OF this] assms(2) show ?thesis
    by (cases b) (auto simp: write_done_def Let_def queues_ok_def)
next
  case (pump_top xs key f ys)
  with assms(2) show ?thesis by (auto simp: pump_loop_def queues_ok_def)
next
  case (pump_got xs key f ys now buf err sendErr)
  obtain b n' where pr: "pump_read f now buf err sendErr (relay s) = (b, n')"
    by (rule prod.exhaust)
  from pump_read_frame [OF pr] assms(2) pump_got pr show ?thesis
    by (auto simp: pump_loop_def queues_ok_def)
qed (use assms(2) in \<open>auto simp: queues_ok_def close_nat_def\<close>)

definition workers_ok :: "nat_sys \<Rightarrow> bool" where
  "workers_ok s = (int (idle s + length (dialing s) + length (filter fst (writing s))) \<le> Workers (nopt (relay s)))"

lemma workers_step:
  assumes "nat_step s t" "workers_ok s"
  shows "workers_ok t"
  using assms(1)
proof cases
  case (worker dg rest now)
  obtain x n' where sb: "send_begin now dg ((relay s)\<lparr>nqueue := rest\<rparr>) = (x, n')"
    by (rule prod.exhaust)
  from send_begin_frame(1) [OF sb] worker sb assms(2) show ?thesis
    by (auto simp: worker_take_def workers_ok_def Let_def split: send_next.splits)
next
  case (dialled xs key dg ys now res is_udp)
  obtain x n' where sf: "send_finish now key dg res is_udp (relay s) = (x, n')"
    by (rule prod.exhaust)
  from send_finish_frame(1) [OF sf] assms(2) dialled sf show ?thesis
    by (auto simp: worker_dialled_def workers_ok_def split: option.splits)
next
  case (packet p rest)
  with assms(2) show ?thesis by (auto simp: packet_take_def Let_def workers_ok_def)
next
  case (wrote xs w f ys now err)
  obtain b n' where "write_begin now f (relay s) = (b, n')"
    by (rule prod.exhaust)
  with wrote write_frame(3) [OF this] assms(2) show ?thesis
    by (cases b; cases w) (auto simp: write_done_def Let_def workers_ok_def)
next
  case (pump_top xs key f ys)
  with assms(2) show ?thesis by (auto simp: pump_loop_def workers_ok_def)
next
  case (pump_got xs key f ys now buf err sendErr)
  obtain b n' where pr: "pump_read f now buf err sendErr (relay s) = (b, n')"
    by (rule prod.exhaust)
  from pump_read_frame(3) [OF pr] assms(2) pump_got pr show ?thesis
    by (auto simp: pump_loop_def workers_ok_def)
qed (use assms(2) in \<open>auto simp: workers_ok_def close_nat_def\<close>)

section \<open>Replies and authentication\<close>

text \<open>Every datagram sent to the client carries a reply of a flow of the heap.\<close>

definition reply_in :: "(conn \<times> u64 \<times> Address) set \<Rightarrow> int \<Rightarrow> bytes \<Rightarrow> bool" where
  "reply_in hs mx out =
     (\<exists>c sid a p. (c, sid, a) \<in> hs \<and> int (length p) \<le> mx \<and> out = EncodeDatagram sid a p)"

definition replies_ok :: "udpNAT \<Rightarrow> bool" where
  "replies_ok n = (\<forall>out \<in> set (nsent n). reply_in (set (ids n)) (MaxPayload (nopt n)) out)"

lemma reply_in_mono: "reply_in hs mx out \<Longrightarrow> hs \<subseteq> hs' \<Longrightarrow> reply_in hs' mx out"
  unfolding reply_in_def by blast

lemma reply_inI: "(c, sid, a) \<in> hs \<Longrightarrow> int (length p) \<le> mx \<Longrightarrow> reply_in hs mx (EncodeDatagram sid a p)"
  unfolding reply_in_def by blast

lemma replies_ok_cong:
  "nsent m = nsent n \<Longrightarrow> nopt m = nopt n \<Longrightarrow> set (ids n) \<subseteq> set (ids m) \<Longrightarrow> replies_ok n \<Longrightarrow> replies_ok m"
  unfolding replies_ok_def using reply_in_mono by metis

lemma send_begin_ids: "send_begin now dg n = (x, n') \<Longrightarrow> ids n' = ids n"
  by (erule send_begin_cases) simp_all

lemma send_finish_ids: "send_finish now key dg res is_udp n = (x, n') \<Longrightarrow> set (ids n) \<subseteq> set (ids n')"
  by (erule send_finish_cases) auto

lemma replies_pump_read:
  assumes "pump_read f now buf err sendErr n = (b, n')" "f < length (nheap n)" "replies_ok n"
  shows "replies_ok n'"
proof -
  let ?h = "(nheap n)[f := (nheap n ! f)\<lparr>lastSeen := now\<rparr>]"
  let ?out = "EncodeDatagram (fsession (nheap n ! f)) (ftarget (nheap n ! f)) buf"
  have "nsent n' = nsent n \<or> nsent n' = nsent n @ [?out] \<and> int (length buf) \<le> MaxPayload (nopt n)"
    using assms(1,2) by (auto simp: pump_read_def Let_def split: if_splits option.splits)
  moreover have "flow_id (nheap n ! f) \<in> set (ids n)"
    using assms(2) by simp
  then have "int (length buf) \<le> MaxPayload (nopt n) \<Longrightarrow> reply_in (set (ids n)) (MaxPayload (nopt n)) ?out"
    by (intro reply_inI) (simp_all add: flow_id_def)
  ultimately have "\<forall>out \<in> set (nsent n'). reply_in (set (ids n)) (MaxPayload (nopt n)) out"
    using assms(3) by (auto simp: replies_ok_def)
  then show ?thesis
    by (simp only: replies_ok_def pump_read_ids [OF assms(1)] pump_read_frame(3) [OF assms(1)])
qed

lemma replies_step:
  assumes "nat_step s t" "heap_inv s" "replies_ok (relay s)"
  shows "replies_ok (relay t)"
  using assms(1)
proof cases
  case (worker dg rest now)
  obtain x n' where sb: "send_begin now dg ((relay s)\<lparr>nqueue := rest\<rparr>) = (x, n')"
    by (rule prod.exhaust)
  have q: "replies_ok ((relay s)\<lparr>nqueue := rest\<rparr>)"
    by (rule replies_ok_cong [OF _ _ _ assms(3)]) simp_all
  moreover have "replies_ok n'"
    by (rule replies_ok_cong [OF _ _ _ q]) (use send_begin_frame(1,4) [OF sb] send_begin_ids [OF sb] in simp_all)
  ultimately show ?thesis
    using worker sb by (simp add: worker_take_def Let_def split: send_next.splits)
next
  case (dialled xs key dg ys now res is_udp)
  obtain x n' where sf: "send_finish now key dg res is_udp (relay s) = (x, n')"
    by (rule prod.exhaust)
  have "replies_ok n'"
    by (rule replies_ok_cong [OF send_finish_frame(3) [OF sf] send_finish_frame(1) [OF sf] send_finish_ids [OF sf] assms(3)])
  with dialled sf show ?thesis
    by (simp add: worker_dialled_def split: option.splits)
next
  case (packet p rest)
  with assms(3) show ?thesis by (simp add: packet_take_def Let_def replies_ok_def)
next
  case (wrote xs w f ys now err)
  obtain b n' where wb: "write_begin now f (relay s) = (b, n')"
    by (rule prod.exhaust)
  then have "ids n' = ids (relay s)"
    by (auto simp: write_begin_def split: if_splits)
  with write_frame(3,6) [OF wb] have "replies_ok n'" "replies_ok (write_end err n')"
    by (intro replies_ok_cong [OF _ _ _ assms(3)]; simp)+
  with wrote wb show ?thesis
    by (cases b) (simp_all add: write_done_def Let_def)
next
  case (pump_top xs key f ys)
  with assms(3) show ?thesis by (simp add: pump_loop_def replies_ok_def)
next
  case (pump_got xs key f ys now buf err sendErr)
  obtain b n' where pr: "pump_read f now buf err sendErr (relay s) = (b, n')"
    by (rule prod.exhaust)
  have "f < length (nheap (relay s))"
    using assms(2) pump_got objects_okD(2) [of "ids (relay s)"] by (fastforce simp: heap_inv_def)
  from replies_pump_read [OF pr this assms(3)] pump_got pr show ?thesis
    by (simp add: pump_loop_def replies_ok_def)
qed (use assms(3) in \<open>simp_all add: replies_ok_def close_nat_def\<close>)

text \<open>Before authentication nothing is queued, dialled, opened or sent.\<close>

definition quiet :: "nat_sys \<Rightarrow> bool" where
  "quiet s = (nqueue (relay s) = [] \<and> npackets (relay s) = [] \<and> nheap (relay s) = [] \<and> dialing s = [] \<and>
     writing s = [] \<and> pumps s = [] \<and> nsent (relay s) = [])"

definition auth_inv :: "nat_sys \<Rightarrow> bool" where
  "auth_inv s = (\<not> nauth (relay s) \<longrightarrow> quiet s)"

lemma step_monotone:
  assumes "nat_step s t"
  shows "nopt (relay t) = nopt (relay s)" and "nauth (relay s) \<Longrightarrow> nauth (relay t)"
proof -
  have "nopt (relay t) = nopt (relay s) \<and> (nauth (relay s) \<longrightarrow> nauth (relay t))"
    using assms
  proof cases
    case (worker dg rest now)
    obtain x n' where sb: "send_begin now dg ((relay s)\<lparr>nqueue := rest\<rparr>) = (x, n')"
      by (rule prod.exhaust)
    from send_begin_frame(1,6) [OF sb] worker sb show ?thesis
      by (auto simp: worker_take_def Let_def split: send_next.splits)
  next
    case (dialled xs key dg ys now res is_udp)
    obtain x n' where sf: "send_finish now key dg res is_udp (relay s) = (x, n')"
      by (rule prod.exhaust)
    from send_finish_frame(1,4) [OF sf] dialled sf show ?thesis
      by (auto simp: worker_dialled_def split: option.splits)
  next
    case (wrote xs w f ys now err)
    obtain b n' where "write_begin now f (relay s) = (b, n')"
      by (rule prod.exhaust)
    with wrote write_frame(3,8) [OF this] show ?thesis
      by (cases b; cases w) (auto simp: write_done_def Let_def)
  next
    case (pump_got xs key f ys now buf err sendErr)
    obtain b n' where pr: "pump_read f now buf err sendErr (relay s) = (b, n')"
      by (rule prod.exhaust)
    from pump_read_frame(3,7) [OF pr] pump_got pr show ?thesis
      by (auto simp: pump_loop_def)
  qed (auto simp: packet_take_def pump_loop_def close_nat_def Let_def)
  then show "nopt (relay t) = nopt (relay s)" and "nauth (relay s) \<Longrightarrow> nauth (relay t)"
    by auto
qed

lemma auth_step:
  assumes "nat_step s t" "auth_inv s"
  shows "auth_inv t"
proof (cases "nauth (relay s)")
  case True
  with step_monotone(2) [OF assms(1)] show ?thesis by (simp add: auth_inv_def)
next
  case False
  with assms(2) have q: "quiet s"
    by (simp add: auth_inv_def)
  from assms(1) show ?thesis
    by cases (use q False in \<open>auto simp: auth_inv_def quiet_def serveDatagram_def close_nat_def\<close>)
qed

section \<open>The invariant\<close>

definition nat_inv :: "nat_sys \<Rightarrow> bool" where
  "nat_inv s =
     (table_ok (relay s) (dialing s) \<and> heap_inv s \<and> queues_ok (relay s) \<and> workers_ok s \<and>
      replies_ok (relay s) \<and> auth_inv s)"

definition nat_initial :: "nat_sys \<Rightarrow> bool" where
  "nat_initial s = (\<exists>opt now. s = nat_start opt now)"

lemma nat_inv_start: "nat_inv (nat_start opt now)"
  using opt_ok_defaults [of opt]
  by (auto simp: nat_inv_def nat_start_def makeUDPNAT_def table_ok_def heap_inv_def objects_ok_def work_ok_def
      queues_ok_def workers_ok_def replies_ok_def auth_inv_def quiet_def opt_ok_def)

lemma nat_inv_step: "nat_inv s \<Longrightarrow> nat_step s t \<Longrightarrow> nat_inv t"
  unfolding nat_inv_def
  using table_step heap_step queues_step workers_step replies_step auth_step by blast

interpretation nat_relay: inductive_invariant nat_initial nat_step nat_inv
  by unfold_locales (auto simp: nat_initial_def nat_inv_start intro: nat_inv_step)

lemma nat_reachable_inv: "nat_step\<^sup>*\<^sup>* (nat_start opt now) s \<Longrightarrow> nat_inv s"
  by (rule nat_relay.inv_reachable) (auto simp: nat_initial_def)

lemma nat_reachable_opt: "nat_step\<^sup>*\<^sup>* (nat_start opt now) s \<Longrightarrow> nopt (relay s) = defaults opt"
  by (induction rule: rtranclp_induct) (simp_all add: nat_start_def makeUDPNAT_def step_monotone)

text \<open>The token bucket over a sequence of requests.\<close>

fun grants :: "int \<Rightarrow> rat \<times> instant \<Rightarrow> instant list \<Rightarrow> nat" where
  "grants rate b [] = 0"
| "grants rate b (now # ts) =
     (case take_token rate now b of (ok, b') \<Rightarrow> of_bool ok + grants rate b' ts)"

lemma grants_bound:
  assumes "0 \<le> tk" "tk \<le> of_int rate" "0 < rate" "sorted (tt # ts)"
  shows "rat_of_nat (grants rate (tk, tt) ts) \<le>
    tk + of_int (last (tt # ts) - tt) / of_int second * of_int rate"
  using assms
proof (induction ts arbitrary: tk tt)
  case (Cons now ts)
  obtain ok tk' tt' where t: "take_token rate now (tk, tt) = (ok, tk', tt')"
    by (metis prod.exhaust)
  have le: "tt \<le> now" using Cons.prems by simp
  note b = take_token_bounds [OF t Cons.prems(1,2) le Cons.prems(3)]
  from Cons.IH [OF b(1,2) Cons.prems(3), of now] Cons.prems(4)
  have "rat_of_nat (grants rate (tk', now) ts) \<le> tk' + of_int (last (now # ts) - now) / of_int second * of_int rate"
    by simp
  with b have "of_bool ok + rat_of_nat (grants rate (tk', now) ts) \<le>
      tk + of_int (now - tt) / of_int second * of_int rate + of_int (last (now # ts) - now) / of_int second * of_int rate"
    by linarith
  also have "\<dots> = tk + of_int (last (tt # now # ts) - tt) / of_int second * of_int rate"
    by (simp add: second_def field_simps)
  finally show ?case
    using t b(3) by simp
qed simp

section \<open>Properties\<close>

text \<open>C3: Resource bounds of the UDP relay under every interleaving of its goroutines: open
  flows and flows being dialled together never exceed the limit, the flow gauge is the number of
  open flows, no more dials run at once than there are workers, and both queues stay within
  their size. No two flows and no two dials have the same key.\<close>

theorem relay_bounds:
  assumes "nat_step\<^sup>*\<^sup>* (nat_start opt now) s"
  shows "int (length (nflows (relay s)) + length (npending (relay s))) \<le> MaxFlows (defaults opt) \<and>
    ngauge (relay s) = int (length (nflows (relay s))) \<and>
    int (length (dialing s)) \<le> Workers (defaults opt) \<and>
    int (length (nqueue (relay s))) \<le> QueueSize (defaults opt) \<and>
    int (length (npackets (relay s))) \<le> QueueSize (defaults opt) \<and>
    distinct (map fst (nflows (relay s)) @ map fst (dialing s))"
  using nat_reachable_inv [OF assms] nat_reachable_opt [OF assms]
  by (auto simp: nat_inv_def table_ok_def workers_ok_def queues_ok_def)

theorem relay_bounds_witness:
  "\<exists>opt s. nat_step\<^sup>*\<^sup>* (nat_start opt 0) s \<and> nauth (relay s) \<and>
     int (length (nflows (relay s)) + length (npending (relay s))) \<le> MaxFlows (defaults opt)"
proof -
  let ?o = "\<lparr>MaxFlows = 1, QueueSize = 1, Workers = 1, NewFlowsPerSecond = 1, MaxPayload = 100, IdleTimeout = 0\<rparr>"
  let ?s = "nat_start ?o 0"
  have st: "nat_step\<^sup>*\<^sup>* ?s (?s\<lparr>relay := (relay ?s)\<lparr>nauth := True\<rparr>\<rparr>)"
    by (blast intro: nat_step.authenticated)
  from relay_bounds [OF st] st show ?thesis by fastforce
qed

text \<open>C13: Before the session is authenticated the relay does nothing for it: no datagram is
  queued (so none can be replayed later), no destination is dialled, no flow exists and nothing
  is sent back.\<close>

theorem relay_waits_for_authentication:
  assumes "nat_step\<^sup>*\<^sup>* (nat_start opt now) s" and "\<not> nauth (relay s)"
  shows "nqueue (relay s) = [] \<and> npackets (relay s) = [] \<and> dialing s = [] \<and> nheap (relay s) = [] \<and>
    nflows (relay s) = [] \<and> nsent (relay s) = []"
proof -
  have inv: "nat_inv s"
    by (rule nat_reachable_inv [OF assms(1)])
  then have "nheap (relay s) = []" "quiet s"
    using assms(2) by (auto simp: nat_inv_def auth_inv_def quiet_def)
  moreover from this have "nflows (relay s) = []"
    using inv objects_okD(1) [of "[]" "nflows (relay s)"] by (cases "nflows (relay s)") (auto simp: nat_inv_def heap_inv_def)
  ultimately show ?thesis
    by (simp add: quiet_def)
qed

theorem relay_waits_for_authentication_witness:
  "\<exists>opt s. nat_step\<^sup>*\<^sup>* (nat_start opt 0) s \<and> ndrops (relay s) = [''auth''] \<and> nqueue (relay s) = []"
proof -
  let ?o = "\<lparr>MaxFlows = 1, QueueSize = 1, Workers = 1, NewFlowsPerSecond = 1, MaxPayload = 100, IdleTimeout = 0\<rparr>"
  let ?s = "nat_start ?o 0"
  let ?t = "?s\<lparr>relay := serveDatagram [2, 5, 1, 10, 0, 0, 1, 0, 53, 9] (relay ?s)\<rparr>"
  have st: "nat_step\<^sup>*\<^sup>* ?s ?t"
    by (blast intro: nat_step.received)
  have d: "\<not> nauth (relay ?t)" "ndrops (relay ?t) = [''auth'']"
    by (simp_all add: nat_start_def makeUDPNAT_def serveDatagram_def)
  from relay_waits_for_authentication [OF st d(1)] st d(2) show ?thesis by blast
qed


text \<open>A run in which a datagram opens a flow and a reply comes back.\<close>

definition sample_opt :: UDPOptions where
  "sample_opt = \<lparr>MaxFlows = 1, QueueSize = 1, Workers = 1, NewFlowsPerSecond = 1, MaxPayload = 100, IdleTimeout = 0\<rparr>"

definition sample_dg :: Datagram where
  "sample_dg = \<lparr>SessionID = 5, DAddr = \<lparr>Atyp = AtypIPv4, Host = [], IP = [10, 0, 0, 1], Port = 53\<rparr>, Payload = [9]\<rparr>"

definition sample_queued :: nat_sys where
  "sample_queued = (let s = nat_start sample_opt 0 in
     s\<lparr>relay := serveDatagram [2, 5, 1, 10, 0, 0, 1, 0, 53, 9] ((relay s)\<lparr>nauth := True\<rparr>)\<rparr>)"

definition sample_dialling :: nat_sys where
  "sample_dialling = worker_take 0 sample_dg [] sample_queued"

definition sample_key :: string where
  "sample_key = ''5|10.0.0.1:53''"

definition sample_open :: nat_sys where
  "sample_open = worker_dialled 0 sample_key sample_dg (Inr 7) True [] sample_dialling"

definition sample_reading :: nat_sys where
  "sample_reading = sample_open\<lparr>pumps := [(sample_key, 0, True)]\<rparr>"

definition sample_replied :: nat_sys where
  "sample_replied = (case pump_read 0 1 [8, 8] None None (relay sample_reading) of
     (next, n) \<Rightarrow> pump_loop sample_key 0 next [] (sample_reading\<lparr>relay := n\<rparr>))"

lemma sample_decode: "DecodeDatagram [2, 5, 1, 10, 0, 0, 1, 0, 53, 9] = Inr sample_dg"
  by (simp add: DecodeDatagram_def Uvarint_def Version_def MaxUDPDatagramSize_def MaxUDPPayload_def sample_dg_def
      decodeAddress_def decode_port_def AtypIPv4_def validated_def Validate_def zero_Address_def Uint16_def)

lemma sample_opt_defaults: "defaults sample_opt = sample_opt\<lparr>IdleTimeout := 60 * second\<rparr>"
  by (simp add: sample_opt_def defaults_def MaxUDPPayload_def)

lemma sample_flowKey: "flowKey (SessionID sample_dg) (Address_String (DAddr sample_dg)) = sample_key"
  by code_simp

lemma sample_queue: "nqueue (relay sample_queued) = [sample_dg]" "ntokenTime (relay sample_queued) = 0" "idle sample_queued = 1"
  by (simp_all add: sample_queued_def nat_start_def makeUDPNAT_def serveDatagram_def forward_def MaxUDPDatagramSize_def
      sample_decode sample_opt_defaults) (simp_all add: sample_opt_def sample_dg_def)

lemma sample_dial: "dialing sample_dialling = [(sample_key, sample_dg)]"
  by code_simp

lemma sample_pump: "pumps sample_open = [(sample_key, 0, False)]" "pump_continues (relay sample_open)"
  by code_simp+

lemma sample_sent: "nsent (relay sample_replied) = [EncodeDatagram 5 (DAddr sample_dg) [8, 8]]"
  by code_simp

lemma sample_run: "nat_step\<^sup>*\<^sup>* (nat_start sample_opt 0) sample_replied"
proof -
  let ?s = "nat_start sample_opt 0"
  let ?a = "?s\<lparr>relay := (relay ?s)\<lparr>nauth := True\<rparr>\<rparr>"
  have "nat_step\<^sup>*\<^sup>* ?s ?a"
    by (blast intro: nat_step.authenticated)
  also have "nat_step ?a sample_queued"
    using nat_step.received [of ?a "[2, 5, 1, 10, 0, 0, 1, 0, 53, 9]"] by (simp add: sample_queued_def Let_def)
  also have "nat_step sample_queued sample_dialling"
    unfolding sample_dialling_def by (rule nat_step.worker) (simp_all add: sample_queue)
  also have "nat_step sample_dialling sample_open"
    using nat_step.dialled [of sample_dialling "[]" sample_key sample_dg "[]" 0 "Inr 7" True]
    by (simp add: sample_open_def sample_dial)
  also have "nat_step sample_open sample_reading"
    using nat_step.pump_top [of sample_open "[]" sample_key 0 "[]"] by (simp add: sample_reading_def sample_pump)
  also have "nat_step sample_reading sample_replied"
    using nat_step.pump_got [of sample_reading "[]" sample_key 0 "[]" 1 "[8, 8]" None None]
    by (simp add: sample_replied_def) (simp add: sample_reading_def)
  finally show ?thesis by simp
qed


text \<open>C14: Closing leaves nothing behind: when all goroutines of the relay have ended, no flow
  and no pending dial is left, the flow gauge is back at zero, and the socket of every flow
  that was ever opened has been closed.\<close>

theorem relay_close_releases:
  assumes "nat_step\<^sup>*\<^sup>* (nat_start opt now) s" and "all_done s"
  shows "nflows (relay s) = [] \<and> npending (relay s) = [] \<and> ngauge (relay s) = 0 \<and>
    fsock ` set (nheap (relay s)) \<subseteq> set (nsock_closed (relay s))"
proof -
  have inv: "nat_inv s"
    by (rule nat_reachable_inv [OF assms(1)])
  have o: "objects_ok (ids (relay s)) (nflows (relay s)) (nsock_closed (relay s)) []"
    using inv assms(2) by (simp add: nat_inv_def heap_inv_def all_done_def)
  have fl: "nflows (relay s) = []"
    using objects_okD(1) [OF o] by (cases "nflows (relay s)") auto
  have "fsock f \<in> set (nsock_closed (relay s))" if "f \<in> set (nheap (relay s))" for f
    using that objects_okD(3) [OF o] by (auto simp: in_set_conv_nth flow_id_def)
  with inv assms(2) fl show ?thesis
    by (auto simp: nat_inv_def table_ok_def all_done_def)
qed

lemma sample_tuple:
  "(writing sample_replied, pumps sample_replied, idle sample_replied, dialing sample_replied, pworker sample_replied,
    nclosed (relay sample_replied), nheap (relay sample_replied) = []) =
   ([(True, 0)], [(sample_key, 0, False)], 0, [], Listening, False, False)"
  by code_simp

lemmas sample_fields = sample_tuple [unfolded prod.inject]

theorem relay_close_releases_witness:
  "\<exists>s. nat_step\<^sup>*\<^sup>* (nat_start sample_opt 0) s \<and> all_done s \<and> nheap (relay s) \<noteq> [] \<and> nflows (relay s) = []"
proof -
  let ?w = "write_done 1 True 0 None [] sample_replied"
  let ?c = "?w\<lparr>relay := close_nat (relay ?w)\<rparr>"
  let ?i = "?c\<lparr>idle := idle ?c - 1\<rparr>"
  let ?p = "?i\<lparr>pworker := Gone\<rparr>"
  let ?e = "pump_loop sample_key 0 False [] ?p"
  note f = sample_fields
  have 1: "writing sample_replied = [] @ (True, 0) # []" "\<not> nclosed (relay ?w)" "0 < idle ?c" "ncancelled (relay ?c)"
      "pworker ?i = Listening" "ncancelled (relay ?i)" "pumps ?p = [] @ (sample_key, 0, False) # []" "\<not> pump_continues (relay ?p)"
      "all_done ?e" "nheap (relay ?e) \<noteq> []"
    using f by (simp_all add: write_done_def write_begin_def write_end_def close_nat_def pump_continues_def all_done_def pump_loop_def)
  note sample_run
  also have "nat_step sample_replied ?w"
    using nat_step.wrote [OF 1(1), of 1 None] by simp
  also have "nat_step ?w ?c"
    by (rule nat_step.closed [OF 1(2)])
  also have "nat_step ?c ?i"
    by (rule nat_step.worker_exit [OF 1(3,4)])
  also have "nat_step ?i ?p"
    by (rule nat_step.packet_exit [OF 1(5,6)])
  also have "nat_step ?p ?e"
    using nat_step.pump_top [OF 1(7)] 1(8) by simp
  finally have r: "nat_step\<^sup>*\<^sup>* (nat_start sample_opt 0) ?e" .
  from relay_close_releases [OF r 1(9)] r 1(9,10) show ?thesis by blast
qed



end
