(* ===== verification/Compress.thy ===== *)
theory Compress
  imports Protocol_Frame
begin

text \<open>
  \<open>internal/compress/compress.go\<close>: block framing with optional DEFLATE. The flate library is
  two arguments: \<open>deflate\<close> (what \<open>Write\<close> and \<open>Close\<close> of an encoder leave in its buffer, or
  their error) and \<open>inflate\<close> (all the output of a decoder, the error that ends it, and the
  number of input bytes it has not consumed). The pool of idle encoders and the measured encode
  time are left out: an encoder is reset before each block.
\<close>

section \<open>Definitions\<close>

definition blockSize :: nat where "blockSize = 32 * 1024"
definition markerRaw :: byte where "markerRaw = 0"
definition markerFlate :: byte where "markerFlate = 1"

record Stats =
  InputBytes :: nat
  OutputBytes :: nat
  Attempted :: nat
  Skipped :: nat
  Compressed :: nat

definition zero_Stats :: Stats where
  "zero_Stats = \<lparr>InputBytes = 0, OutputBytes = 0, Attempted = 0, Skipped = 0, Compressed = 0\<rparr>"

definition writeFull :: "bytes \<Rightarrow> writer \<Rightarrow> go_error option \<times> writer" where
  "writeFull data w =
     (case Write data w of ((n, err), w) \<Rightarrow>
        (if err = None \<and> n \<noteq> length data then Some ErrShortWrite else err, w))"

text \<open>A source is the list of what its \<open>Read\<close> calls deliver; a longer piece than the buffer is
  delivered in several calls, and after the list the source is at its end.\<close>

type_synonym source = "(bytes \<times> go_error option) list"

definition next_read :: "source \<Rightarrow> (bytes \<times> go_error option) \<times> source" where
  "next_read src =
     (case src of
        [] \<Rightarrow> (([], Some EOF), [])
      | (d, e) # rest \<Rightarrow>
          if blockSize < length d then ((take blockSize d, None), (drop blockSize d, e) # rest)
          else ((d, e), rest))"

record copy_state =
  dst :: writer
  misses :: nat
  skipBytes :: nat
  total :: nat
  emptyReads :: nat
  stats :: Stats
  observed_stats :: "Stats list"
  payloads :: "nat list"

definition copy_start :: "writer \<Rightarrow> copy_state" where
  "copy_start w = \<lparr>dst = w, misses = 0, skipBytes = 0, total = 0, emptyReads = 0, stats = zero_Stats,
     observed_stats = [], payloads = []\<rparr>"

definition flush :: "bool \<Rightarrow> copy_state \<Rightarrow> copy_state" where
  "flush observe s =
     (if observe \<and> 0 < InputBytes (stats s)
      then s\<lparr>observed_stats := observed_stats s @ [stats s], stats := zero_Stats\<rparr> else s)"

text \<open>The choice of mode and data for one block.\<close>

definition choose_block ::
    "(bytes \<Rightarrow> go_error + bytes) \<Rightarrow> bytes \<Rightarrow> copy_state \<Rightarrow> go_error + (byte \<times> bytes \<times> copy_state)" where
  "choose_block deflate buf s =
     (let n = length buf; st = stats s
      in if n < 256 \<or> 0 < skipBytes s then
           Inr (markerRaw, buf, s\<lparr>stats := st\<lparr>Skipped := Skipped st + 1\<rparr>, skipBytes := skipBytes s - n\<rparr>)
         else (case deflate buf of
             Inl err \<Rightarrow> Inl err
           | Inr compressed \<Rightarrow>
               if length compressed * 100 < n * 90 then
                 Inr (markerFlate, compressed,
                   s\<lparr>stats := st\<lparr>Attempted := Attempted st + 1, Compressed := Compressed st + 1\<rparr>, misses := 0\<rparr>)
               else
                 Inr (markerRaw, buf,
                   s\<lparr>stats := st\<lparr>Attempted := Attempted st + 1\<rparr>, misses := misses s + 1,
                     skipBytes := (if 3 \<le> misses s + 1 then 256 * 1024 else skipBytes s)\<rparr>)))"

definition frame :: "byte \<Rightarrow> nat \<Rightarrow> bytes \<Rightarrow> bytes" where
  "frame mode n data = [mode] @ be16 (of_nat n) @ be16 (of_nat (length data)) @ data"

text \<open>The body of the loop for a non-empty read: the error that ends the copy, if any.\<close>

definition copy_block ::
    "(bytes \<Rightarrow> go_error + bytes) \<Rightarrow> bool \<Rightarrow> bytes \<Rightarrow> copy_state \<Rightarrow> go_error option \<times> copy_state" where
  "copy_block deflate observe buf s =
     (let n = length buf; s = s\<lparr>emptyReads := 0\<rparr>
      in case choose_block deflate buf s of
           Inl err \<Rightarrow> (Some err, s)
         | Inr (mode, data, s) \<Rightarrow>
             (case writeFull (frame mode n data) (dst s) of
                (Some err, w) \<Rightarrow> (Some err, s\<lparr>dst := w\<rparr>)
              | (None, w) \<Rightarrow>
                  (let s = s\<lparr>dst := w, total := total s + n,
                       stats := (stats s)\<lparr>InputBytes := InputBytes (stats s) + n,
                         OutputBytes := OutputBytes (stats s) + (5 + length data)\<rparr>\<rparr>;
                       s = (if 2 ^ 20 \<le> InputBytes (stats s) then flush observe s else s)
                   in (None, s\<lparr>payloads := payloads s @ [n]\<rparr>))))"

definition source_size :: "source \<Rightarrow> nat" where
  "source_size src = sum_list (map (\<lambda>(d, e). length d + 1) src)"

lemma next_read_smaller:
  "next_read src = ((d, e), rest) \<Longrightarrow> src \<noteq> [] \<Longrightarrow> source_size rest < source_size src"
  by (auto simp: next_read_def source_size_def blockSize_def split: list.splits if_splits)

lemma next_read_none:
  assumes "next_read src = ((d, None), rest)"
  shows "source_size rest < source_size src"
  using assms next_read_smaller [OF assms] by (cases src) (simp_all add: next_read_def)

function copy_loop ::
    "(bytes \<Rightarrow> go_error + bytes) \<Rightarrow> bool \<Rightarrow> source \<Rightarrow> copy_state \<Rightarrow> (nat \<times> go_error option) \<times> copy_state" where
  "copy_loop deflate observe src s =
     (case next_read src of
        ((buf, readErr), rest) \<Rightarrow>
          if buf \<noteq> [] then
            (case copy_block deflate observe buf s of
               (Some err, s) \<Rightarrow> ((total s, Some err), s)
             | (None, s) \<Rightarrow>
                 (case readErr of
                    Some e \<Rightarrow> ((total s, if e = EOF then None else Some e), s)
                  | None \<Rightarrow> copy_loop deflate observe rest s))
          else
            (case readErr of
               Some e \<Rightarrow> ((total s, if e = EOF then None else Some e), s)
             | None \<Rightarrow>
                 let s = s\<lparr>emptyReads := emptyReads s + 1\<rparr>
                 in if 100 \<le> emptyReads s then ((total s, Some ErrNoProgress), s)
                    else copy_loop deflate observe rest s))"
  by pat_completeness auto

termination
  by (relation "measure (\<lambda>(deflate, observe, src, s). source_size src)")
     (auto dest!: next_read_none [OF sym])

declare copy_loop.simps [simp del]

text \<open>The deferred \<open>flush\<close> runs last.\<close>

definition CopyObserved ::
    "(bytes \<Rightarrow> go_error + bytes) \<Rightarrow> bool \<Rightarrow> source \<Rightarrow> writer \<Rightarrow> (nat \<times> go_error option) \<times> copy_state" where
  "CopyObserved deflate observe src w =
     (case copy_loop deflate observe src (copy_start w) of (r, s) \<Rightarrow> (r, flush observe s))"

definition CopyCounted :: "(bytes \<Rightarrow> go_error + bytes) \<Rightarrow> source \<Rightarrow> writer \<Rightarrow> (nat \<times> go_error option) \<times> copy_state" where
  "CopyCounted deflate src w = CopyObserved deflate False src w"

definition Copy :: "(bytes \<Rightarrow> go_error + bytes) \<Rightarrow> source \<Rightarrow> writer \<Rightarrow> (nat \<times> go_error option) \<times> copy_state" where
  "Copy deflate src w = CopyCounted deflate src w"

section \<open>Decoding\<close>

type_synonym inflater = "bytes \<Rightarrow> bytes \<times> go_error \<times> nat"

definition decode_block :: "inflater \<Rightarrow> byte \<Rightarrow> nat \<Rightarrow> bytes \<Rightarrow> go_error + bytes" where
  "decode_block inflate mode rawLen data =
     (if mode = markerRaw then
        (if rawLen \<noteq> length data then Inl (ErrorString ''compress: raw length mismatch'') else Inr data)
      else if mode = markerFlate then
        (case inflate data of
           (out, endErr, unread) \<Rightarrow>
             if length out \<noteq> rawLen \<or> endErr \<noteq> EOF \<or> unread \<noteq> 0
             then Inl (ErrorString ''compress: invalid compressed block'')
             else Inr out)
      else Inl (ErrorString ''compress: unknown block mode''))"

text \<open>One block of the stream: its data, or how the copy ends.\<close>

datatype block_read = BlockEnd "go_error option" | Block bytes

definition read_block :: "inflater \<Rightarrow> reader \<Rightarrow> block_read \<times> reader" where
  "read_block inflate src =
     (if rbuf src = [] \<and> rend src = EOF then (BlockEnd None, src)
      else (case ReadFull 5 src of
          (Inl err, src) \<Rightarrow> (BlockEnd (Some err), src)
        | (Inr header, src) \<Rightarrow>
            (let rawLen = unat (Uint16 (take 2 (drop 1 header)));
                 encLen = unat (Uint16 (take 2 (drop 3 header)))
             in if rawLen = 0 \<or> blockSize < rawLen \<or> encLen = 0 \<or> blockSize < encLen
                then (BlockEnd (Some (ErrorString ''compress: invalid block length'')), src)
                else (case ReadFull encLen src of
                    (Inl err, src) \<Rightarrow> (BlockEnd (Some err), src)
                  | (Inr data, src) \<Rightarrow>
                      (case decode_block inflate (header ! 0) rawLen data of
                         Inl err \<Rightarrow> (BlockEnd (Some err), src)
                       | Inr data \<Rightarrow> (Block data, src))))))"

lemma read_block_smaller:
  assumes "read_block inflate src = (Block data, src')"
  shows "length (rbuf src') < length (rbuf src)"
proof -
  from assms obtain header src1 d n where h: "ReadFull 5 src = (Inr header, src1)" "ReadFull n src1 = (Inr d, src')"
    by (auto simp: read_block_def Let_def split: if_splits prod.splits sum.splits)
  from ReadFull_split [OF h(1)] ReadFull_split [OF h(2)] show ?thesis
    by simp
qed

function decopy_loop :: "inflater \<Rightarrow> nat \<Rightarrow> reader \<Rightarrow> writer \<Rightarrow> (nat \<times> go_error option) \<times> reader \<times> writer" where
  "decopy_loop inflate tot src w =
     (case read_block inflate src of
        (BlockEnd err, src) \<Rightarrow> ((tot, err), src, w)
      | (Block data, src) \<Rightarrow>
          (case writeFull data w of
             (Some err, w) \<Rightarrow> ((tot, Some err), src, w)
           | (None, w) \<Rightarrow> decopy_loop inflate (tot + length data) src w))"
  by pat_completeness auto

termination
  by (relation "measure (\<lambda>(inflate, tot, src, w). length (rbuf src))")
     (auto dest!: read_block_smaller [OF sym])

declare decopy_loop.simps [simp del]

definition Decopy :: "inflater \<Rightarrow> reader \<Rightarrow> writer \<Rightarrow> (nat \<times> go_error option) \<times> reader \<times> writer" where
  "Decopy inflate src w = decopy_loop inflate 0 src w"

section \<open>Streams of blocks\<close>

definition block_ok :: "inflater \<Rightarrow> byte \<Rightarrow> bytes \<Rightarrow> bytes \<Rightarrow> bool" where
  "block_ok inflate mode buf data =
     (decode_block inflate mode (length buf) data = Inr buf \<and>
      0 < length buf \<and> length buf \<le> blockSize \<and> 0 < length data \<and> length data \<le> blockSize)"

text \<open>\<open>stream inflate k raw enc\<close>: \<open>enc\<close> is a sequence of \<open>k\<close> whole blocks that decode to \<open>raw\<close>.\<close>

inductive stream :: "inflater \<Rightarrow> nat \<Rightarrow> bytes \<Rightarrow> bytes \<Rightarrow> bool" for inflate where
  stop: "stream inflate 0 [] []"
| more: "block_ok inflate mode buf data \<Longrightarrow> stream inflate k raw enc \<Longrightarrow>
    stream inflate (Suc k) (buf @ raw) (frame mode (length buf) data @ enc)"

inductive_cases stream_NilE: "stream inflate k raw []"

lemma stream_append:
  "stream inflate k raw enc \<Longrightarrow> stream inflate j raw2 enc2 \<Longrightarrow> stream inflate (k + j) (raw @ raw2) (enc @ enc2)"
  by (induction rule: stream.induct) (auto intro: stream.more)

lemma stream_single: "block_ok inflate mode buf data \<Longrightarrow> stream inflate 1 buf (frame mode (length buf) data)"
  using stream.more [OF _ stream.stop] by fastforce

lemma length_frame [simp]: "length (frame mode n data) = 5 + length data"
  by (simp add: frame_def)

lemma u16_block: "n \<le> blockSize \<Longrightarrow> unat (of_nat n :: u16) = n"
  by (simp add: blockSize_def unat_of_nat)

lemma read_block_frame:
  assumes "block_ok inflate mode buf data"
  shows "read_block inflate \<lparr>rbuf = frame mode (length buf) data @ rest, rend = e\<rparr> = (Block buf, \<lparr>rbuf = rest, rend = e\<rparr>)"
proof -
  let ?h = "[mode] @ be16 (of_nat (length buf)) @ be16 (of_nat (length data))"
  have "ReadFull 5 \<lparr>rbuf = ?h @ data @ rest, rend = e\<rparr> = (Inr ?h, \<lparr>rbuf = data @ rest, rend = e\<rparr>)"
    by (rule ReadFull_append) simp
  moreover have "ReadFull (length data) \<lparr>rbuf = data @ rest, rend = e\<rparr> = (Inr data, \<lparr>rbuf = rest, rend = e\<rparr>)"
    by (rule ReadFull_append) simp
  moreover have "unat (Uint16 (take 2 (drop 1 ?h))) = length buf" "unat (Uint16 (take 2 (drop 3 ?h))) = length data"
    using assms by (simp_all add: block_ok_def u16_block)
  ultimately show ?thesis
    using assms by (simp add: read_block_def frame_def block_ok_def)
qed

lemma decode_block_nonempty:
  "decode_block inflate mode n data = Inr out \<Longrightarrow> length out = n"
  by (auto simp: decode_block_def split: if_splits prod.splits)

lemma be16_u16: "length b = 2 \<Longrightarrow> be16 (of_nat (unat (Uint16 b))) = b"
  by (simp add: be16_Uint16)

lemma read_block_inv:
  assumes "read_block inflate src = (Block buf, src')"
  obtains mode data where "block_ok inflate mode buf data" "rbuf src = frame mode (length buf) data @ rbuf src'" "rend src' = rend src"
proof -
  from assms obtain header src1 data where
    h: "ReadFull 5 src = (Inr header, src1)"
    and len: "0 < unat (Uint16 (take 2 (drop 1 header)))" "unat (Uint16 (take 2 (drop 1 header))) \<le> blockSize"
      "0 < unat (Uint16 (take 2 (drop 3 header)))" "unat (Uint16 (take 2 (drop 3 header))) \<le> blockSize"
    and d: "ReadFull (unat (Uint16 (take 2 (drop 3 header)))) src1 = (Inr data, src')"
    and b: "decode_block inflate (header ! 0) (unat (Uint16 (take 2 (drop 1 header)))) data = Inr buf"
    by (auto simp: read_block_def Let_def split: if_splits prod.splits sum.splits)
  note hs = ReadFull_split [OF h] and ds = ReadFull_split [OF d]
  have buf: "length buf = unat (Uint16 (take 2 (drop 1 header)))"
    by (rule decode_block_nonempty [OF b])
  from hs(2) obtain m r1 r2 e1 e2 where hd: "header = [m, r1, r2, e1, e2]"
    by (auto simp: length_Suc_conv numeral_eq_Suc)
  have ok: "block_ok inflate (header ! 0) buf data"
    using b buf len ds(2) by (simp add: block_ok_def)
  have "be16 (of_nat (length buf)) = [r1, r2]" "be16 (of_nat (length data)) = [e1, e2]"
    using be16_u16 [of "[r1, r2]"] be16_u16 [of "[e1, e2]"] buf ds(2) hd by simp_all
  then have "frame (header ! 0) (length buf) data = header @ data"
    by (simp add: frame_def hd)
  with ok hs ds that show thesis by simp
qed

lemma writeFull_good: "wplan w = [] \<Longrightarrow> writeFull data w = (None, w\<lparr>wout := wout w @ data\<rparr>)"
  by (simp add: writeFull_def)

lemma writeFull_ok: "writeFull data w = (None, w') \<Longrightarrow> wout w' = wout w @ data"
  using Write_extends [of data w] by (fastforce simp: writeFull_def split: prod.splits if_splits)

lemma decopy_stream:
  "stream inflate k raw enc \<Longrightarrow> wplan w = [] \<Longrightarrow>
   decopy_loop inflate t \<lparr>rbuf = enc, rend = EOF\<rparr> w =
     ((t + length raw, None), \<lparr>rbuf = [], rend = EOF\<rparr>, w\<lparr>wout := wout w @ raw\<rparr>)"
proof (induction arbitrary: t w rule: stream.induct)
  case stop
  then show ?case by (simp add: decopy_loop.simps [of inflate t] read_block_def)
next
  case (more mode buf data k raw enc)
  from more.IH [of "w\<lparr>wout := wout w @ buf\<rparr>" "t + length buf"] more.prems
  show ?case
    by (simp add: decopy_loop.simps [of inflate t] read_block_frame [OF more.hyps(1)] writeFull_good)
qed

lemma decopy_inv:
  "decopy_loop inflate t src w = ((t', None), src', w') \<Longrightarrow> rend src = EOF \<Longrightarrow>
   \<exists>k raw. stream inflate k raw (rbuf src) \<and> wout w' = wout w @ raw \<and> t' = t + length raw"
proof (induction inflate t src w rule: decopy_loop.induct)
  case (1 inflate t src w)
  obtain x src1 where rb: "read_block inflate src = (x, src1)"
    by (rule prod.exhaust)
  show ?case
  proof (cases x)
    case (BlockEnd e)
    with "1.prems" rb have "rbuf src = []" "w' = w" "t' = t"
      by (auto simp: decopy_loop.simps [of inflate t src] read_block_def Let_def split: if_splits prod.splits sum.splits)
    then show ?thesis
      using stream.stop by fastforce
  next
    case (Block buf)
    with rb obtain mode data where b: "block_ok inflate mode buf data"
        "rbuf src = frame mode (length buf) data @ rbuf src1" "rend src1 = rend src"
      by (auto elim: read_block_inv)
    obtain e w1 where w: "writeFull buf w = (e, w1)"
      by (rule prod.exhaust)
    with "1.prems"(1) rb Block have "e = None" and rec: "decopy_loop inflate (t + length buf) src1 w1 = ((t', None), src', w')"
      by (auto simp: decopy_loop.simps [of inflate t src] split: option.splits)
    from "1.IH" [OF rb [symmetric] Block w [symmetric] this(1) this(2)] b(3) "1.prems"(2) obtain k raw where
      "stream inflate k raw (rbuf src1)" "wout w' = wout w1 @ raw" "t' = t + length buf + length raw"
      by auto
    with b(1,2) writeFull_ok [of buf w w1] w \<open>e = None\<close> stream.more [OF b(1)] show ?thesis
      by fastforce
  qed
qed

section \<open>What the copy writes\<close>

text \<open>The documented behaviour of the flate library: what the encoder produced is not empty, and
  the decoder reads exactly it back.\<close>

definition flate_inverse :: "(bytes \<Rightarrow> go_error + bytes) \<Rightarrow> inflater \<Rightarrow> bool" where
  "flate_inverse deflate inflate = (\<forall>d z. deflate d = Inr z \<longrightarrow> z \<noteq> [] \<and> inflate z = (d, EOF, 0))"

text \<open>The bytes a source delivers before its first error, and that error.\<close>

fun delivered :: "source \<Rightarrow> bytes" where
  "delivered [] = []"
| "delivered ((d, e) # rest) = d @ (if e = None then delivered rest else [])"

lemma next_read_delivered:
  "next_read src = ((buf, e), rest) \<Longrightarrow>
   length buf \<le> blockSize \<and> delivered src = buf @ (if e = None then delivered rest else [])"
  by (auto simp: next_read_def split: list.splits if_splits)

lemma choose_block_ok:
  assumes "flate_inverse deflate inflate" "choose_block deflate buf s = Inr (mode, data, s')"
    "buf \<noteq> []" "length buf \<le> blockSize"
  shows "block_ok inflate mode buf data \<and> length data \<le> length buf \<and> dst s' = dst s \<and> total s' = total s \<and>
    payloads s' = payloads s \<and> observed_stats s' = observed_stats s \<and>
    InputBytes (stats s') = InputBytes (stats s) \<and> OutputBytes (stats s') = OutputBytes (stats s)"
  using assms
  by (auto simp: choose_block_def block_ok_def decode_block_def flate_inverse_def Let_def markerRaw_def markerFlate_def
      split: if_splits sum.splits)

lemma flush_keeps [simp]:
  "dst (flush b s) = dst s" "total (flush b s) = total s" "payloads (flush b s) = payloads s"
  by (simp_all add: flush_def)

text \<open>A statistic summed over the reports made and the one in progress.\<close>

definition seen :: "(Stats \<Rightarrow> nat) \<Rightarrow> copy_state \<Rightarrow> nat" where
  "seen f s = sum_list (map f (observed_stats s)) + f (stats s)"

lemma flush_seen [simp]:
  "seen InputBytes (flush b s) = seen InputBytes s" "seen OutputBytes (flush b s) = seen OutputBytes s"
  by (simp_all add: flush_def seen_def zero_Stats_def)

definition stats_ok :: "copy_state \<Rightarrow> bool" where
  "stats_ok s = (OutputBytes (stats s) \<le> 6 * InputBytes (stats s))"

lemma flush_stats_ok [simp]: "stats_ok s \<Longrightarrow> stats_ok (flush b s)"
  by (simp add: flush_def stats_ok_def zero_Stats_def)

lemma flush_reports:
  assumes "stats_ok s" "f = InputBytes \<or> f = OutputBytes"
  shows "sum_list (map f (observed_stats (flush True s))) = seen f s"
  using assms by (auto simp: flush_def seen_def stats_ok_def)

text \<open>\<open>written\<close>: since a state, the copy has written whole blocks of these raw bytes.\<close>

definition written :: "inflater \<Rightarrow> copy_state \<Rightarrow> bytes \<Rightarrow> copy_state \<Rightarrow> bool" where
  "written inflate s raw s' =
     (\<exists>k enc. stream inflate k raw enc \<and> wout (dst s') = wout (dst s) @ enc \<and>
        length enc \<le> length raw + 5 * k \<and> length (payloads s') = length (payloads s) + k \<and>
        total s' = total s + length raw \<and> seen InputBytes s' = seen InputBytes s + length raw \<and>
        seen OutputBytes s' = seen OutputBytes s + length enc \<and> (stats_ok s \<longrightarrow> stats_ok s'))"

lemma written_refl: "written inflate s [] s"
  using stream.stop by (fastforce simp: written_def)

lemma written_trans:
  assumes "written inflate s raw s1" "written inflate s1 raw2 s2"
  shows "written inflate s (raw @ raw2) s2"
proof -
  from assms obtain k enc j enc2 where
    a: "stream inflate k raw enc" "wout (dst s1) = wout (dst s) @ enc" "length enc \<le> length raw + 5 * k"
      "length (payloads s1) = length (payloads s) + k" "total s1 = total s + length raw"
      "seen InputBytes s1 = seen InputBytes s + length raw" "seen OutputBytes s1 = seen OutputBytes s + length enc"
      "stats_ok s \<longrightarrow> stats_ok s1" and
    b: "stream inflate j raw2 enc2" "wout (dst s2) = wout (dst s1) @ enc2" "length enc2 \<le> length raw2 + 5 * j"
      "length (payloads s2) = length (payloads s1) + j" "total s2 = total s1 + length raw2"
      "seen InputBytes s2 = seen InputBytes s1 + length raw2" "seen OutputBytes s2 = seen OutputBytes s1 + length enc2"
      "stats_ok s1 \<longrightarrow> stats_ok s2"
    unfolding written_def by blast
  show ?thesis
    unfolding written_def using stream_append [OF a(1) b(1)] a(2-) b(2-)
    by (intro exI [of _ "k + j"] exI [of _ "enc @ enc2"]) simp
qed

lemma copy_block_written:
  assumes "flate_inverse deflate inflate" "copy_block deflate observe buf s = (None, s')"
    "buf \<noteq> []" "length buf \<le> blockSize"
  shows "written inflate s buf s'"
proof -
  from assms(2) obtain mode data s1 w where
    c: "choose_block deflate buf (s\<lparr>emptyReads := 0\<rparr>) = Inr (mode, data, s1)" and
    w: "writeFull (frame mode (length buf) data) (dst s1) = (None, w)" and
    s': "dst s' = w" "total s' = total s1 + length buf" "payloads s' = payloads s1 @ [length buf]"
      "seen InputBytes s' = seen InputBytes s1 + length buf" "seen OutputBytes s' = seen OutputBytes s1 + (5 + length data)"
    and ok': "OutputBytes (stats s1) + (5 + length data) \<le> 6 * (InputBytes (stats s1) + length buf) \<longrightarrow> stats_ok s'"
    by (auto simp: copy_block_def Let_def seen_def flush_def stats_ok_def zero_Stats_def
        split: sum.splits prod.splits option.splits if_splits)
  from choose_block_ok [OF assms(1) c assms(3,4)] have ok: "block_ok inflate mode buf data" "length data \<le> length buf"
      "dst s1 = dst s" "total s1 = total s" "payloads s1 = payloads s"
      "seen InputBytes s1 = seen InputBytes s" "seen OutputBytes s1 = seen OutputBytes s"
    and st: "InputBytes (stats s1) = InputBytes (stats s)" "OutputBytes (stats s1) = OutputBytes (stats s)"
    by (simp_all add: seen_def)
  from assms(3) have "1 \<le> length buf" by (simp add: Suc_le_eq)
  with ok(2) have "5 + length data \<le> 6 * length buf"
    by linarith
  then have "stats_ok s \<Longrightarrow> OutputBytes (stats s1) + (5 + length data) \<le> 6 * (InputBytes (stats s1) + length buf)"
    by (simp only: stats_ok_def st add_mult_distrib2 add_mono)
  with ok' have ok'': "stats_ok s \<longrightarrow> stats_ok s'"
    by blast
  show ?thesis
    unfolding written_def using stream_single [OF ok(1)] writeFull_ok [OF w] ok(2-) s' ok''
    by (intro exI [of _ 1] exI [of _ "frame mode (length buf) data"]) simp
qed

lemma copy_loop_written:
  assumes "flate_inverse deflate inflate" "copy_loop deflate observe src s = ((t, None), s')"
  shows "written inflate s (delivered src) s' \<and> t = total s'"
  using assms
proof (induction deflate observe src s rule: copy_loop.induct)
  case (1 deflate observe src s)
  obtain buf e rest where nr: "next_read src = ((buf, e), rest)"
    by (metis prod.exhaust)
  note d = next_read_delivered [OF nr]
  show ?case
  proof (cases "buf = []")
    case True
    with "1.IH"(2) [OF nr [symmetric] refl] "1.prems" nr d show ?thesis
      by (cases e) (auto simp: copy_loop.simps [of deflate observe src] written_refl stream.stop Let_def written_def seen_def stats_ok_def
          split: if_splits)
  next
    case False
    with "1.prems" nr obtain s1 where b: "copy_block deflate observe buf s = (None, s1)"
      by (auto simp: copy_loop.simps [of deflate observe src] split: prod.splits option.splits)
    note w = copy_block_written [OF "1.prems"(1) b False]
    from "1.IH"(1) [OF nr [symmetric] refl False b [symmetric] refl] "1.prems" nr d w b False show ?thesis
      by (cases e) (auto simp: copy_loop.simps [of deflate observe src] intro: written_trans)
  qed
qed

lemma CopyObserved_written:
  assumes "flate_inverse deflate inflate" "CopyObserved deflate observe src w = ((t, None), s')"
  shows "written inflate (copy_start w) (delivered src) s' \<and> t = total s'"
  using assms copy_loop_written [OF assms(1)]
  by (fastforce simp: CopyObserved_def written_def split: prod.splits)

text \<open>A source that ends without an error and never returns a hundred empty reads in a row.\<close>

fun progresses :: "nat \<Rightarrow> source \<Rightarrow> bool" where
  "progresses n [] = True"
| "progresses n ((d, e) # rest) =
     (case e of
        Some err \<Rightarrow> err = EOF
      | None \<Rightarrow> if d = [] then n + 1 < 100 \<and> progresses (n + 1) rest else progresses 0 rest)"

lemma next_read_progresses:
  assumes "next_read src = ((buf, e), rest)" "progresses n src"
  shows "case e of
       Some err \<Rightarrow> err = EOF
     | None \<Rightarrow> if buf = [] then n + 1 < 100 \<and> progresses (n + 1) rest else progresses 0 rest"
  using assms by (cases src) (auto simp: next_read_def blockSize_def split: if_splits option.splits)

lemma copy_block_succeeds:
  assumes "\<forall>d. \<exists>z. deflate d = Inr z" "wplan (dst s) = []"
  shows "\<exists>s'. copy_block deflate observe buf s = (None, s') \<and> wplan (dst s') = [] \<and> emptyReads s' = 0"
proof -
  from assms(1) obtain z where "deflate buf = Inr z" by blast
  then have "\<exists>mode data s1. choose_block deflate buf (s\<lparr>emptyReads := 0\<rparr>) = Inr (mode, data, s1) \<and>
      dst s1 = dst s \<and> emptyReads s1 = 0"
    by (simp add: choose_block_def Let_def)
  then obtain mode data s1 where "choose_block deflate buf (s\<lparr>emptyReads := 0\<rparr>) = Inr (mode, data, s1)"
      "dst s1 = dst s" "emptyReads s1 = 0"
    by blast
  with assms(2) show ?thesis
    by (simp add: copy_block_def writeFull_good Let_def flush_def)
qed

lemma copy_loop_succeeds:
  assumes "\<forall>d. \<exists>z. deflate d = Inr z" "wplan (dst s) = []" "progresses (emptyReads s) src"
  shows "\<exists>t s'. copy_loop deflate observe src s = ((t, None), s')"
  using assms
proof (induction deflate observe src s rule: copy_loop.induct)
  case (1 deflate observe src s)
  obtain buf e rest where nr: "next_read src = ((buf, e), rest)"
    by (metis prod.exhaust)
  note p = next_read_progresses [OF nr "1.prems"(3)]
  show ?case
  proof (cases "buf = []")
    case True
    with "1.IH"(2) [OF nr [symmetric] refl] "1.prems" nr p show ?thesis
      by (cases e) (simp_all add: copy_loop.simps [of deflate observe src])
  next
    case False
    from copy_block_succeeds [OF "1.prems"(1,2)] obtain s1
      where b: "copy_block deflate observe buf s = (None, s1)" "wplan (dst s1) = []" "emptyReads s1 = 0"
      by blast
    from "1.IH"(1) [OF nr [symmetric] refl False b(1) [symmetric] refl] "1.prems"(1) nr p b False show ?thesis
      by (cases e) (simp_all add: copy_loop.simps [of deflate observe src])
  qed
qed

lemma CopyObserved_succeeds:
  assumes "\<forall>d. \<exists>z. deflate d = Inr z" "wplan w = []" "progresses 0 src"
  shows "\<exists>t s'. CopyObserved deflate observe src w = ((t, None), s')"
  using copy_loop_succeeds [OF assms(1), of "copy_start w" src observe] assms(2,3)
  by (auto simp: CopyObserved_def copy_start_def)

text \<open>An encoder and its decoder for the concrete runs below: a run of zeros becomes its length.\<close>

definition run_deflate :: "bytes \<Rightarrow> go_error + bytes" where
  "run_deflate d =
     (if length d < 65536 \<and> d = replicate (length d) 0 then Inr (0 # be16 (of_nat (length d))) else Inr (1 # d))"

definition run_inflate :: inflater where
  "run_inflate z =
     (case z of
        [] \<Rightarrow> ([], ErrUnexpectedEOF, 0)
      | m # d \<Rightarrow> if m = 0 then (replicate (unat (Uint16 d)) 0, EOF, 0) else (d, EOF, 0))"

lemma run_flate: "flate_inverse run_deflate run_inflate" "\<forall>d. \<exists>z. run_deflate d = Inr z"
proof -
  have "n < 65536 \<Longrightarrow> unat (of_nat n :: u16) = n" for n
    by (simp add: unat_of_nat)
  then show "flate_inverse run_deflate run_inflate"
    by (auto simp: flate_inverse_def run_deflate_def run_inflate_def)
  show "\<forall>d. \<exists>z. run_deflate d = Inr z"
    by (simp add: run_deflate_def)
qed

section \<open>Properties\<close>

text \<open>C4: The round trip. If the decoder inverts the encoder, a source that ends cleanly is
  copied without error, and expanding what was written gives back exactly its bytes, with the
  same count, nothing left over and no error, whatever the sizes of its reads.\<close>

theorem Decopy_CopyObserved:
  assumes "flate_inverse deflate inflate" "\<forall>d. \<exists>z. deflate d = Inr z" "progresses 0 src" "wplan w = []"
  shows "\<exists>s. CopyObserved deflate observe src \<lparr>wout = [], wplan = []\<rparr> = ((length (delivered src), None), s) \<and>
    Decopy inflate \<lparr>rbuf = wout (dst s), rend = EOF\<rparr> w =
      ((length (delivered src), None), \<lparr>rbuf = [], rend = EOF\<rparr>, w\<lparr>wout := wout w @ delivered src\<rparr>)"
proof -
  from CopyObserved_succeeds [OF assms(2) _ assms(3), of "\<lparr>wout = [], wplan = []\<rparr>" observe] obtain t s where
    c: "CopyObserved deflate observe src \<lparr>wout = [], wplan = []\<rparr> = ((t, None), s)" by (auto simp del: split_paired_Ex)
  from CopyObserved_written [OF assms(1) c] obtain k where
    "stream inflate k (delivered src) (wout (dst s))" "t = length (delivered src)"
    by (auto simp: written_def copy_start_def)
  with c decopy_stream [OF this(1) assms(4), of 0] show ?thesis
    by (simp add: Decopy_def)
qed

theorem Decopy_CopyObserved_witness:
  "\<exists>s. CopyObserved run_deflate True [(replicate 300 0, None), ([], None), ([1, 2], Some EOF)] \<lparr>wout = [], wplan = []\<rparr> =
      ((302, None), s) \<and>
    Decopy run_inflate \<lparr>rbuf = wout (dst s), rend = EOF\<rparr> \<lparr>wout = [9], wplan = []\<rparr> =
      ((302, None), \<lparr>rbuf = [], rend = EOF\<rparr>, \<lparr>wout = 9 # replicate 300 0 @ [1, 2], wplan = []\<rparr>)"
  using Decopy_CopyObserved [OF run_flate, of "[(replicate 300 0, None), ([], None), ([1, 2], Some EOF)]"
      "\<lparr>wout = [9], wplan = []\<rparr>" True]
  by simp

text \<open>C18: A successful copy costs at most five bytes for each block, and reports exactly what it
  did: the reports add up to the bytes read and the bytes written.\<close>

theorem CopyObserved_overhead:
  assumes "flate_inverse deflate inflate" "CopyObserved deflate True src w = ((t, None), s)"
  shows "\<exists>enc. wout (dst s) = wout w @ enc \<and> length enc \<le> t + 5 * length (payloads s) \<and>
    sum_list (map InputBytes (observed_stats s)) = t \<and>
    sum_list (map OutputBytes (observed_stats s)) = length enc"
proof -
  from assms(2) obtain s1 where l: "copy_loop deflate True src (copy_start w) = ((t, None), s1)" and s: "s = flush True s1"
    by (auto simp: CopyObserved_def split: prod.splits)
  from copy_loop_written [OF assms(1) l] obtain k enc where
    "wout (dst s1) = wout w @ enc" "length enc \<le> t + 5 * k" "length (payloads s1) = k"
    "seen InputBytes s1 = t" "seen OutputBytes s1 = length enc" "stats_ok s1"
    by (auto simp: written_def copy_start_def seen_def stats_ok_def zero_Stats_def)
  with flush_reports [of s1 InputBytes] flush_reports [of s1 OutputBytes] show ?thesis
    by (auto simp: s)
qed

theorem CopyObserved_overhead_witness:
  "\<exists>t s enc. CopyObserved run_deflate True [(replicate 300 0, None), ([1, 2], None)] \<lparr>wout = [7], wplan = []\<rparr> =
      ((t, None), s) \<and> wout (dst s) = 7 # enc \<and> length enc \<le> t + 5 * length (payloads s) \<and>
    sum_list (map InputBytes (observed_stats s)) = t \<and>
    sum_list (map OutputBytes (observed_stats s)) = length enc"
proof -
  obtain t s where c: "CopyObserved run_deflate True [(replicate 300 0, None), ([1, 2], None)] \<lparr>wout = [7], wplan = []\<rparr> =
      ((t, None), s)"
    using CopyObserved_succeeds [OF run_flate(2), of "\<lparr>wout = [7], wplan = []\<rparr>" "[(replicate 300 0, None), ([1, 2], None)]" True]
    by (auto simp del: split_paired_Ex)
  with CopyObserved_overhead [OF run_flate(1) c] show ?thesis
    by auto
qed


end
