(* ===== verification/Go_Crypto.thy ===== *)
theory Go_Crypto
  imports Wanopt_Prelude
begin

text \<open>
  What the program uses of Go's \<open>crypto/sha256\<close>, \<open>crypto/hmac\<close> and \<open>encoding/base64\<close>:
  SHA-256 (FIPS 180-4) on 32-bit words, HMAC (RFC 2104) over it, and the standard base64
  alphabet with padding. All of it is executable; the lemmas are the lengths and the base64
  round trip.
\<close>

section \<open>SHA-256\<close>

type_synonym u32 = "32 word"

definition rotr :: "nat \<Rightarrow> u32 \<Rightarrow> u32" where
  "rotr n w = drop_bit n w OR push_bit (32 - n) w"

text \<open>The constants of the standard are the first 32 bits of the fractional parts of roots of the
  smallest primes: \<open>root_search\<close> finds the integer part of a root from its highest bit, and the
  conversion to a word drops the integer part of the scaled root.\<close>

fun root_search :: "nat \<Rightarrow> nat \<Rightarrow> nat \<Rightarrow> nat \<Rightarrow> nat" where
  "root_search k n 0 r = r"
| "root_search k n (Suc b) r = root_search k n b (if (r + 2 ^ b) ^ k \<le> n then r + 2 ^ b else r)"

definition root_fraction :: "nat \<Rightarrow> nat \<Rightarrow> u32" where
  "root_fraction k p = of_nat (root_search k (p * 2 ^ (32 * k)) 36 0)"

definition primes_below :: "nat \<Rightarrow> nat list" where
  "primes_below n = filter (\<lambda>p. \<forall>d \<in> set [2..<p]. \<not> d dvd p) [2..<n]"

definition sha_k :: "u32 list" where
  "sha_k = map (root_fraction 3) (primes_below 312)"

type_synonym sha_state = "u32 \<times> u32 \<times> u32 \<times> u32 \<times> u32 \<times> u32 \<times> u32 \<times> u32"

definition sha_init :: sha_state where
  "sha_init =
    (root_fraction 2 2, root_fraction 2 3, root_fraction 2 5, root_fraction 2 7,
     root_fraction 2 11, root_fraction 2 13, root_fraction 2 17, root_fraction 2 19)"

definition be32 :: "u32 \<Rightarrow> bytes" where
  "be32 w = [ucast (drop_bit 24 w), ucast (drop_bit 16 w), ucast (drop_bit 8 w), ucast w]"

fun words32 :: "bytes \<Rightarrow> u32 list" where
  "words32 (a # b # c # d # rest) =
     (push_bit 24 (ucast a) OR push_bit 16 (ucast b) OR push_bit 8 (ucast c) OR ucast d) # words32 rest"
| "words32 _ = []"

lemma root_search_bounds:
  assumes "r ^ k \<le> n" "n < (r + 2 ^ b) ^ k"
  shows "root_search k n b r ^ k \<le> n \<and> n < (root_search k n b r + 1) ^ k"
  using assms
proof (induction b arbitrary: r)
  case (Suc b)
  then show ?case
    by (cases "(r + 2 ^ b) ^ k \<le> n") (auto simp: mult_2 add.assoc)
qed simp

text \<open>The message schedule, extended by \<open>n\<close> words; the most recent word comes first.\<close>

fun sha_schedule :: "nat \<Rightarrow> u32 list \<Rightarrow> u32 list" where
  "sha_schedule 0 ws = ws"
| "sha_schedule (Suc n) ws =
     (let w2 = ws ! 1; w15 = ws ! 14;
          s0 = rotr 7 w15 XOR rotr 18 w15 XOR drop_bit 3 w15;
          s1 = rotr 17 w2 XOR rotr 19 w2 XOR drop_bit 10 w2
      in sha_schedule n ((ws ! 15 + s0 + ws ! 6 + s1) # ws))"

definition sha_round :: "u32 \<times> u32 \<Rightarrow> sha_state \<Rightarrow> sha_state" where
  "sha_round kw st =
     (case (kw, st) of ((k, w), (a, b, c, d, e, f, g, h)) \<Rightarrow>
        (let s1 = rotr 6 e XOR rotr 11 e XOR rotr 25 e;
             ch = (e AND f) XOR ((NOT e) AND g);
             t1 = h + s1 + ch + k + w;
             s0 = rotr 2 a XOR rotr 13 a XOR rotr 22 a;
             maj = (a AND b) XOR (a AND c) XOR (b AND c)
         in (t1 + (s0 + maj), a, b, c, d + t1, e, f, g)))"

definition sha_block :: "bytes \<Rightarrow> sha_state \<Rightarrow> sha_state" where
  "sha_block block st =
     (case (st, fold sha_round (zip sha_k (rev (sha_schedule 48 (rev (words32 block))))) st) of
        ((a, b, c, d, e, f, g, h), (a', b', c', d', e', f', g', h')) \<Rightarrow>
          (a + a', b + b', c + c', d + d', e + e', f + f', g + g', h + h'))"

definition sha_pad :: "bytes \<Rightarrow> bytes" where
  "sha_pad m =
     (let n = length m; bits = push_bit 3 (of_nat n) :: u64
      in m @ [0x80] @ replicate ((119 - n mod 64) mod 64) 0 @ be32 (ucast (drop_bit 32 bits)) @ be32 (ucast bits))"

function sha_blocks :: "bytes \<Rightarrow> sha_state \<Rightarrow> sha_state" where
  "sha_blocks m st = (if m = [] then st else sha_blocks (drop 64 m) (sha_block (take 64 m) st))"
  by pat_completeness auto

termination
  by (relation "measure (\<lambda>(m, st). length m)") auto

declare sha_blocks.simps [simp del]

definition Sum256 :: "bytes \<Rightarrow> bytes" where
  "Sum256 m =
     (case sha_blocks (sha_pad m) sha_init of
        (a, b, c, d, e, f, g, h) \<Rightarrow> concat (map be32 [a, b, c, d, e, f, g, h]))"

text \<open>HMAC with the 64-byte block of SHA-256.\<close>

definition hmac_sha256 :: "bytes \<Rightarrow> bytes \<Rightarrow> bytes" where
  "hmac_sha256 key m =
     (let key = (if 64 < length key then Sum256 key else key);
          key = key @ replicate (64 - length key) 0
      in Sum256 (map (\<lambda>b. b XOR 0x5c) key @ Sum256 (map (\<lambda>b. b XOR 0x36) key @ m)))"

section \<open>Base64\<close>

definition b64_char :: "nat \<Rightarrow> char" where
  "b64_char n =
     char_of (if n < 26 then n + 65 else if n < 52 then n + 71 else if n < 62 then n - 4 else if n = 62 then 43 else 47)"

definition b64_val :: "char \<Rightarrow> nat option" where
  "b64_val c =
     (let n = of_char c
      in if 65 \<le> n \<and> n \<le> 90 then Some (n - 65)
         else if 97 \<le> n \<and> n \<le> 122 then Some (n - 71)
         else if 48 \<le> n \<and> n \<le> 57 then Some (n + 4)
         else if n = 43 then Some 62
         else if n = 47 then Some 63
         else None)"

fun EncodeToString :: "bytes \<Rightarrow> string" where
  "EncodeToString [] = []"
| "EncodeToString [a] =
     (let n = unat a * 16 in [b64_char (n div 64), b64_char (n mod 64), CHR ''='', CHR ''=''])"
| "EncodeToString [a, b] =
     (let n = (unat a * 256 + unat b) * 4
      in [b64_char (n div 4096), b64_char (n div 64 mod 64), b64_char (n mod 64), CHR ''=''])"
| "EncodeToString (a # b # c # rest) =
     (let n = (unat a * 256 + unat b) * 256 + unat c
      in b64_char (n div 262144) # b64_char (n div 4096 mod 64) # b64_char (n div 64 mod 64) #
         b64_char (n mod 64) # EncodeToString rest)"

definition errCorrupt :: go_error where
  "errCorrupt = ErrorString ''illegal base64 data''"

text \<open>Quanta of four characters; only the last may be padded. The unused low bits of a padded
  quantum are ignored, as the standard encoding is not strict.\<close>

fun decode_quanta :: "string \<Rightarrow> go_error + bytes" where
  "decode_quanta [] = Inr []"
| "decode_quanta (a # b # c # d # rest) =
     (case (b64_val a, b64_val b) of
        (Some x, Some y) \<Rightarrow>
          (if c = CHR ''='' then
             (if d = CHR ''='' \<and> rest = [] then Inr [of_nat ((x * 64 + y) div 16)] else Inl errCorrupt)
           else (case b64_val c of
               None \<Rightarrow> Inl errCorrupt
             | Some z \<Rightarrow>
                 if d = CHR ''='' then
                   (if rest = [] then (let n = ((x * 64 + y) * 64 + z) div 4 in Inr [of_nat (n div 256), of_nat n])
                    else Inl errCorrupt)
                 else (case b64_val d of
                     None \<Rightarrow> Inl errCorrupt
                   | Some v \<Rightarrow>
                       (case decode_quanta rest of
                          Inl e \<Rightarrow> Inl e
                        | Inr out \<Rightarrow>
                            let n = ((x * 64 + y) * 64 + z) * 64 + v
                            in Inr (of_nat (n div 65536) # of_nat (n div 256) # of_nat n # out)))))
      | _ \<Rightarrow> Inl errCorrupt)"
| "decode_quanta _ = Inl errCorrupt"

text \<open>Line breaks are skipped wherever they stand.\<close>

definition DecodeString :: "string \<Rightarrow> go_error + bytes" where
  "DecodeString s = decode_quanta (filter (\<lambda>c. of_char c \<noteq> (10 :: nat) \<and> of_char c \<noteq> (13 :: nat)) s)"

text \<open>\<open>pem.EncodeToMemory\<close> for a block without headers: lines of 64 characters.\<close>

function pem_lines :: "string \<Rightarrow> string" where
  "pem_lines s = (if s = [] then [] else take 64 s @ [char_of (10 :: nat)] @ pem_lines (drop 64 s))"
  by pat_completeness auto

termination
  by (relation "measure length") auto

declare pem_lines.simps [simp del]

definition pem_encode :: "string \<Rightarrow> bytes \<Rightarrow> string" where
  "pem_encode typ b =
     ''-----BEGIN '' @ typ @ ''-----'' @ [char_of (10 :: nat)] @ pem_lines (EncodeToString b) @
     ''-----END '' @ typ @ ''-----'' @ [char_of (10 :: nat)]"

section \<open>Lemmas\<close>

lemma length_Sum256 [simp]: "length (Sum256 m) = 32"
  by (simp add: Sum256_def be32_def split: prod.splits)

lemma length_hmac [simp]: "length (hmac_sha256 key m) = 32"
  by (simp add: hmac_sha256_def Let_def)

lemma of_b64_char:
  "n < 64 \<Longrightarrow> of_char (b64_char n) =
     (if n < 26 then n + 65 else if n < 52 then n + 71 else if n < 62 then n - 4 else if n = 62 then 43 else 47)"
  by (simp add: b64_char_def)

lemma b64_char [simp]:
  assumes "n < 64"
  shows "b64_val (b64_char n) = Some n" "b64_char n \<noteq> CHR ''=''"
    "of_char (b64_char n) \<noteq> (10 :: nat)" "of_char (b64_char n) \<noteq> (13 :: nat)"
proof -
  show "b64_val (b64_char n) = Some n"
    using assms by (auto simp: b64_val_def of_b64_char Let_def)
  have "of_char (b64_char n) \<noteq> (61 :: nat)"
    using assms by (auto simp: of_b64_char)
  then show "b64_char n \<noteq> CHR ''=''"
    by auto
  show "of_char (b64_char n) \<noteq> (10 :: nat)" "of_char (b64_char n) \<noteq> (13 :: nat)"
    using assms by (auto simp: of_b64_char)
qed

lemma unat_byte [simp]: "unat (b :: byte) < 256"
  using unsigned_less [of b] by simp

lemma byte_mod:
  assumes "n mod 256 = unat a"
  shows "(of_nat n :: byte) = a"
proof -
  have "unat (of_nat n :: byte) = unat a"
    using assms by (simp add: unat_of_nat)
  then show ?thesis
    by (rule unsigned_word_eqI)
qed

lemma byte_digit: "b < (256 :: nat) \<Longrightarrow> (x * 256 + b) mod 256 = b" "b < (256 :: nat) \<Longrightarrow> (x * 256 + b) div 256 = x"
  by simp_all

lemma byte_digits: "a < (256 :: nat) \<Longrightarrow> b < 256 \<Longrightarrow> a * 256 + b < 65536"
  by simp

lemma three_bytes:
  assumes "a < (256 :: nat)" "b < 256" "c < 256"
  defines "n \<equiv> (a * 256 + b) * 256 + c"
  shows "n < 16777216" "n div 65536 mod 256 = a" "n div 256 mod 256 = b" "n mod 256 = c"
proof -
  have "a * 256 + b < 65536"
    by (rule byte_digits [OF assms(1,2)])
  with assms(3) show "n < 16777216"
    unfolding n_def by simp
  have "n div 65536 = n div 256 div 256"
    by (simp add: div_mult2_eq [symmetric])
  then show "n div 65536 mod 256 = a" "n div 256 mod 256 = b" "n mod 256 = c"
    using assms(1,2) byte_digit [OF assms(2), of a] byte_digit [OF assms(3), of "a * 256 + b"]
    by (simp_all add: n_def del: add_mult_distrib distrib_right_numeral)
qed

text \<open>The digits of a quantum, and what they decode to.\<close>

lemma digits_bound:
  "(n :: nat) < 4096 \<Longrightarrow> n div 64 < 64" "(n :: nat) < 262144 \<Longrightarrow> n div 4096 < 64"
  "(n :: nat) < 16777216 \<Longrightarrow> n div 262144 < 64"
  by (simp_all add: div_less_iff_less_mult)

lemma digits_value:
  "n div 64 * 64 + n mod 64 = (n :: nat)"
  "(n div 4096 * 64 + n div 64 mod 64) * 64 + n mod 64 = (n :: nat)"
  "((n div 262144 * 64 + n div 4096 mod 64) * 64 + n div 64 mod 64) * 64 + n mod 64 = (n :: nat)"
proof -
  have d: "m div k * k + m mod k = m" for m k :: nat
    by (rule div_mult_mod_eq)
  have e: "n div 4096 = n div 64 div 64" "n div 262144 = n div 4096 div 64"
    by (simp_all add: div_mult2_eq [symmetric])
  show "n div 64 * 64 + n mod 64 = n"
    by (rule d)
  show 2: "(n div 4096 * 64 + n div 64 mod 64) * 64 + n mod 64 = n"
    by (simp only: e(1) d)
  show "((n div 262144 * 64 + n div 4096 mod 64) * 64 + n div 64 mod 64) * 64 + n mod 64 = n"
    by (simp only: e(2) d 2)
qed

lemma quantum1:
  "n < 4096 \<Longrightarrow> decode_quanta [b64_char (n div 64), b64_char (n mod 64), CHR ''='', CHR ''=''] = Inr [of_nat (n div 16)]"
  by (simp add: digits_bound digits_value)

lemma quantum2:
  "n < 262144 \<Longrightarrow> decode_quanta [b64_char (n div 4096), b64_char (n div 64 mod 64), b64_char (n mod 64), CHR ''=''] =
     Inr [of_nat (n div 4 div 256), of_nat (n div 4)]"
  using digits_value(2) [of n]
  by (simp add: digits_bound Let_def del: add_mult_distrib distrib_right_numeral)

lemma quantum3:
  "n < 16777216 \<Longrightarrow> decode_quanta rest = Inr out \<Longrightarrow>
   decode_quanta (b64_char (n div 262144) # b64_char (n div 4096 mod 64) # b64_char (n div 64 mod 64) # b64_char (n mod 64) # rest) =
     Inr (of_nat (n div 65536) # of_nat (n div 256) # of_nat n # out)"
  using digits_value(3) [of n]
  by (simp add: digits_bound Let_def del: add_mult_distrib distrib_right_numeral)

definition no_break :: "char \<Rightarrow> bool" where
  "no_break c = (of_char c \<noteq> (10 :: nat) \<and> of_char c \<noteq> (13 :: nat))"

lemma no_break_b64 [simp]: "n < 64 \<Longrightarrow> no_break (b64_char n)" "no_break (CHR ''='')"
  by (simp_all add: no_break_def)

lemma decode_Encode: "decode_quanta (EncodeToString b) = Inr b \<and> filter no_break (EncodeToString b) = EncodeToString b"
proof (induction b rule: EncodeToString.induct)
  case (2 a)
  define n where "n = unat a * 16"
  have "n < 4096" and a: "(of_nat (n div 16) :: byte) = a" using unat_byte [of a] by (auto simp: n_def)
  with quantum1 [OF this(1)] show ?case by (simp add: Let_def n_def [symmetric] digits_bound del: decode_quanta.simps)
next
  case (3 a b)
  define n where "n = (unat a * 256 + unat b) * 4"
  note t = byte_digit [OF unat_byte [of b], of "unat a"]
  have "n < 262144" using byte_digits [OF unat_byte [of a] unat_byte [of b]] unfolding n_def by simp
  moreover have "n div 4 = unat a * 256 + unat b" by (simp add: n_def)
  with t have "n div 4 div 256 mod 256 = unat a" "n div 4 mod 256 = unat b" by simp_all
  note this [THEN byte_mod]
  ultimately show ?case
    unfolding EncodeToString.simps Let_def n_def [symmetric]
    using quantum2 [of n] by (simp add: digits_bound del: decode_quanta.simps)
next
  case (4 a b c rest)
  define n where "n = (unat a * 256 + unat b) * 256 + unat c"
  note t = three_bytes [OF unat_byte [of a] unat_byte [of b] unat_byte [of c]]
  have "n < 16777216" unfolding n_def by (rule t(1))
  moreover have "n div 65536 mod 256 = unat a" "n div 256 mod 256 = unat b" "n mod 256 = unat c"
    using t(2-4) by (simp_all only: n_def)
  note this [THEN byte_mod]
  ultimately show ?case
    unfolding EncodeToString.simps Let_def n_def [symmetric]
    using quantum3 [of n "EncodeToString rest" rest] 4
    by (simp add: digits_bound del: decode_quanta.simps)
qed simp

lemma DecodeString_EncodeToString: "DecodeString (EncodeToString b) = Inr b"
  using decode_Encode [of b] by (simp add: DecodeString_def no_break_def [abs_def])

end
