(* ===== verification/Tunnel.thy ===== *)
theory Tunnel
  imports Go_Crypto
begin

text \<open>
  \<open>internal/tunnel\<close>: the mutual proof of the shared key (\<open>auth.go\<close>), the server's
  rotating credentials (\<open>credentials.go\<close>), the certificate pin and the TLS settings
  (\<open>tls.go\<close>), the QUIC settings (\<open>quicconf.go\<close>, \<open>congestion.go\<close>) and the binding of a
  stream to a context (\<open>stream.go\<close>). The TLS exporter of a session and the clock are
  arguments; certificates are the parts the program looks at.
\<close>

section \<open>Proofs of the key\<close>

definition ExporterLabel :: string where "ExporterLabel = ''EXPORTER-wanopt-auth''"
definition proofLen :: nat where "proofLen = 32"

definition proof_of :: "bytes \<Rightarrow> bytes \<Rightarrow> string \<Rightarrow> bytes" where
  "proof_of psk exporter who = hmac_sha256 psk (to_bytes who @ exporter)"

definition writeProof :: "bytes \<Rightarrow> writer \<Rightarrow> go_error option \<times> writer" where
  "writeProof b w =
     (case Write b w of ((n, err), w) \<Rightarrow>
        (if err = None \<and> n \<noteq> length b then Some ErrShortWrite else err, w))"

definition ClientAuth :: "bytes \<Rightarrow> bytes \<Rightarrow> reader \<times> writer \<Rightarrow> go_error option \<times> reader \<times> writer" where
  "ClientAuth psk exporter rw =
     (case rw of (r, w) \<Rightarrow>
        (case writeProof (proof_of psk exporter ''client'') w of
           (Some err, w) \<Rightarrow> (Some err, r, w)
         | (None, w) \<Rightarrow>
             (case ReadFull proofLen r of
                (Inl err, r) \<Rightarrow> (Some err, r, w)
              | (Inr got, r) \<Rightarrow>
                  if got \<noteq> proof_of psk exporter ''server''
                  then (Some (ErrorString ''tunnel: server authentication failed (bad PSK?)''), r, w)
                  else (None, r, w))))"

text \<open>\<open>onAuthenticated\<close> changes the caller's state \<open>'s\<close>; it may be nil.\<close>

definition ServerAuth ::
    "bytes \<Rightarrow> bytes \<Rightarrow> ('s \<Rightarrow> 's) option \<Rightarrow> reader \<times> writer \<Rightarrow> 's \<Rightarrow> go_error option \<times> (reader \<times> writer) \<times> 's" where
  "ServerAuth psk exporter onAuthenticated rw s =
     (case rw of (r, w) \<Rightarrow>
        (case ReadFull proofLen r of
           (Inl err, r) \<Rightarrow> (Some err, (r, w), s)
         | (Inr got, r) \<Rightarrow>
             if got \<noteq> proof_of psk exporter ''client''
             then (Some (ErrorString ''tunnel: client authentication failed (bad PSK?)''), (r, w), s)
             else
               (let s = (case onAuthenticated of None \<Rightarrow> s | Some f \<Rightarrow> f s)
                in case writeProof (proof_of psk exporter ''server'') w of
                     (err, w) \<Rightarrow> (err, (r, w), s))))"

section \<open>Certificates and pins\<close>

text \<open>A parsed certificate is its key information; a private key is its material, marked with
  whether it is of the ECDSA type.\<close>

record x509_Certificate =
  RawSubjectPublicKeyInfo :: bytes

datatype private_key = NoKey | EcdsaKey bytes | OtherKey bytes

record tls_Certificate =
  chain :: "bytes list"
  PrivateKey :: private_key
  Leaf :: "x509_Certificate option"

definition SPKIPin :: "x509_Certificate \<Rightarrow> string" where
  "SPKIPin cert = EncodeToString (Sum256 (RawSubjectPublicKeyInfo cert))"

definition DefaultALPN :: string where "DefaultALPN = ''h3''"
definition VersionTLS13 :: nat where "VersionTLS13 = 0x0304"

record tls_Config =
  InsecureSkipVerify :: bool
  MinVersion :: nat
  NextProtos :: "string list"
  GetCertificate :: "tls_Certificate option"
  VerifyConnection :: "instant \<Rightarrow> x509_Certificate list \<Rightarrow> go_error option"

definition ServerTLSConfig :: "tls_Certificate \<Rightarrow> string \<Rightarrow> tls_Config" where
  "ServerTLSConfig cert alpn =
     \<lparr>InsecureSkipVerify = False, MinVersion = VersionTLS13, NextProtos = [alpn], GetCertificate = Some cert,
      VerifyConnection = (\<lambda>now certs. None)\<rparr>"

definition ClientTLSConfigWithRotation :: "string \<Rightarrow> string \<Rightarrow> instant \<Rightarrow> string \<Rightarrow> tls_Config" where
  "ClientTLSConfigWithRotation pin nextPin expires alpn =
     \<lparr>InsecureSkipVerify = True, MinVersion = VersionTLS13, NextProtos = [alpn], GetCertificate = None,
      VerifyConnection = (\<lambda>now certs.
        case certs of
          [] \<Rightarrow> Some (ErrorString ''tunnel: server presented no certificate'')
        | cert # _ \<Rightarrow>
            (let got = SPKIPin cert
             in if got \<noteq> pin \<and> \<not> (nextPin \<noteq> [] \<and> got = nextPin \<and> now < expires)
                then Some (ErrorString ''tunnel: server pin mismatch'')
                else None))\<rparr>"

definition ClientTLSConfig :: "string \<Rightarrow> string \<Rightarrow> tls_Config" where
  "ClientTLSConfig pin alpn = ClientTLSConfigWithRotation pin [] 0 alpn"

text \<open>The X.509 library and the random source are arguments: the results of generating a key and a
  serial number, and the functions that create, parse and load certificates.\<close>

record x509_template =
  SerialNumber :: int
  CommonName :: string
  NotBefore :: instant
  NotAfter :: instant

definition GenerateSelfSigned ::
    "instant \<Rightarrow> go_error + bytes \<Rightarrow> go_error + int \<Rightarrow> (x509_template \<Rightarrow> bytes \<Rightarrow> go_error + bytes) \<Rightarrow>
     (bytes \<Rightarrow> go_error + x509_Certificate) \<Rightarrow> go_error + (tls_Certificate \<times> string)" where
  "GenerateSelfSigned now generateKey serialNumber CreateCertificate ParseCertificate =
     (case generateKey of
        Inl err \<Rightarrow> Inl err
      | Inr key \<Rightarrow>
          (case serialNumber of
             Inl err \<Rightarrow> Inl err
           | Inr serial \<Rightarrow>
               (let tmpl = \<lparr>SerialNumber = serial, CommonName = ''wanopt'', NotBefore = now - hour,
                      NotAfter = now + 10 * 365 * 24 * hour\<rparr>
                in case CreateCertificate tmpl key of
                     Inl err \<Rightarrow> Inl err
                   | Inr der \<Rightarrow>
                       (case ParseCertificate der of
                          Inl err \<Rightarrow> Inl err
                        | Inr leaf \<Rightarrow>
                            Inr (\<lparr>chain = [der], PrivateKey = EcdsaKey key, Leaf = Some leaf\<rparr>, SPKIPin leaf)))))"

definition LoadOrCreateCert ::
    "go_error + (tls_Certificate \<times> string) \<Rightarrow> (bytes \<Rightarrow> bytes \<Rightarrow> go_error + tls_Certificate) \<Rightarrow>
     (bytes \<Rightarrow> go_error + x509_Certificate) \<Rightarrow> bytes \<Rightarrow> bytes \<Rightarrow> go_error + (tls_Certificate \<times> string)" where
  "LoadOrCreateCert generated X509KeyPair ParseCertificate certPEM keyPEM =
     (if certPEM = [] \<and> keyPEM = [] then generated
      else
        (case X509KeyPair certPEM keyPEM of
           Inl err \<Rightarrow> Inl err
         | Inr crt \<Rightarrow>
             (case Leaf crt of
                Some leaf \<Rightarrow> Inr (crt, SPKIPin leaf)
              | None \<Rightarrow>
                  (case ParseCertificate (hd (chain crt)) of
                     Inl err \<Rightarrow> Inl err
                   | Inr leaf \<Rightarrow> Inr (crt\<lparr>Leaf := Some leaf\<rparr>, SPKIPin leaf)))))"

definition EncodeCertPEM ::
    "(bytes \<Rightarrow> go_error + bytes) \<Rightarrow> tls_Certificate \<Rightarrow> go_error + (string \<times> string)" where
  "EncodeCertPEM MarshalECPrivateKey crt =
     (let certPEM = pem_encode ''CERTIFICATE'' (hd (chain crt))
      in case PrivateKey crt of
           EcdsaKey key \<Rightarrow>
             (case MarshalECPrivateKey key of
                Inl err \<Rightarrow> Inl err
              | Inr der \<Rightarrow> Inr (certPEM, pem_encode ''EC PRIVATE KEY'' der))
         | _ \<Rightarrow> Inl (ErrorString ''tunnel: unexpected private key type''))"

section \<open>Server credentials\<close>

record ServerCredentials =
  primary :: bytes
  previous :: bytes
  expires :: instant
  cert :: tls_Certificate

definition store :: "bytes \<Rightarrow> bytes \<Rightarrow> instant \<Rightarrow> tls_Certificate \<Rightarrow> ServerCredentials" where
  "store prim prev exp crt = \<lparr>primary = prim, previous = prev, expires = exp, cert = crt\<rparr>"

definition NewServerCredentials :: "bytes \<Rightarrow> bytes \<Rightarrow> instant \<Rightarrow> tls_Certificate \<Rightarrow> ServerCredentials" where
  "NewServerCredentials prim prev exp crt = store prim prev exp crt"

definition Update ::
    "instant \<Rightarrow> bytes \<Rightarrow> bytes \<Rightarrow> instant \<Rightarrow> tls_Certificate \<Rightarrow> ServerCredentials \<Rightarrow>
     go_error option \<times> ServerCredentials" where
  "Update now prim prev exp crt c =
     (if length prim < 16 \<or> 256 < length prim \<or> chain crt = [] \<or> PrivateKey crt = NoKey
      then (Some (ErrorString ''tunnel: invalid replacement credentials''), c)
      else if 0 < length prev \<and>
          (length prev < 16 \<or> 256 < length prev \<or> prim = prev \<or> exp = 0 \<or> now + 7 * 24 * hour < exp)
      then (Some (ErrorString ''tunnel: invalid previous key overlap''), c)
      else if prev = [] \<and> exp \<noteq> 0
      then (Some (ErrorString ''tunnel: expiry without previous key''), c)
      else (None, store prim prev exp crt))"

definition TLSConfig :: "string \<Rightarrow> ServerCredentials \<Rightarrow> tls_Config" where
  "TLSConfig alpn c =
     \<lparr>InsecureSkipVerify = False, MinVersion = VersionTLS13, NextProtos = [alpn], GetCertificate = Some (cert c),
      VerifyConnection = (\<lambda>now certs. None)\<rparr>"

definition Accepts :: "instant \<Rightarrow> bytes \<Rightarrow> ServerCredentials \<Rightarrow> bool" where
  "Accepts now ident s =
     (let prim = (ident = Sum256 (primary s));
          prev = (ident = Sum256 (previous s) \<and> 0 < length (previous s) \<and> now < expires s)
      in prim \<or> prev)"

text \<open>The key a received proof belongs to. \<open>ready\<close> is given its identity and may refuse; it changes
  the caller's state.\<close>

definition select_key :: "instant \<Rightarrow> bytes \<Rightarrow> ServerCredentials \<Rightarrow> bytes \<Rightarrow> bytes option" where
  "select_key now exporter c got =
     (let primaryOK = (got = proof_of (primary c) exporter ''client'');
          previousOK = (got = proof_of (previous c) exporter ''client'' \<and> 0 < length (previous c) \<and> now < expires c)
      in if primaryOK \<and> 0 < length (primary c) then Some (primary c)
         else if previousOK then Some (previous c) else None)"

definition Authenticate ::
    "instant \<Rightarrow> bytes \<Rightarrow> (bytes \<Rightarrow> 's \<Rightarrow> go_error option \<times> 's) option \<Rightarrow> ServerCredentials \<Rightarrow>
     reader \<times> writer \<Rightarrow> 's \<Rightarrow> go_error option \<times> (reader \<times> writer) \<times> 's" where
  "Authenticate now exporter ready c rw s =
     (case rw of (r, w) \<Rightarrow>
        (case ReadFull proofLen r of
           (Inl err, r) \<Rightarrow> (Some err, (r, w), s)
         | (Inr got, r) \<Rightarrow>
             (case select_key now exporter c got of
                None \<Rightarrow> (Some (ErrorString ''tunnel: client authentication failed''), (r, w), s)
              | Some key \<Rightarrow>
                  (case (case ready of None \<Rightarrow> (None, s) | Some f \<Rightarrow> f (Sum256 key) s) of
                     (Some err, s) \<Rightarrow> (Some err, (r, w), s)
                   | (None, s) \<Rightarrow>
                       (case writeProof (proof_of key exporter ''server'') w of
                          (err, w) \<Rightarrow> (err, (r, w), s))))))"

section \<open>QUIC settings\<close>

definition defaultMaxStreamRecvWindow :: u64 where "defaultMaxStreamRecvWindow = push_bit 20 16"
definition defaultMaxConnRecvWindow :: u64 where "defaultMaxConnRecvWindow = push_bit 20 24"
definition initialStreamRecvWindow :: u64 where "initialStreamRecvWindow = push_bit 10 512"
definition initialConnRecvWindow :: u64 where "initialConnRecvWindow = push_bit 10 768"

record QUICOptions =
  CongestionControl :: string
  EnableDatagrams :: bool
  IdleTimeout :: duration
  HandshakeTimeout :: duration
  MaxStreamRecvWindow :: u64
  MaxConnRecvWindow :: u64
  MaxIncomingStreams :: int
  Allow0RTT_option :: bool

record quic_Config =
  qDatagrams :: bool
  HandshakeIdleTimeout :: duration
  MaxIdleTimeout :: duration
  KeepAlivePeriod :: duration
  InitialStreamReceiveWindow :: u64
  MaxStreamReceiveWindow :: u64
  InitialConnectionReceiveWindow :: u64
  MaxConnectionReceiveWindow :: u64
  qMaxIncomingStreams :: int
  MaxIncomingUniStreams :: int
  Allow0RTT :: bool

text \<open>\<open>bbrConfigurer\<close> is nil unless the build provides it. \<open>None\<close> is the panic.\<close>

definition CongestionAvailable :: "(quic_Config \<Rightarrow> quic_Config) option \<Rightarrow> string \<Rightarrow> bool" where
  "CongestionAvailable bbrConfigurer mode =
     (mode = [] \<or> mode = ''reno'' \<or> (mode = ''bbr'' \<and> bbrConfigurer \<noteq> None))"

definition configureCongestion :: "(quic_Config \<Rightarrow> quic_Config) option \<Rightarrow> quic_Config \<Rightarrow> string \<Rightarrow> quic_Config option" where
  "configureCongestion bbrConfigurer c mode =
     (if \<not> CongestionAvailable bbrConfigurer mode then None
      else if mode = ''bbr'' then map_option (\<lambda>f. f c) bbrConfigurer
      else Some c)"

definition NewQUICConfig :: "(quic_Config \<Rightarrow> quic_Config) option \<Rightarrow> QUICOptions \<Rightarrow> quic_Config option" where
  "NewQUICConfig bbrConfigurer o1 =
     (let idle = (if IdleTimeout o1 \<le> 0 then 60 * second else IdleTimeout o1);
          handshake = (if HandshakeTimeout o1 \<le> 0 then 10 * second else HandshakeTimeout o1);
          stream = (if MaxStreamRecvWindow o1 = 0 then defaultMaxStreamRecvWindow else MaxStreamRecvWindow o1);
          conn = (if MaxConnRecvWindow o1 = 0 then defaultMaxConnRecvWindow else MaxConnRecvWindow o1);
          incoming = (if MaxIncomingStreams o1 = 0 then 128 else MaxIncomingStreams o1)
      in configureCongestion bbrConfigurer
           \<lparr>qDatagrams = EnableDatagrams o1, HandshakeIdleTimeout = handshake div 2, MaxIdleTimeout = idle,
            KeepAlivePeriod = idle div 3, InitialStreamReceiveWindow = min initialStreamRecvWindow stream,
            MaxStreamReceiveWindow = stream, InitialConnectionReceiveWindow = min initialConnRecvWindow conn,
            MaxConnectionReceiveWindow = conn, qMaxIncomingStreams = incoming, MaxIncomingUniStreams = 3,
            Allow0RTT = False\<rparr>
           (CongestionControl o1))"

section \<open>Streams bound to a context\<close>

definition ControlAuthority :: string where "ControlAuthority = ''wanopt-control.invalid:443''"
definition ProxyAuthority :: string where "ProxyAuthority = ''wanopt-stream.invalid:443''"
definition VersionHeader :: string where "VersionHeader = ''Wanopt-Protocol''"

record stream_state =
  readCancelled :: "nat option"
  writeCancelled :: "nat option"
  deadline :: "instant option"

definition CancelRead :: "nat \<Rightarrow> stream_state \<Rightarrow> stream_state" where
  "CancelRead code s = (if readCancelled s = None then s\<lparr>readCancelled := Some code\<rparr> else s)"

definition CancelWrite :: "nat \<Rightarrow> stream_state \<Rightarrow> stream_state" where
  "CancelWrite code s = (if writeCancelled s = None then s\<lparr>writeCancelled := Some code\<rparr> else s)"

definition Abort :: "stream_state \<Rightarrow> stream_state" where
  "Abort s = CancelWrite 0x10c (CancelRead 0x10c s)"

text \<open>
  \<open>BindContext\<close> registers a callback with \<open>context.AfterFunc\<close>. The callback is pending,
  removed by its stop function, running, or over (\<open>done\<close> is closed after \<open>Abort\<close>). The
  function that is returned runs once: a caller waits while the callback runs.
\<close>

datatype callback = Pending | Removed | Running | Over
datatype stopper = Uncalled | Waiting | Returned

record binding =
  bstream :: stream_state
  ctxDone :: bool
  callback :: callback
  stopper :: stopper

definition BindContext :: "instant option \<Rightarrow> bool \<Rightarrow> stream_state \<Rightarrow> binding" where
  "BindContext dl cancelled s =
     \<lparr>bstream = (case dl of None \<Rightarrow> s | Some d \<Rightarrow> s\<lparr>deadline := Some d\<rparr>), ctxDone = cancelled,
      callback = Pending, stopper = Uncalled\<rparr>"

definition run_callback :: "binding \<Rightarrow> binding" where
  "run_callback b = b\<lparr>bstream := Abort (bstream b), callback := Over\<rparr>"

definition call_stop :: "binding \<Rightarrow> binding" where
  "call_stop b =
     (if stopper b \<noteq> Uncalled then b
      else if callback b = Pending then b\<lparr>callback := Removed, stopper := Returned\<rparr>
      else b\<lparr>stopper := Waiting\<rparr>)"

inductive bind_step :: "binding \<Rightarrow> binding \<Rightarrow> bool" where
  cancel: "bind_step b (b\<lparr>ctxDone := True\<rparr>)"
| start: "ctxDone b \<Longrightarrow> callback b = Pending \<Longrightarrow> bind_step b (b\<lparr>callback := Running\<rparr>)"
| run: "callback b = Running \<Longrightarrow> bind_step b (run_callback b)"
| stop: "bind_step b (call_stop b)"
| joined: "stopper b = Waiting \<Longrightarrow> callback b = Over \<Longrightarrow> bind_step b (b\<lparr>stopper := Returned\<rparr>)"

section \<open>Lemmas\<close>

lemma length_proof [simp]: "length (proof_of psk exporter who) = proofLen"
  by (simp add: proof_of_def proofLen_def)

lemma EncodeToString_inj: "EncodeToString a = EncodeToString b \<Longrightarrow> a = b"
  by (metis DecodeString_EncodeToString sum.inject(2))

lemma SPKIPin_eq: "SPKIPin crt = EncodeToString h \<longleftrightarrow> Sum256 (RawSubjectPublicKeyInfo crt) = h"
  by (auto simp: SPKIPin_def dest: EncodeToString_inj)

lemma writeProof_good [simp]: "wplan w = [] \<Longrightarrow> writeProof b w = (None, w\<lparr>wout := wout w @ b\<rparr>)"
  by (simp add: writeProof_def)

lemma writeProof_prefix:
  assumes "writeProof b w = (err, w')"
  shows "\<exists>k. wout w' = wout w @ take k b" and "err = None \<Longrightarrow> wout w' = wout w @ b"
proof -
  obtain n e where "Write b w = ((n, e), w')" "err = (if e = None \<and> n \<noteq> length b then Some ErrShortWrite else e)"
    using assms by (auto simp: writeProof_def split: prod.splits)
  then show "\<exists>k. wout w' = wout w @ take k b" "err = None \<Longrightarrow> wout w' = wout w @ b"
    using Write_extends [of b w n e w'] by (auto split: if_splits)
qed

text \<open>The keys a snapshot stands for at a time.\<close>

definition active_keys :: "instant \<Rightarrow> ServerCredentials \<Rightarrow> bytes set" where
  "active_keys now c =
     {k. k \<noteq> [] \<and> (k = primary c \<or> (k = previous c \<and> now < expires c))}"

lemma Authenticate_cases:
  assumes "Authenticate now exporter ready c (r, w) s = (err, (r', w'), s')"
  obtains (unread) e where "ReadFull proofLen r = (Inl e, r')" "err = Some e" "w' = w" "s' = s"
  | (rejected) got e where "ReadFull proofLen r = (Inr got, r')" "err = Some e" "w' = w" "s' = s"
  | (refused) key e where "key \<in> active_keys now c" "ReadFull proofLen r = (Inr (proof_of key exporter ''client''), r')"
      "err = Some e" "w' = w"
  | (answered) key where "key \<in> active_keys now c" "ReadFull proofLen r = (Inr (proof_of key exporter ''client''), r')"
      "writeProof (proof_of key exporter ''server'') w = (err, w')"
      "case ready of None \<Rightarrow> s' = s | Some f \<Rightarrow> f (Sum256 key) s = (None, s')"
  using assms
  by (fastforce simp: Authenticate_def select_key_def active_keys_def Let_def
      split: prod.splits sum.splits option.splits if_splits)

definition wf_credentials :: "instant \<Rightarrow> ServerCredentials \<Rightarrow> bool" where
  "wf_credentials now c =
     (16 \<le> length (primary c) \<and> length (primary c) \<le> 256 \<and> chain (cert c) \<noteq> [] \<and> PrivateKey (cert c) \<noteq> NoKey \<and>
      (if previous c = [] then expires c = 0
       else 16 \<le> length (previous c) \<and> length (previous c) \<le> 256 \<and> previous c \<noteq> primary c \<and>
            expires c \<noteq> 0 \<and> expires c \<le> now + 7 * 24 * hour))"

lemma Update_ok:
  "Update now prim prev exp crt c = (None, c') \<longleftrightarrow>
     c' = \<lparr>primary = prim, previous = prev, expires = exp, cert = crt\<rparr> \<and> wf_credentials now c'"
  by (auto simp: Update_def store_def wf_credentials_def)

lemma Update_failed: "Update now prim prev exp crt c = (Some e, c') \<Longrightarrow> c' = c"
  by (auto simp: Update_def split: if_splits)

definition bind_inv :: "stream_state \<Rightarrow> binding \<Rightarrow> bool" where
  "bind_inv s b =
     ((stopper b = Returned \<longrightarrow> callback b = Removed \<or> callback b = Over) \<and>
      (callback b = Running \<or> callback b = Over \<longrightarrow> ctxDone b) \<and>
      bstream b = (if callback b = Over then Abort s else s))"

definition bind_start :: "stream_state \<Rightarrow> binding \<Rightarrow> bool" where
  "bind_start s b = (callback b = Pending \<and> stopper b = Uncalled \<and> bstream b = s)"

lemma bind_inv_start: "bind_start s b \<Longrightarrow> bind_inv s b"
  by (simp add: bind_start_def bind_inv_def)

lemma bind_inv_step: "bind_step b b' \<Longrightarrow> bind_inv s b \<Longrightarrow> bind_inv s b'"
  by (cases "callback b"; cases "stopper b"; erule bind_step.cases)
     (simp_all add: bind_inv_def run_callback_def call_stop_def)

interpretation bound: inductive_invariant "bind_start s" bind_step "bind_inv s" for s
  by unfold_locales (rule bind_inv_start, assumption, rule bind_inv_step)

lemma bind_returned_step:
  assumes "bind_step b b'" "bind_inv s b" "stopper b = Returned"
  shows "stopper b' = Returned \<and> bstream b' = bstream b"
  using assms(1) assms(2-) by cases (auto simp: bind_inv_def call_stop_def)

lemma bind_returned_steps:
  "bind_step\<^sup>*\<^sup>* b b' \<Longrightarrow> bind_inv s b \<and> stopper b = Returned \<Longrightarrow>
   bind_inv s b' \<and> stopper b' = Returned \<and> bstream b' = bstream b"
proof (induction rule: rtranclp_induct)
  case (step c d)
  with bind_returned_step [OF step(2), of s] bind_inv_step [OF step(2), of s] show ?case
    by simp
qed simp

text \<open>A snapshot for the concrete runs below.\<close>

definition sample_credentials :: ServerCredentials where
  "sample_credentials =
     \<lparr>primary = replicate 16 7, previous = [], expires = 0,
      cert = \<lparr>chain = [[1]], PrivateKey = EcdsaKey [2], Leaf = None\<rparr>\<rparr>"

lemma sample_active: "replicate 16 7 \<in> active_keys now sample_credentials" "primary sample_credentials = replicate 16 7"
  by (simp_all add: active_keys_def sample_credentials_def)

section \<open>Properties\<close>

text \<open>C33: Nothing happens for a peer that does not prove a key that is active at that moment: no
  state change, no byte of an answer and no success. The peer that does gets at most the
  server's own proof under that same key, in full when authentication succeeds.\<close>

theorem Authenticate_sound:
  assumes "Authenticate now exporter ready c (r, w) s = (err, (r', w'), s')" and "err = None \<or> w' \<noteq> w \<or> s' \<noteq> s"
  shows "\<exists>key \<in> active_keys now c. take proofLen (rbuf r) = proof_of key exporter ''client'' \<and>
    (\<exists>k. wout w' = wout w @ take k (proof_of key exporter ''server'')) \<and>
    (err = None \<longrightarrow> wout w' = wout w @ proof_of key exporter ''server'')"
  using assms(1)
proof (cases rule: Authenticate_cases)
  case (refused key e)
  then have "take proofLen (rbuf r) = proof_of key exporter ''client''"
    by (simp add: ReadFull_Inr_iff)
  with refused show ?thesis
    by (intro bexI [of _ key] conjI exI [of _ 0]) simp_all
next
  case (answered key)
  then have "take proofLen (rbuf r) = proof_of key exporter ''client''"
    by (simp add: ReadFull_Inr_iff)
  with answered(1) writeProof_prefix [OF answered(3)] show ?thesis
    by blast
qed (use assms(2) in auto)

theorem Authenticate_sound_witness:
  "\<exists>r w' s'. Authenticate 5 [3] (Some (\<lambda>ident s. (None, s @ ident))) sample_credentials (r, good_writer) [] =
       (None, (\<lparr>rbuf = [], rend = EOF\<rparr>, w'), s') \<and>
     (\<exists>key \<in> active_keys 5 sample_credentials. take proofLen (rbuf r) = proof_of key [3] ''client'' \<and>
        wout w' = proof_of key [3] ''server'')"
proof -
  let ?r = "\<lparr>rbuf = proof_of (replicate 16 7) [3] ''client'', rend = EOF\<rparr>"
  obtain w' s' where run: "Authenticate 5 [3] (Some (\<lambda>ident s. (None, s @ ident))) sample_credentials (?r, good_writer) [] =
       (None, (\<lparr>rbuf = [], rend = EOF\<rparr>, w'), s')"
    using ReadFull_append [of "proof_of (replicate 16 7) [3] ''client''" proofLen "[]" EOF]
    by (simp add: Authenticate_def select_key_def sample_active(2) good_writer_def)
  with Authenticate_sound [OF run] show ?thesis
    by (intro exI [of _ ?r] exI [of _ w'] exI [of _ s']) (auto simp: good_writer_def)
qed

text \<open>C34: A client that holds an active key and a server meet: over intact channels the server
  accepts the client's proof, tells \<open>ready\<close> the identity of that key, and the client accepts
  the server's answer. (For the previous key, the two keys' proofs must differ.)\<close>

theorem handshake_completes:
  assumes "psk \<in> active_keys now c"
    and "psk \<noteq> primary c \<Longrightarrow> proof_of (primary c) exporter ''client'' \<noteq> proof_of psk exporter ''client''"
    and "ready (Sum256 psk) s = (None, s')"
  shows "\<exists>wc ws. ClientAuth psk exporter (\<lparr>rbuf = wout ws @ rest, rend = e\<rparr>, good_writer) =
      (None, \<lparr>rbuf = rest, rend = e\<rparr>, wc) \<and>
    Authenticate now exporter (Some ready) c (\<lparr>rbuf = wout wc @ rest', rend = e'\<rparr>, good_writer) s =
      (None, (\<lparr>rbuf = rest', rend = e'\<rparr>, ws), s')"
proof -
  let ?c = "proof_of psk exporter ''client''" and ?s = "proof_of psk exporter ''server''"
  have "ClientAuth psk exporter (\<lparr>rbuf = ?s @ rest, rend = e\<rparr>, good_writer) =
      (None, \<lparr>rbuf = rest, rend = e\<rparr>, \<lparr>wout = ?c, wplan = []\<rparr>)"
    by (simp add: ClientAuth_def good_writer_def ReadFull_append)
  moreover have "Authenticate now exporter (Some ready) c (\<lparr>rbuf = ?c @ rest', rend = e'\<rparr>, good_writer) s =
      (None, (\<lparr>rbuf = rest', rend = e'\<rparr>, \<lparr>wout = ?s, wplan = []\<rparr>), s')"
  proof (cases "psk = primary c")
    case True
    with assms(1,3) show ?thesis
      by (simp add: Authenticate_def select_key_def active_keys_def good_writer_def ReadFull_append)
  next
    case False
    with assms(1) have "psk = previous c" "psk \<noteq> []" "now < expires c"
      by (auto simp: active_keys_def)
    with assms(2) [OF False] assms(3) show ?thesis
      by (simp add: Authenticate_def select_key_def good_writer_def ReadFull_append)
  qed
  ultimately show ?thesis
    by (intro exI [of _ "\<lparr>wout = ?c, wplan = []\<rparr>"] exI [of _ "\<lparr>wout = ?s, wplan = []\<rparr>"]) simp
qed

theorem handshake_completes_witness:
  "\<exists>wc ws. ClientAuth (replicate 16 7) [3] (\<lparr>rbuf = wout ws @ [], rend = EOF\<rparr>, good_writer) =
      (None, \<lparr>rbuf = [], rend = EOF\<rparr>, wc) \<and>
    Authenticate 5 [3] (Some (\<lambda>ident s. (None, s + 1))) sample_credentials (\<lparr>rbuf = wout wc @ [], rend = EOF\<rparr>, good_writer)
      (0 :: nat) = (None, (\<lparr>rbuf = [], rend = EOF\<rparr>, ws), 1)"
  by (rule handshake_completes) (simp_all add: sample_active)

text \<open>C35: A rotation is bounded. Replacing the credentials either fails and changes nothing, or
  installs a key of 16 to 256 bytes; from then on exactly the new key and, until the expiry,
  the distinct previous key are accepted, and seven days later only the new key is.\<close>

theorem Update_bounds_overlap:
  "(case Update now prim prev exp crt c of
      (Some e, c') \<Rightarrow> c' = c
    | (None, c') \<Rightarrow>
        wf_credentials now c' \<and>
        (\<forall>t ident. Accepts t ident c' \<longleftrightarrow> ident = Sum256 prim \<or> prev \<noteq> [] \<and> t < exp \<and> ident = Sum256 prev) \<and>
        (\<forall>t ident. now + 7 * 24 * hour \<le> t \<and> Accepts t ident c' \<longrightarrow> ident = Sum256 prim))"
proof (cases "Update now prim prev exp crt c")
  case (Pair e c')
  show ?thesis
  proof (cases e)
    case None
    with Pair have u: "c' = \<lparr>primary = prim, previous = prev, expires = exp, cert = crt\<rparr>" "wf_credentials now c'"
      using Update_ok [of now prim prev exp crt c c'] by blast+
    from u(1) have a: "Accepts t ident c' \<longleftrightarrow> ident = Sum256 prim \<or> prev \<noteq> [] \<and> t < exp \<and> ident = Sum256 prev" for t ident
      by (auto simp: Accepts_def)
    from u have "prev \<noteq> [] \<Longrightarrow> exp \<le> now + 7 * 24 * hour"
      by (simp add: wf_credentials_def)
    with Pair None u(2) a show ?thesis
      by auto
  qed (use Pair Update_failed in auto)
qed

theorem Update_bounds_overlap_witness:
  "\<exists>c'. Update 5 (replicate 16 9) (replicate 16 7) 100 (cert sample_credentials) sample_credentials = (None, c') \<and>
     Accepts 50 (Sum256 (replicate 16 7)) c' \<and>
     {ident. Accepts (5 + 7 * 24 * hour) ident c'} \<subseteq> {Sum256 (replicate 16 9)}"
proof -
  define a b :: bytes where "a = replicate 16 9" and "b = replicate 16 7"
  have ab: "length a = 16" "length b = 16" by (simp_all only: a_def b_def length_replicate)
  have "hd a = 9" "hd b = 7" by (simp_all only: a_def b_def hd_replicate)
  moreover have "(9 :: byte) \<noteq> 7" by simp
  ultimately have ne: "a \<noteq> b" by metis
  from ab have "b \<noteq> []" by auto
  let ?c = "\<lparr>primary = a, previous = b, expires = 100, cert = cert sample_credentials\<rparr>"
  from ab ne \<open>b \<noteq> []\<close> have "wf_credentials 5 ?c"
    by (simp add: wf_credentials_def sample_credentials_def hour_def minute_def second_def)
  then obtain c' where c: "Update 5 a b 100 (cert sample_credentials) sample_credentials = (None, c')"
    using Update_ok by blast
  have all: "\<forall>t ident. Accepts t ident c' \<longleftrightarrow> ident = Sum256 a \<or> b \<noteq> [] \<and> t < 100 \<and> ident = Sum256 b"
      "\<forall>t ident. 5 + 7 * 24 * hour \<le> t \<and> Accepts t ident c' \<longrightarrow> ident = Sum256 a"
    using Update_bounds_overlap [where now = 5 and prim = a and prev = b and exp = 100 and
      crt = "cert sample_credentials" and c = sample_credentials]
    unfolding c prod.case option.case by blast+
  have "Accepts 50 (Sum256 b) c'"
    using all(1) [rule_format, of 50 "Sum256 b"] \<open>b \<noteq> []\<close> by simp
  moreover have "{ident. Accepts (5 + 7 * 24 * hour) ident c'} \<subseteq> {Sum256 a}"
    using all(2) by blast
  ultimately show ?thesis using c unfolding a_def b_def by blast
qed


text \<open>C37: Once the function that \<open>BindContext\<close> returned has returned, the context can no longer
  touch the stream, whatever is cancelled afterwards: the callback was removed, or it had
  run to its end before.\<close>

theorem BindContext_stop_joins:
  assumes "bind_step\<^sup>*\<^sup>* (BindContext dl cancelled s) b" "stopper b = Returned" "bind_step\<^sup>*\<^sup>* b b'"
  shows "bstream b' = bstream b \<and> callback b' \<noteq> Running \<and>
    (bstream b = bstream (BindContext dl cancelled s) \<or> ctxDone b \<and> bstream b = Abort (bstream (BindContext dl cancelled s)))"
proof -
  let ?s = "bstream (BindContext dl cancelled s)"
  have "bind_start ?s (BindContext dl cancelled s)"
    by (simp add: bind_start_def BindContext_def)
  from bound.inv_reachable [OF this assms(1)] have inv: "bind_inv ?s b" .
  with bind_returned_steps [OF assms(3), of ?s] assms(2) show ?thesis
    by (auto simp: bind_inv_def split: if_splits)
qed

theorem BindContext_stop_joins_witness:
  "\<exists>b b'. bind_step\<^sup>*\<^sup>* (BindContext (Some 9) False \<lparr>readCancelled = None, writeCancelled = None, deadline = None\<rparr>) b \<and>
     stopper b = Returned \<and> bind_step\<^sup>*\<^sup>* b b' \<and> ctxDone b' \<and> bstream b' = bstream b"
proof -
  let ?a = "BindContext (Some 9) False \<lparr>readCancelled = None, writeCancelled = None, deadline = None\<rparr>"
  define b where "b = call_stop ?a"
  have r: "bind_step\<^sup>*\<^sup>* ?a b"
    unfolding b_def by (rule r_into_rtranclp) (rule bind_step.stop)
  have ret: "stopper b = Returned"
    by (simp add: b_def call_stop_def BindContext_def)
  have c: "bind_step\<^sup>*\<^sup>* b (b\<lparr>ctxDone := True\<rparr>)"
    by (rule r_into_rtranclp) (rule bind_step.cancel)
  from BindContext_stop_joins [OF r ret c] r ret c show ?thesis
    by (intro exI [of _ b] exI [of _ "b\<lparr>ctxDone := True\<rparr>"]) simp
qed

end
