(* ===== verification/Go_Url.thy ===== *)
theory Go_Url
  imports Go_Net
begin

text \<open>
  What the program uses of Go's \<open>path/filepath\<close> (on Unix) and \<open>net/url\<close>: \<open>Clean\<close>,
  \<open>Join\<close>, \<open>Dir\<close> and \<open>IsAbs\<close>, and \<open>url.Parse\<close> up to the parts the program looks at
  (scheme, user information, host). Parts of a URL that are only checked for bad escapes
  (path, fragment) are checked and dropped.
\<close>

section \<open>File paths\<close>

definition IsAbs :: "string \<Rightarrow> bool" where
  "IsAbs path = HasPrefix path ''/''"

text \<open>The elements of a cleaned path, most recent first.\<close>

fun clean_elements :: "bool \<Rightarrow> string list \<Rightarrow> string list \<Rightarrow> string list" where
  "clean_elements rooted out [] = out"
| "clean_elements rooted out (e # es) =
     (if e = [] \<or> e = ''.'' then clean_elements rooted out es
      else if e = ''..'' then
        (case out of
           [] \<Rightarrow> clean_elements rooted (if rooted then [] else [e]) es
         | o1 # os \<Rightarrow> clean_elements rooted (if o1 = ''..'' then e # out else os) es)
      else clean_elements rooted (e # out) es)"

fun join_slash :: "string list \<Rightarrow> string" where
  "join_slash [] = []"
| "join_slash [e] = e"
| "join_slash (e # es) = e @ ''/'' @ join_slash es"

definition Clean :: "string \<Rightarrow> string" where
  "Clean path =
     (let rooted = IsAbs path; out = rev (clean_elements rooted [] (Split path (CHR ''/'')))
      in if rooted then ''/'' @ join_slash out else if out = [] then ''.'' else join_slash out)"

definition path_Join :: "string \<Rightarrow> string \<Rightarrow> string" where
  "path_Join a b =
     (if a \<noteq> [] then Clean (a @ ''/'' @ b) else if b \<noteq> [] then Clean b else [])"

definition Dir :: "string \<Rightarrow> string" where
  "Dir path =
     Clean (case LastIndexByte path (CHR ''/'') of None \<Rightarrow> [] | Some i \<Rightarrow> take (i + 1) path)"

section \<open>URLs\<close>

record URL =
  Scheme :: string
  User :: "string option"
  UHost :: string

definition is_letter :: "char \<Rightarrow> bool" where
  "is_letter c = (let n = of_char c :: nat in (65 \<le> n \<and> n \<le> 90) \<or> (97 \<le> n \<and> n \<le> 122))"

text \<open>\<open>getScheme\<close>: the scheme and the rest, or \<open>None\<close> for a missing scheme before a colon.\<close>

fun scheme_scan :: "string \<Rightarrow> string \<Rightarrow> string \<Rightarrow> (string \<times> string) option" where
  "scheme_scan raw seen [] = Some ([], raw)"
| "scheme_scan raw seen (c # cs) =
     (if is_letter c then scheme_scan raw (seen @ [c]) cs
      else if is_digit c \<or> c \<in> set ''+-.'' then
        (if seen = [] then Some ([], raw) else scheme_scan raw (seen @ [c]) cs)
      else if c = CHR '':'' then (if seen = [] then None else Some (seen, cs))
      else Some ([], raw))"

definition getScheme :: "string \<Rightarrow> (string \<times> string) option" where
  "getScheme raw = scheme_scan raw [] raw"

datatype url_part = PathPart | HostPart | ZonePart

definition host_plain :: "char \<Rightarrow> bool" where
  "host_plain c =
     (is_letter c \<or> is_digit c \<or> c \<in> set ''!$&()*+,;=:[]<>-_.~'' \<or> of_char c = (34 :: nat) \<or> of_char c = (39 :: nat))"

fun unescape :: "url_part \<Rightarrow> string \<Rightarrow> string option" where
  "unescape part [] = Some []"
| "unescape part (c # cs) =
     (if c = CHR ''%'' then
        (case cs of
           a # b # rest \<Rightarrow>
             (case (hex_val a, hex_val b) of
                (Some x, Some y) \<Rightarrow>
                  (let v = char_of (x * 16 + y); is25 = (a = CHR ''2'' \<and> b = CHR ''5'')
                   in if part = HostPart \<and> x < 8 \<and> \<not> is25 then None
                      else if part = ZonePart \<and> \<not> is25 \<and> of_char v \<noteq> (32 :: nat) \<and> \<not> host_plain v then None
                      else map_option ((#) v) (unescape part rest))
              | _ \<Rightarrow> None)
         | _ \<Rightarrow> None)
      else if part \<noteq> PathPart \<and> of_char c < (128 :: nat) \<and> \<not> host_plain c then None
      else map_option ((#) c) (unescape part cs))"

definition validOptionalPort :: "string \<Rightarrow> bool" where
  "validOptionalPort port =
     (case port of [] \<Rightarrow> True | c # ds \<Rightarrow> c = CHR '':'' \<and> (\<forall>d \<in> set ds. is_digit d))"

text \<open>The position of the first \<open>%25\<close>.\<close>

fun index25 :: "string \<Rightarrow> nat option" where
  "index25 [] = None"
| "index25 (c # cs) = (if HasPrefix (c # cs) ''%25'' then Some 0 else map_option Suc (index25 cs))"

text \<open>A bracketed host must be an IPv6 address, with an optional zone.\<close>

definition ipv6_literal :: "string \<Rightarrow> bool" where
  "ipv6_literal s =
     (case IndexByte s (CHR ''%'') of
        None \<Rightarrow> parseIPv6 s \<noteq> None
      | Some i \<Rightarrow> parseIPv6 (take i s) \<noteq> None \<and> drop (i + 1) s \<noteq> [])"

definition parseHost :: "string \<Rightarrow> string option" where
  "parseHost host =
     (case LastIndexByte host (CHR ''['') of
        Some k \<Rightarrow>
          if 0 < k then None
          else (case LastIndexByte host (CHR '']'') of
              None \<Rightarrow> None
            | Some i \<Rightarrow>
                if \<not> validOptionalPort (drop (i + 1) host) then None
                else
                  (let hostname = drop 1 (take i host);
                       unescaped =
                         (case index25 hostname of
                            Some z \<Rightarrow>
                              (case (unescape HostPart (take z hostname), unescape ZonePart (drop z hostname)) of
                                 (Some a, Some b) \<Rightarrow> Some (a @ b)
                               | _ \<Rightarrow> None)
                          | None \<Rightarrow> unescape HostPart hostname)
                   in case unescaped of
                        None \<Rightarrow> None
                      | Some u \<Rightarrow> if ipv6_literal u then Some (''['' @ u @ '']'' @ drop (i + 1) host) else None))
      | None \<Rightarrow>
          (case IndexByte host (CHR '':'') of
             Some i \<Rightarrow> if validOptionalPort (drop i host) then unescape HostPart host else None
           | None \<Rightarrow> unescape HostPart host))"

definition validUserinfo :: "string \<Rightarrow> bool" where
  "validUserinfo s =
     (\<forall>c \<in> set s. is_letter c \<or> is_digit c \<or> c \<in> set ''-._:~!$&()*+,;=%@'' \<or> of_char c = (39 :: nat))"

definition parseAuthority :: "string \<Rightarrow> (string option \<times> string) option" where
  "parseAuthority authority =
     (case LastIndexByte authority (CHR ''@'') of
        None \<Rightarrow> map_option (\<lambda>h. (None, h)) (parseHost authority)
      | Some i \<Rightarrow>
          (case parseHost (drop (i + 1) authority) of
             None \<Rightarrow> None
           | Some h \<Rightarrow>
               if validUserinfo (take i authority) \<and> unescape PathPart (take i authority) \<noteq> None
               then Some (Some (take i authority), h) else None))"

definition errURL :: go_error where
  "errURL = ErrorString ''parse URL''"

definition before :: "char \<Rightarrow> string \<Rightarrow> string" where
  "before c s = takeWhile (\<lambda>x. x \<noteq> c) s"

definition url_no_fragment :: "string \<Rightarrow> go_error + URL" where
  "url_no_fragment raw =
     (if \<exists>c \<in> set raw. of_char c < (32 :: nat) \<or> of_char c = (127 :: nat) then Inl errURL
      else if raw = ''*'' then Inr \<lparr>Scheme = [], User = None, UHost = []\<rparr>
      else (case getScheme raw of
          None \<Rightarrow> Inl errURL
        | Some (sch, rest) \<Rightarrow>
            (let sch = ToLower sch; rest = before (CHR ''?'') rest
             in if \<not> HasPrefix rest ''/'' \<and> sch \<noteq> [] then Inr \<lparr>Scheme = sch, User = None, UHost = []\<rparr>
                else if \<not> HasPrefix rest ''/'' \<and> CHR '':'' \<in> set (before (CHR ''/'') rest) then Inl errURL
                else if HasPrefix rest ''//'' \<and> (sch \<noteq> [] \<or> \<not> HasPrefix rest ''///'') then
                  (let authority = before (CHR ''/'') (drop 2 rest);
                       path = drop (length authority) (drop 2 rest)
                   in case parseAuthority authority of
                        None \<Rightarrow> Inl errURL
                      | Some (u, h) \<Rightarrow>
                          if unescape PathPart path = None then Inl errURL
                          else Inr \<lparr>Scheme = sch, User = u, UHost = h\<rparr>)
                else if unescape PathPart rest = None then Inl errURL
                else Inr \<lparr>Scheme = sch, User = None, UHost = []\<rparr>)))"

definition url_Parse :: "string \<Rightarrow> go_error + URL" where
  "url_Parse raw =
     (let u = before (CHR ''#'') raw; frag = drop (length u + 1) raw
      in case url_no_fragment u of
           Inl e \<Rightarrow> Inl e
         | Inr url \<Rightarrow> if unescape PathPart frag = None then Inl errURL else Inr url)"

section \<open>Lemmas\<close>

lemma IsAbs_Cons: "IsAbs path \<longleftrightarrow> (\<exists>rest. path = CHR ''/'' # rest)"
  by (cases path) (auto simp: IsAbs_def HasPrefix_def)

lemma IsAbs_Clean: "IsAbs path \<Longrightarrow> IsAbs (Clean path)"
  by (simp add: Clean_def Let_def IsAbs_Cons)

lemma IsAbs_path_Join: "IsAbs a \<Longrightarrow> IsAbs (path_Join a b)"
  by (auto simp: path_Join_def IsAbs_Cons intro!: IsAbs_Clean [unfolded IsAbs_Cons])

lemma IsAbs_Dir:
  assumes "IsAbs path"
  shows "IsAbs (Dir path)"
proof -
  from assms obtain rest where p: "path = CHR ''/'' # rest"
    by (auto simp: IsAbs_Cons)
  obtain i where "LastIndexByte path (CHR ''/'') = Some i"
    using p IndexByte_None [of "rev path"] by (fastforce simp: LastIndexByte_def split: option.splits)
  with p show ?thesis
    by (auto simp: Dir_def intro!: IsAbs_Clean) (simp add: IsAbs_Cons)
qed

lemma clean_elements_not_Nil: "[] \<notin> set out \<Longrightarrow> [] \<notin> set (clean_elements rooted out es)"
  by (induction rooted out es rule: clean_elements.induct) (auto split: list.splits if_splits)

lemma join_slash_Nil: "[] \<notin> set es \<Longrightarrow> join_slash es = [] \<longleftrightarrow> es = []"
  by (cases es rule: join_slash.cases) auto

lemma Clean_not_Nil [simp]: "Clean path \<noteq> []"
  using clean_elements_not_Nil [of "[]"] by (auto simp: Clean_def Let_def join_slash_Nil)

end
