(* ===== verification/Config.thy ===== *)
theory Config
  imports Go_Crypto Go_Url
begin

text \<open>
  \<open>internal/config\<close> and \<open>internal/safefile\<close>: reading a bounded regular file, decoding one
  YAML document, and the defaults and checks of the server's and the client's settings. The
  YAML library is an argument: what its decoder answers to the two \<open>Decode\<close> calls. A file is
  what opening it shows. Error texts quote their argument without escapes.
\<close>

section \<open>Files\<close>

record os_File =
  regular :: bool
  size :: int
  content :: bytes
  read_error :: "go_error option"

text \<open>\<open>Read\<close> on what \<open>openRegular\<close> and \<open>Stat\<close> answered. The limited reader stops at
  \<open>max + 1\<close> bytes, before an error further on.\<close>

definition Read :: "go_error + os_File \<Rightarrow> int \<Rightarrow> go_error + bytes" where
  "Read opened mx =
     (if mx < 1 then Inl (ErrorString ''invalid file limit'')
      else and_then opened (\<lambda>f.
        if \<not> regular f then Inl (ErrorString ''configuration must be a regular file'')
        else if mx < size f then Inl ErrSize
        else
          (let b = take (nat mx + 1) (content f)
           in if mx < int (length b) then Inl ErrSize
              else (case read_error f of Some e \<Rightarrow> Inl e | None \<Rightarrow> Inr b))))"

text \<open>A decoder's answers: the first document or an error, and the error of the second call.\<close>

type_synonym 'c yaml = "bytes \<Rightarrow> (go_error + 'c) \<times> go_error option"

definition load :: "'c yaml \<Rightarrow> go_error + os_File \<Rightarrow> go_error + 'c" where
  "load yaml opened =
     (case Read opened (2 ^ 20) of
        Inl err \<Rightarrow>
          Inl (if errors_Is err ErrSize then Wrapped ''config: file exceeds 1 MiB: '' err else err)
      | Inr data \<Rightarrow>
          (case yaml data of
             (Inl err, _) \<Rightarrow> Inl err
           | (Inr c, extraErr) \<Rightarrow>
               if extraErr \<noteq> Some EOF then Inl (ErrorString ''config: exactly one YAML document required'')
               else Inr c))"

section \<open>Settings\<close>

record ACL =
  Allow :: "string list"
  Deny :: "string list"
  AllowPorts :: "int list"
  DenyPorts :: "int list"

record DecoyConfig =
  Mode :: string
  Upstream :: string
  DecoyDir :: string
  SiteName :: string

record UDPConfig =
  MaxFlows :: int
  QueueSize :: int
  Workers :: int
  NewFlowsPerSecond :: int
  MaxPayload :: int
  UDPIdleTimeoutSec :: int

record ServerConfig =
  CongestionControl :: string
  PreviousPSK :: string
  PreviousPSKExpires :: instant
  MaxActiveStreams :: int
  MaxCompressedStreams :: int
  HandshakeTimeoutSec :: int
  RequestTimeoutSec :: int
  MaxConnections :: int
  MaxStreamsPerConnection :: int
  DNSTimeoutSec :: int
  DNSConcurrency :: int
  UDP :: UDPConfig
  AllowEphemeralCert :: bool
  Listen :: string
  PSK :: string
  ALPN :: string
  CertFile :: string
  KeyFile :: string
  IdleTimeoutSec :: int
  ACL :: ACL
  Decoy :: DecoyConfig
  Allow0RTT :: bool
  Compression :: bool
  MetricsListen :: string
  MaxStreamRecvWindowMB :: int
  MaxConnRecvWindowMB :: int

record ClientConfig =
  cCongestionControl :: string
  NextPin :: string
  NextPinExpires :: instant
  cMaxActiveStreams :: int
  cMaxCompressedStreams :: int
  cHandshakeTimeoutSec :: int
  cRequestTimeoutSec :: int
  MaxPendingRequests :: int
  MaxUDPSessions :: int
  cMaxConnections :: int
  ProxyIdleTimeoutSec :: int
  HTTPResponseHeaderTimeoutSec :: int
  MaxHeaderBytes :: int
  AllowRemoteProxy :: bool
  DisableSessionResumption :: bool
  ServerAddress :: string
  cPSK :: string
  Pin :: string
  cALPN :: string
  SOCKSListen :: string
  HTTPListen :: string
  cIdleTimeoutSec :: int
  Enable0RTT :: bool
  cCompression :: bool
  cMetricsListen :: string
  cMaxStreamRecvWindowMB :: int
  cMaxConnRecvWindowMB :: int

definition alpnOr :: "string \<Rightarrow> string" where
  "alpnOr a = (if a = [] then ''h3'' else a)"

definition ALPNOrDefault :: "ServerConfig \<Rightarrow> string" where
  "ALPNOrDefault c = alpnOr (ALPN c)"

definition DecodePSK :: "string \<Rightarrow> go_error + bytes" where
  "DecodePSK s =
     (if s = [] then Inl (ErrorString ''config: psk is required'')
      else (case DecodeString s of
          Inl err \<Rightarrow> Inl (Wrapped ''config: psk must be base64: '' err)
        | Inr b \<Rightarrow>
            if 256 < length b then Inl (ErrorString ''config: psk exceeds 256 bytes'')
            else if length b < 16 then Inl (ErrorString ''config: psk must be at least 16 bytes'')
            else Inr b))"

section \<open>Checks\<close>

definition bounded :: "string \<Rightarrow> int \<Rightarrow> int \<Rightarrow> int \<Rightarrow> int \<Rightarrow> go_error + int" where
  "bounded name def mn mx p =
     (let p = (if p = 0 then def else p)
      in if p < mn \<or> mx < p
         then Inl (ErrorString (''config: '' @ name @ '' must be '' @ Itoa (nat mn) @ ''..'' @ Itoa (nat mx) @
                '' (0 selects default)''))
         else Inr p)"

definition validateEndpoint :: "string \<Rightarrow> bool \<Rightarrow> go_error + unit" where
  "validateEndpoint addr hostRequired =
     (let invalid = ErrorString (''config: invalid endpoint '' @ addr)
      in case SplitHostPort addr of
           Inl err \<Rightarrow> Inl invalid
         | Inr (host, port) \<Rightarrow>
             (case Atoi port of
                Inl err \<Rightarrow> Inl invalid
              | Inr n \<Rightarrow>
                  if n < 1 \<or> 65535 < n \<or> (hostRequired \<and> host = []) then Inl invalid else Inr ()))"

definition validateCommon ::
    "string \<Rightarrow> string \<Rightarrow> int \<Rightarrow> int \<Rightarrow> int \<Rightarrow> int \<Rightarrow> int \<Rightarrow> go_error + (int \<times> int \<times> int)" where
  "validateCommon alpn metrics idle handshake request stream conn =
     and_then (require (alpn = [] \<or> alpn = ''h3'') (ErrorString ''config: protocol v2 requires ALPN h3'')) (\<lambda>_.
     and_then (if metrics \<noteq> [] then validateEndpoint metrics False else Inr ()) (\<lambda>_.
     and_then (bounded ''idle_timeout_sec'' 60 5 3600 idle) (\<lambda>idle.
     and_then (bounded ''handshake_timeout_sec'' 10 1 120 handshake) (\<lambda>handshake.
     and_then (bounded ''request_timeout_sec'' 15 1 300 request) (\<lambda>request.
     if stream < 0 \<or> 256 < stream \<or> conn < 0 \<or> 1024 < conn
     then Inl (ErrorString ''config: receive windows must be nonnegative and within 256/1024 MiB'')
     else
       (let stream = (if stream = 0 then 16 else stream); conn = (if conn = 0 then 24 else conn)
        in if conn < stream then Inl (ErrorString ''config: connection receive window must cover stream window'')
           else Inr (idle, handshake, request)))))))"

definition validateOverlap :: "instant \<Rightarrow> string \<Rightarrow> instant \<Rightarrow> go_error + unit" where
  "validateOverlap now value expires =
     (if value = [] then
        (if expires \<noteq> 0 then Inl (ErrorString ''config: rotation expiry requires alternate credential'') else Inr ())
      else if expires = 0 \<or> now + 7 * 24 * hour < expires
      then Inl (ErrorString ''config: alternate credential needs expiry no more than 7 days ahead'')
      else Inr ())"

section \<open>The server's settings\<close>

definition check_previous :: "instant \<Rightarrow> ServerConfig \<Rightarrow> go_error + unit" where
  "check_previous now c =
     and_then (validateOverlap now (PreviousPSK c) (PreviousPSKExpires c)) (\<lambda>_.
     if PreviousPSK c = [] then Inr ()
     else
       and_then (DecodePSK (PreviousPSK c)) (\<lambda>old.
       and_then (DecodePSK (PSK c)) (\<lambda>primary.
       require (old \<noteq> primary) (ErrorString ''config: previous_psk equals primary''))))"

definition absolute :: "string \<Rightarrow> string \<Rightarrow> string" where
  "absolute path p = (if p \<noteq> [] \<and> \<not> IsAbs p then path_Join (Dir path) p else p)"

definition check_certificate :: "string \<Rightarrow> ServerConfig \<Rightarrow> go_error + ServerConfig" where
  "check_certificate path c =
     (if (CertFile c = []) \<noteq> (KeyFile c = [])
      then Inl (ErrorString ''config: cert_file and key_file must be provided together'')
      else if CertFile c = [] \<and> \<not> AllowEphemeralCert c
      then Inl (ErrorString ''config: persistent cert_file/key_file required; allow_ephemeral_cert is for local experiments'')
      else Inr (c\<lparr>CertFile := absolute path (CertFile c), KeyFile := absolute path (KeyFile c),
                 Decoy := (Decoy c)\<lparr>DecoyDir := absolute path (DecoyDir (Decoy c))\<rparr>\<rparr>))"

definition upstream_ok :: "string \<Rightarrow> bool" where
  "upstream_ok s =
     (case url_Parse s of
        Inl _ \<Rightarrow> False
      | Inr u \<Rightarrow> UHost u \<noteq> [] \<and> (Scheme u = ''http'' \<or> Scheme u = ''https'') \<and> User u = None)"

definition check_decoy :: "DecoyConfig \<Rightarrow> go_error + DecoyConfig" where
  "check_decoy d =
     (let d = (if Mode d = [] then d\<lparr>Mode := ''off''\<rparr> else d)
      in if Mode d = ''off'' \<or> Mode d = ''builtin'' then Inr d
         else if Mode d = ''dir'' then
           (if DecoyDir d = [] then Inl (ErrorString ''config: decoy dir is required'') else Inr d)
         else if Mode d = ''proxy'' then
           (if \<not> upstream_ok (Upstream d) then Inl (ErrorString ''config: invalid decoy upstream'') else Inr d)
         else Inl (ErrorString ''config: unknown decoy mode''))"

definition ports_ok :: "ACL \<Rightarrow> bool" where
  "ports_ok a = (\<forall>p \<in> set (AllowPorts a @ DenyPorts a). 1 \<le> p \<and> p \<le> 65535)"

definition check_congestion :: "string \<Rightarrow> go_error + string" where
  "check_congestion mode =
     (let mode = (if mode = [] then ''reno'' else mode)
      in if mode \<noteq> ''reno'' \<and> mode \<noteq> ''bbr''
         then Inl (ErrorString ''config: congestion_control must be reno or bbr'') else Inr mode)"

definition check_udp :: "UDPConfig \<Rightarrow> go_error + UDPConfig" where
  "check_udp u =
     and_then (bounded ''udp.max_flows'' 256 1 65536 (MaxFlows u)) (\<lambda>flows.
     and_then (bounded ''udp.queue_size'' 128 1 4096 (QueueSize u)) (\<lambda>queue.
     and_then (bounded ''udp.workers'' 4 1 64 (Workers u)) (\<lambda>workers.
     and_then (bounded ''udp.new_flows_per_second'' 32 1 4096 (NewFlowsPerSecond u)) (\<lambda>rate.
     and_then (bounded ''udp.max_payload'' 850 1 850 (MaxPayload u)) (\<lambda>payload.
     and_then (bounded ''udp.idle_timeout_sec'' 60 1 3600 (UDPIdleTimeoutSec u)) (\<lambda>idle.
     Inr \<lparr>MaxFlows = flows, QueueSize = queue, Workers = workers, NewFlowsPerSecond = rate,
          MaxPayload = payload, UDPIdleTimeoutSec = idle\<rparr>))))))"

text \<open>The table of limits. A zero \<open>max_active_streams\<close> is set before the table is built, so the
  default of \<open>max_compressed_streams\<close> sees the effective value.\<close>

definition check_limits :: "ServerConfig \<Rightarrow> go_error + ServerConfig" where
  "check_limits c =
     (let active0 = (if MaxActiveStreams c = 0 then 128 else MaxActiveStreams c)
      in and_then (bounded ''max_active_streams'' 128 1 4096 active0) (\<lambda>active.
         and_then (bounded ''max_compressed_streams'' (min 16 active0) 1 128 (MaxCompressedStreams c)) (\<lambda>compressed.
         and_then (bounded ''max_connections'' 256 1 65536 (MaxConnections c)) (\<lambda>connections.
         and_then (bounded ''max_streams_per_connection'' 128 2 4096 (MaxStreamsPerConnection c)) (\<lambda>streams.
         and_then (bounded ''dns_timeout_sec'' 5 1 60 (DNSTimeoutSec c)) (\<lambda>timeout.
         and_then (bounded ''dns_concurrency'' 32 1 256 (DNSConcurrency c)) (\<lambda>concurrency.
         and_then (check_udp (UDP c)) (\<lambda>udp.
         and_then (require (compressed \<le> active)
           (ErrorString ''config: max_compressed_streams exceeds max_active_streams'')) (\<lambda>_.
         Inr (c\<lparr>MaxActiveStreams := active, MaxCompressedStreams := compressed, MaxConnections := connections,
               MaxStreamsPerConnection := streams, DNSTimeoutSec := timeout, DNSConcurrency := concurrency,
               UDP := udp\<rparr>))))))))))"

definition check_server :: "instant \<Rightarrow> string \<Rightarrow> ServerConfig \<Rightarrow> go_error + ServerConfig" where
  "check_server now path c =
     and_then (check_previous now c) (\<lambda>_.
     let c = (if Listen c = [] then c\<lparr>Listen := '':4242''\<rparr> else c)
     in and_then (validateEndpoint (Listen c) False) (\<lambda>_.
        and_then (DecodePSK (PSK c)) (\<lambda>_.
        and_then (validateCommon (ALPN c) (MetricsListen c) (IdleTimeoutSec c) (HandshakeTimeoutSec c)
            (RequestTimeoutSec c) (MaxStreamRecvWindowMB c) (MaxConnRecvWindowMB c)) (\<lambda>(idle, handshake, request).
        let c = c\<lparr>IdleTimeoutSec := idle, HandshakeTimeoutSec := handshake, RequestTimeoutSec := request\<rparr>
        in and_then (check_certificate path c) (\<lambda>c.
           and_then (check_decoy (Decoy c)) (\<lambda>decoy.
           let c = c\<lparr>Decoy := decoy\<rparr>
           in and_then (require (ports_ok (ACL c)) (ErrorString ''config: ACL port outside 1..65535'')) (\<lambda>_.
              and_then (check_congestion (CongestionControl c)) (\<lambda>mode.
              check_limits (c\<lparr>CongestionControl := mode\<rparr>)))))))))"

definition LoadServer ::
    "ServerConfig yaml \<Rightarrow> instant \<Rightarrow> string \<Rightarrow> go_error + os_File \<Rightarrow> go_error + ServerConfig" where
  "LoadServer yaml now path opened = and_then (load yaml opened) (check_server now path)"

definition SameRuntimeSettings :: "ServerConfig \<Rightarrow> ServerConfig \<Rightarrow> bool" where
  "SameRuntimeSettings a b =
     (let erase = (\<lambda>c. c\<lparr>PSK := [], PreviousPSK := [], PreviousPSKExpires := 0, CertFile := [], KeyFile := []\<rparr>)
      in erase a = erase b)"

section \<open>The client's settings\<close>

definition check_next_pin :: "instant \<Rightarrow> ClientConfig \<Rightarrow> go_error + unit" where
  "check_next_pin now c =
     and_then (validateOverlap now (NextPin c) (NextPinExpires c)) (\<lambda>_.
     if NextPin c = [] then Inr ()
     else (case DecodeString (NextPin c) of
         Inl _ \<Rightarrow> Inl (ErrorString ''config: invalid next_pin'')
       | Inr nxt \<Rightarrow>
           if length nxt \<noteq> 32 then Inl (ErrorString ''config: invalid next_pin'')
           else require (NextPin c \<noteq> Pin c) (ErrorString ''config: next_pin equals current pin'')))"

definition check_pin :: "string \<Rightarrow> go_error + unit" where
  "check_pin pin =
     (case DecodeString pin of
        Inr b \<Rightarrow> require (length b = 32) (ErrorString ''config: pin must be a base64 SHA256 hash'')
      | Inl _ \<Rightarrow> Inl (ErrorString ''config: pin must be a base64 SHA256 hash''))"

definition check_listener :: "bool \<Rightarrow> string \<Rightarrow> go_error + unit" where
  "check_listener remote addr =
     (if addr = [] then Inr ()
      else
        and_then (validateEndpoint addr False) (\<lambda>_.
        let host = (case SplitHostPort addr of Inl _ \<Rightarrow> [] | Inr (h, _) \<Rightarrow> h)
        in require (remote \<or> (case ParseIP host of None \<Rightarrow> False | Some ip \<Rightarrow> IsLoopback ip))
             (ErrorString ''config: proxy listeners must use a loopback IP; allow_remote_proxy explicitly enables unauthenticated remote access'')))"

definition check_listeners :: "ClientConfig \<Rightarrow> go_error + ClientConfig" where
  "check_listeners c0 =
     (let c = (if SOCKSListen c0 = [] \<and> HTTPListen c0 = [] then c0\<lparr>SOCKSListen := ''127.0.0.1:1080''\<rparr> else c0)
      in and_then (check_listener (AllowRemoteProxy c) (SOCKSListen c)) (\<lambda>_.
         and_then (check_listener (AllowRemoteProxy c) (HTTPListen c)) (\<lambda>_.
         and_then (require (SOCKSListen c = [] \<or> SOCKSListen c \<noteq> HTTPListen c)
           (ErrorString ''config: proxy listeners overlap'')) (\<lambda>_. Inr c))))"

definition check_client_limits :: "ClientConfig \<Rightarrow> go_error + ClientConfig" where
  "check_client_limits c =
     (let active0 = (if cMaxActiveStreams c = 0 then 128 else cMaxActiveStreams c)
      in and_then (bounded ''max_active_streams'' 128 1 4096 active0) (\<lambda>active.
         and_then (bounded ''max_compressed_streams'' (min 16 active0) 1 128 (cMaxCompressedStreams c)) (\<lambda>compressed.
         and_then (bounded ''max_connections'' 256 1 65536 (cMaxConnections c)) (\<lambda>connections.
         and_then (bounded ''max_pending_requests'' 256 1 65536 (MaxPendingRequests c)) (\<lambda>pending.
         and_then (bounded ''max_udp_sessions'' 128 1 65536 (MaxUDPSessions c)) (\<lambda>sessions.
         and_then (bounded ''proxy_idle_timeout_sec'' 300 1 86400 (ProxyIdleTimeoutSec c)) (\<lambda>idle.
         and_then (bounded ''http_response_header_timeout_sec'' 120 1 3600 (HTTPResponseHeaderTimeoutSec c)) (\<lambda>header.
         and_then (bounded ''max_header_bytes'' 65536 1024 1048576 (MaxHeaderBytes c)) (\<lambda>bytes.
         and_then (require (compressed \<le> active)
           (ErrorString ''config: max_compressed_streams exceeds max_active_streams'')) (\<lambda>_.
         Inr (c\<lparr>cMaxActiveStreams := active, cMaxCompressedStreams := compressed, cMaxConnections := connections,
               MaxPendingRequests := pending, MaxUDPSessions := sessions, ProxyIdleTimeoutSec := idle,
               HTTPResponseHeaderTimeoutSec := header, MaxHeaderBytes := bytes\<rparr>)))))))))))"

definition check_client :: "instant \<Rightarrow> ClientConfig \<Rightarrow> go_error + ClientConfig" where
  "check_client now c =
     and_then (case validateEndpoint (ServerAddress c) True of
         Inl err \<Rightarrow> Inl (Wrapped ''config: server: '' err)
       | Inr u \<Rightarrow> Inr u) (\<lambda>_.
     and_then (check_next_pin now c) (\<lambda>_.
     and_then (check_pin (Pin c)) (\<lambda>_.
     and_then (DecodePSK (cPSK c)) (\<lambda>_.
     and_then (validateCommon (cALPN c) (cMetricsListen c) (cIdleTimeoutSec c) (cHandshakeTimeoutSec c)
         (cRequestTimeoutSec c) (cMaxStreamRecvWindowMB c) (cMaxConnRecvWindowMB c)) (\<lambda>(idle, handshake, request).
     and_then (check_listeners
         (c\<lparr>cIdleTimeoutSec := idle, cHandshakeTimeoutSec := handshake, cRequestTimeoutSec := request\<rparr>)) (\<lambda>c.
     and_then (check_congestion (cCongestionControl c)) (\<lambda>mode.
     check_client_limits (c\<lparr>cCongestionControl := mode\<rparr>))))))))"

definition LoadClient :: "ClientConfig yaml \<Rightarrow> instant \<Rightarrow> go_error + os_File \<Rightarrow> go_error + ClientConfig" where
  "LoadClient yaml now opened = and_then (load yaml opened) (check_client now)"

section \<open>Lemmas\<close>

lemma bounded_Inr:
  "bounded name def mn mx p = Inr q \<longleftrightarrow> q = (if p = 0 then def else p) \<and> mn \<le> q \<and> q \<le> mx"
  by (auto simp: bounded_def Let_def)

lemma bounded_again: "1 \<le> mn \<Longrightarrow> mn \<le> q \<Longrightarrow> q \<le> mx \<Longrightarrow> bounded name def mn mx q = Inr q"
  by (simp add: bounded_Inr)

lemma Read_Inr:
  assumes "Read opened mx = Inr b"
  shows "\<exists>f. opened = Inr f \<and> regular f \<and> b = content f \<and> int (length b) \<le> mx"
  using assms by (auto simp: Read_def Let_def split: if_splits option.splits)

lemma validateCommon_Inr:
  "validateCommon alpn metrics idle handshake request stream conn = Inr (i, h, r) \<longleftrightarrow>
     (alpn = [] \<or> alpn = ''h3'') \<and> (metrics \<noteq> [] \<longrightarrow> validateEndpoint metrics False = Inr ()) \<and>
     bounded ''idle_timeout_sec'' 60 5 3600 idle = Inr i \<and> bounded ''handshake_timeout_sec'' 10 1 120 handshake = Inr h \<and>
     bounded ''request_timeout_sec'' 15 1 300 request = Inr r \<and>
     0 \<le> stream \<and> stream \<le> 256 \<and> 0 \<le> conn \<and> conn \<le> 1024 \<and>
     (if stream = 0 then 16 else stream) \<le> (if conn = 0 then 24 else conn)"
  by (auto simp: validateCommon_def Let_def split: if_splits)

lemma validateCommon_again:
  "validateCommon alpn metrics idle handshake request stream conn = Inr (i, h, r) \<Longrightarrow>
   validateCommon alpn metrics i h r stream conn = Inr (i, h, r)"
  by (auto simp: validateCommon_Inr bounded_Inr)

lemma check_decoy_again: "check_decoy d = Inr d' \<Longrightarrow> check_decoy d' = Inr d' \<and> DecoyDir d' = DecoyDir d"
  by (auto simp: check_decoy_def Let_def split: if_splits)

lemma check_congestion_again: "check_congestion m = Inr m' \<Longrightarrow> check_congestion m' = Inr m'"
  by (auto simp: check_congestion_def Let_def split: if_splits)

lemma check_udp_Inr:
  "check_udp u = Inr v \<Longrightarrow>
     1 \<le> MaxFlows v \<and> MaxFlows v \<le> 65536 \<and> 1 \<le> QueueSize v \<and> QueueSize v \<le> 4096 \<and>
     1 \<le> Workers v \<and> Workers v \<le> 64 \<and> 1 \<le> NewFlowsPerSecond v \<and> NewFlowsPerSecond v \<le> 4096 \<and>
     1 \<le> MaxPayload v \<and> MaxPayload v \<le> 850 \<and> 1 \<le> UDPIdleTimeoutSec v \<and> UDPIdleTimeoutSec v \<le> 3600"
  by (auto simp: check_udp_def bounded_Inr)

lemma check_udp_again: "check_udp u = Inr v \<Longrightarrow> check_udp v = Inr v"
  by (frule check_udp_Inr) (simp add: check_udp_def bounded_again)

text \<open>The limits a loaded server configuration respects.\<close>

definition server_limits :: "ServerConfig \<Rightarrow> bool" where
  "server_limits c =
     (1 \<le> MaxActiveStreams c \<and> MaxActiveStreams c \<le> 4096 \<and>
      1 \<le> MaxCompressedStreams c \<and> MaxCompressedStreams c \<le> min 128 (MaxActiveStreams c) \<and>
      1 \<le> MaxConnections c \<and> MaxConnections c \<le> 65536 \<and>
      2 \<le> MaxStreamsPerConnection c \<and> MaxStreamsPerConnection c \<le> 4096 \<and>
      1 \<le> DNSTimeoutSec c \<and> DNSTimeoutSec c \<le> 60 \<and> 1 \<le> DNSConcurrency c \<and> DNSConcurrency c \<le> 256 \<and>
      check_udp (UDP c) = Inr (UDP c))"

lemma check_limits_Inr:
  assumes "check_limits c = Inr d"
  shows "server_limits d \<and>
    (\<exists>active compressed connections streams timeout concurrency udp.
       d = c\<lparr>MaxActiveStreams := active, MaxCompressedStreams := compressed, MaxConnections := connections,
             MaxStreamsPerConnection := streams, DNSTimeoutSec := timeout, DNSConcurrency := concurrency, UDP := udp\<rparr>)"
proof -
  let ?a = "if MaxActiveStreams c = 0 then 128 else MaxActiveStreams c"
  from assms obtain active compressed connections streams timeout concurrency udp where
    b: "bounded ''max_active_streams'' 128 1 4096 ?a = Inr active"
      "bounded ''max_compressed_streams'' (min 16 ?a) 1 128 (MaxCompressedStreams c) = Inr compressed"
      "bounded ''max_connections'' 256 1 65536 (MaxConnections c) = Inr connections"
      "bounded ''max_streams_per_connection'' 128 2 4096 (MaxStreamsPerConnection c) = Inr streams"
      "bounded ''dns_timeout_sec'' 5 1 60 (DNSTimeoutSec c) = Inr timeout"
      "bounded ''dns_concurrency'' 32 1 256 (DNSConcurrency c) = Inr concurrency"
      "check_udp (UDP c) = Inr udp" "compressed \<le> active" and
    d: "d = c\<lparr>MaxActiveStreams := active, MaxCompressedStreams := compressed, MaxConnections := connections,
          MaxStreamsPerConnection := streams, DNSTimeoutSec := timeout, DNSConcurrency := concurrency, UDP := udp\<rparr>"
    unfolding check_limits_def Let_def and_then_Inr require_Inr by blast
  have "server_limits d"
    using b check_udp_again [OF b(7)] unfolding bounded_Inr by (simp add: server_limits_def d)
  with d show ?thesis by blast
qed

lemma check_limits_again: "server_limits c \<Longrightarrow> check_limits c = Inr c"
  by (simp add: check_limits_def server_limits_def bounded_again)

lemma absolute_again: "IsAbs path \<Longrightarrow> absolute path (absolute path p) = absolute path p"
  by (simp add: absolute_def IsAbs_path_Join IsAbs_Dir)

lemma absolute_empty [simp]: "absolute path p = [] \<longleftrightarrow> p = []"
  by (auto simp: absolute_def path_Join_def)

lemma check_certificate_again:
  "IsAbs path \<Longrightarrow> check_certificate path c = Inr d \<Longrightarrow> check_certificate path d = Inr d"
  by (auto simp: check_certificate_def absolute_again split: if_splits)

text \<open>What the checks have established once they have passed.\<close>

definition server_valid :: "instant \<Rightarrow> ServerConfig \<Rightarrow> bool" where
  "server_valid now c =
     (check_previous now c = Inr () \<and> Listen c \<noteq> [] \<and> validateEndpoint (Listen c) False = Inr () \<and>
      (\<exists>k. DecodePSK (PSK c) = Inr k) \<and>
      validateCommon (ALPN c) (MetricsListen c) (IdleTimeoutSec c) (HandshakeTimeoutSec c) (RequestTimeoutSec c)
        (MaxStreamRecvWindowMB c) (MaxConnRecvWindowMB c) = Inr (IdleTimeoutSec c, HandshakeTimeoutSec c, RequestTimeoutSec c) \<and>
      (CertFile c = [] \<longleftrightarrow> KeyFile c = []) \<and> (CertFile c = [] \<longrightarrow> AllowEphemeralCert c) \<and>
      check_decoy (Decoy c) = Inr (Decoy c) \<and> ports_ok (ACL c) \<and>
      check_congestion (CongestionControl c) = Inr (CongestionControl c) \<and> server_limits c)"

lemma check_certificate_Inr:
  "check_certificate path c = Inr d \<longleftrightarrow>
     (CertFile c = [] \<longleftrightarrow> KeyFile c = []) \<and> (CertFile c = [] \<longrightarrow> AllowEphemeralCert c) \<and>
     d = c\<lparr>CertFile := absolute path (CertFile c), KeyFile := absolute path (KeyFile c),
           Decoy := (Decoy c)\<lparr>DecoyDir := absolute path (DecoyDir (Decoy c))\<rparr>\<rparr>"
  by (auto simp: check_certificate_def)

lemma check_server_cases:
  assumes "check_server now path c = Inr d"
  obtains c1 idle handshake request decoy mode where
    "check_previous now c = Inr ()" "c1 = (if Listen c = [] then c\<lparr>Listen := '':4242''\<rparr> else c)"
    "validateEndpoint (Listen c1) False = Inr ()" "\<exists>k. DecodePSK (PSK c) = Inr k"
    "validateCommon (ALPN c) (MetricsListen c) (IdleTimeoutSec c) (HandshakeTimeoutSec c) (RequestTimeoutSec c)
       (MaxStreamRecvWindowMB c) (MaxConnRecvWindowMB c) = Inr (idle, handshake, request)"
    "CertFile c = [] \<longleftrightarrow> KeyFile c = []" "CertFile c = [] \<longrightarrow> AllowEphemeralCert c"
    "check_decoy ((Decoy c)\<lparr>DecoyDir := absolute path (DecoyDir (Decoy c))\<rparr>) = Inr decoy" "ports_ok (ACL c)"
    "check_congestion (CongestionControl c) = Inr mode"
    "check_limits (c1\<lparr>IdleTimeoutSec := idle, HandshakeTimeoutSec := handshake, RequestTimeoutSec := request,
       CertFile := absolute path (CertFile c), KeyFile := absolute path (KeyFile c), Decoy := decoy,
       CongestionControl := mode\<rparr>) = Inr d"
proof -
  define c1 where "c1 = (if Listen c = [] then c\<lparr>Listen := '':4242''\<rparr> else c)"
  have f: "PSK c1 = PSK c" "ALPN c1 = ALPN c" "MetricsListen c1 = MetricsListen c" "IdleTimeoutSec c1 = IdleTimeoutSec c"
    "HandshakeTimeoutSec c1 = HandshakeTimeoutSec c" "RequestTimeoutSec c1 = RequestTimeoutSec c"
    "MaxStreamRecvWindowMB c1 = MaxStreamRecvWindowMB c" "MaxConnRecvWindowMB c1 = MaxConnRecvWindowMB c"
    "CertFile c1 = CertFile c" "KeyFile c1 = KeyFile c" "AllowEphemeralCert c1 = AllowEphemeralCert c"
    "Decoy c1 = Decoy c" "ACL c1 = ACL c" "CongestionControl c1 = CongestionControl c"
    by (simp_all add: c1_def)
  from assms obtain k idle handshake request c3 decoy mode where
    1: "check_previous now c = Inr ()" "validateEndpoint (Listen c1) False = Inr ()" "DecodePSK (PSK c1) = Inr k"
      "validateCommon (ALPN c1) (MetricsListen c1) (IdleTimeoutSec c1) (HandshakeTimeoutSec c1) (RequestTimeoutSec c1)
         (MaxStreamRecvWindowMB c1) (MaxConnRecvWindowMB c1) = Inr (idle, handshake, request)" and
    3: "check_certificate path (c1\<lparr>IdleTimeoutSec := idle, HandshakeTimeoutSec := handshake, RequestTimeoutSec := request\<rparr>) =
         Inr c3" and
    4: "check_decoy (Decoy c3) = Inr decoy" "ports_ok (ACL c3)" "check_congestion (CongestionControl c3) = Inr mode"
      "check_limits (c3\<lparr>Decoy := decoy, CongestionControl := mode\<rparr>) = Inr d"
    unfolding check_server_def c1_def [symmetric] Let_def
    by (simp del: One_nat_def split: prod.splits) (elim exE conjE, simp)
  from 3 have c3: "CertFile c = [] \<longleftrightarrow> KeyFile c = []" "CertFile c = [] \<longrightarrow> AllowEphemeralCert c"
      "c3 = c1\<lparr>IdleTimeoutSec := idle, HandshakeTimeoutSec := handshake, RequestTimeoutSec := request,
        CertFile := absolute path (CertFile c), KeyFile := absolute path (KeyFile c),
        Decoy := (Decoy c)\<lparr>DecoyDir := absolute path (DecoyDir (Decoy c))\<rparr>\<rparr>"
    by (simp_all add: check_certificate_Inr f)
  show thesis
    by (rule that [OF 1(1) c1_def 1(2)]) (use 1 4 c3 f in simp_all)
qed

lemma check_server_valid:
  assumes "check_server now path c = Inr d"
  shows "server_valid now d \<and> CertFile d = absolute path (CertFile c) \<and> KeyFile d = absolute path (KeyFile c) \<and>
    DecoyDir (Decoy d) = absolute path (DecoyDir (Decoy c)) \<and> PSK d = PSK c \<and> PreviousPSK d = PreviousPSK c"
  using assms
proof (cases rule: check_server_cases)
  case (1 c1 idle handshake request decoy mode)
  from check_limits_Inr [OF 1(11)] obtain active compressed connections streams timeout concurrency udp where
    lim: "server_limits d" and
    d: "d = c1\<lparr>IdleTimeoutSec := idle, HandshakeTimeoutSec := handshake, RequestTimeoutSec := request,
       CertFile := absolute path (CertFile c), KeyFile := absolute path (KeyFile c), Decoy := decoy,
       CongestionControl := mode, MaxActiveStreams := active, MaxCompressedStreams := compressed,
       MaxConnections := connections, MaxStreamsPerConnection := streams, DNSTimeoutSec := timeout,
       DNSConcurrency := concurrency, UDP := udp\<rparr>"
    by auto
  have c1: "PreviousPSK c1 = PreviousPSK c" "PreviousPSKExpires c1 = PreviousPSKExpires c" "PSK c1 = PSK c"
    "ALPN c1 = ALPN c" "MetricsListen c1 = MetricsListen c" "MaxStreamRecvWindowMB c1 = MaxStreamRecvWindowMB c"
    "MaxConnRecvWindowMB c1 = MaxConnRecvWindowMB c" "AllowEphemeralCert c1 = AllowEphemeralCert c" "ACL c1 = ACL c"
    "Listen c1 \<noteq> []"
    using 1(2) by simp_all
  have "check_previous now d = check_previous now c"
    by (simp add: check_previous_def d c1)
  with 1 c1 lim check_decoy_again [OF 1(8)] check_congestion_again [OF 1(10)] validateCommon_again [OF 1(5)] show ?thesis
    unfolding server_valid_def by (simp add: d)
qed

lemma check_server_again:
  assumes "server_valid now c" "check_certificate path c = Inr c"
  shows "check_server now path c = Inr c"
proof -
  from assms obtain k where v: "check_previous now c = Inr ()" "Listen c \<noteq> []" "validateEndpoint (Listen c) False = Inr ()"
      "DecodePSK (PSK c) = Inr k"
      "validateCommon (ALPN c) (MetricsListen c) (IdleTimeoutSec c) (HandshakeTimeoutSec c) (RequestTimeoutSec c)
        (MaxStreamRecvWindowMB c) (MaxConnRecvWindowMB c) = Inr (IdleTimeoutSec c, HandshakeTimeoutSec c, RequestTimeoutSec c)"
      "check_decoy (Decoy c) = Inr (Decoy c)" "ports_ok (ACL c)"
      "check_congestion (CongestionControl c) = Inr (CongestionControl c)" "server_limits c"
    unfolding server_valid_def by blast
  show ?thesis
    unfolding check_server_def by (simp add: v assms(2) check_limits_again)
qed

lemma server_valid_limits:
  assumes "server_valid now c"
  shows "server_limits c \<and> 5 \<le> IdleTimeoutSec c \<and> IdleTimeoutSec c \<le> 3600 \<and> 1 \<le> HandshakeTimeoutSec c \<and>
    HandshakeTimeoutSec c \<le> 120 \<and> 1 \<le> RequestTimeoutSec c \<and> RequestTimeoutSec c \<le> 300 \<and>
    (\<forall>p \<in> set (AllowPorts (ACL c) @ DenyPorts (ACL c)). 1 \<le> p \<and> p \<le> 65535)"
  using assms by (auto simp: server_valid_def validateCommon_Inr bounded_Inr ports_ok_def)

lemma DecodePSK_length: "DecodePSK s = Inr k \<Longrightarrow> 16 \<le> length k \<and> length k \<le> 256"
  by (auto simp: DecodePSK_def split: if_splits sum.splits)

lemma check_listener_loopback:
  assumes "check_listener False addr = Inr ()" "addr \<noteq> []"
  shows "\<exists>host port ip n. SplitHostPort addr = Inr (host, port) \<and> ParseIP host = Some ip \<and> IsLoopback ip \<and>
    Atoi port = Inr n \<and> 1 \<le> n \<and> n \<le> 65535"
  using assms
  by (auto simp: check_listener_def validateEndpoint_def Let_def split: sum.splits if_splits option.splits)

lemma check_listeners_Inr:
  assumes "check_listeners c = Inr d"
  shows "check_listener (AllowRemoteProxy d) (SOCKSListen d) = Inr () \<and>
    check_listener (AllowRemoteProxy d) (HTTPListen d) = Inr () \<and> (SOCKSListen d \<noteq> [] \<or> HTTPListen d \<noteq> []) \<and>
    SOCKSListen d \<noteq> HTTPListen d"
  using assms unfolding check_listeners_def Let_def and_then_Inr require_Inr
  by (cases "SOCKSListen c = [] \<and> HTTPListen c = []") auto

lemma check_client_limits_keep:
  assumes "check_client_limits c = Inr d"
  shows "AllowRemoteProxy d = AllowRemoteProxy c \<and> SOCKSListen d = SOCKSListen c \<and> HTTPListen d = HTTPListen c"
  using assms unfolding check_client_limits_def Let_def and_then_Inr require_Inr by auto

lemma check_client_listeners:
  assumes "check_client now c = Inr d"
  shows "check_listener (AllowRemoteProxy d) (SOCKSListen d) = Inr () \<and>
    check_listener (AllowRemoteProxy d) (HTTPListen d) = Inr () \<and> (SOCKSListen d \<noteq> [] \<or> HTTPListen d \<noteq> []) \<and>
    SOCKSListen d \<noteq> HTTPListen d"
proof -
  from assms obtain c1 c2 mode where l: "check_listeners c1 = Inr c2" "check_client_limits (c2\<lparr>cCongestionControl := mode\<rparr>) = Inr d"
    unfolding check_client_def and_then_Inr by (auto simp only: split_paired_Ex prod.case and_then_Inr)
  from check_listeners_Inr [OF l(1)] check_client_limits_keep [OF l(2)] show ?thesis
    by simp
qed

text \<open>Configurations for the concrete runs below.\<close>

definition sample_server :: ServerConfig where
  "sample_server =
     \<lparr>CongestionControl = ''reno'', PreviousPSK = [], PreviousPSKExpires = 0, MaxActiveStreams = 128,
      MaxCompressedStreams = 16, HandshakeTimeoutSec = 10, RequestTimeoutSec = 15, MaxConnections = 256,
      MaxStreamsPerConnection = 128, DNSTimeoutSec = 5, DNSConcurrency = 32,
      UDP = \<lparr>MaxFlows = 256, QueueSize = 128, Workers = 4, NewFlowsPerSecond = 32, MaxPayload = 850, UDPIdleTimeoutSec = 60\<rparr>,
      AllowEphemeralCert = False, Listen = '':4242'', PSK = ''AAAAAAAAAAAAAAAAAAAAAA=='', ALPN = [],
      CertFile = ''/c'', KeyFile = ''/k'', IdleTimeoutSec = 60,
      ACL = \<lparr>Allow = [], Deny = [], AllowPorts = [443], DenyPorts = []\<rparr>,
      Decoy = \<lparr>Mode = ''off'', Upstream = [], DecoyDir = [], SiteName = []\<rparr>, Allow0RTT = False,
      Compression = True, MetricsListen = [], MaxStreamRecvWindowMB = 0, MaxConnRecvWindowMB = 0\<rparr>"

lemma sample_key: "DecodePSK ''AAAAAAAAAAAAAAAAAAAAAA=='' = Inr [0, 0, 0, 0, 0, 0, 0, 0, 0, 0, 0, 0, 0, 0, 0, 0]"
proof -
  have "char_of (65 :: nat) = CHR ''A''"
    by code_simp
  then have "EncodeToString [0, 0, 0, 0, 0, 0, 0, 0, 0, 0, 0, 0, 0, 0, 0, 0] = ''AAAAAAAAAAAAAAAAAAAAAA==''"
    by (simp add: b64_char_def)
  then show ?thesis
    using DecodeString_EncodeToString [of "[0, 0, 0, 0, 0, 0, 0, 0, 0, 0, 0, 0, 0, 0, 0, 0]"] by (simp add: DecodePSK_def)
qed

lemma sample_ports: "Atoi ''4242'' = Inr 4242" "Atoi ''1080'' = Inr 1080"
  by (simp_all add: Atoi_def ParseUint_def is_digit_def digit_val_def)

lemma sample_hosts:
  "SplitHostPort '':4242'' = Inr ([], ''4242'')" "SplitHostPort ''h:4242'' = Inr (''h'', ''4242'')"
  "SplitHostPort ''127.0.0.1:1080'' = Inr (''127.0.0.1'', ''1080'')"
  by code_simp+

lemma sample_loopback: "\<exists>ip. ParseIP ''127.0.0.1'' = Some ip \<and> IsLoopback ip"
proof -
  have "case ParseIP ''127.0.0.1'' of None \<Rightarrow> False | Some ip \<Rightarrow> IsLoopback ip"
    by code_simp
  then show ?thesis
    by (simp split: option.splits)
qed

lemma sample_endpoint: "validateEndpoint '':4242'' False = Inr ()"
  by (simp add: validateEndpoint_def sample_hosts sample_ports)

lemma sample_server_valid: "server_valid now sample_server"
  by (simp add: server_valid_def sample_server_def check_previous_def validateOverlap_def sample_key sample_endpoint
      validateCommon_Inr bounded_Inr check_decoy_def ports_ok_def check_congestion_def server_limits_def check_udp_def)

lemma sample_server_checked: "check_server now path sample_server = Inr sample_server"
  by (rule check_server_again [OF sample_server_valid])
     (simp add: check_certificate_Inr sample_server_def absolute_def IsAbs_Cons)

definition empty_file :: os_File where
  "empty_file = \<lparr>regular = True, size = 0, content = [], read_error = None\<rparr>"

lemma load_empty: "load (\<lambda>_. (Inr c, Some EOF)) (Inr empty_file) = Inr c"
  by (simp add: load_def Read_def empty_file_def)

definition sample_client :: ClientConfig where
  "sample_client =
     \<lparr>cCongestionControl = [], NextPin = [], NextPinExpires = 0, cMaxActiveStreams = 0, cMaxCompressedStreams = 0,
      cHandshakeTimeoutSec = 0, cRequestTimeoutSec = 0, MaxPendingRequests = 0, MaxUDPSessions = 0, cMaxConnections = 0,
      ProxyIdleTimeoutSec = 0, HTTPResponseHeaderTimeoutSec = 0, MaxHeaderBytes = 0, AllowRemoteProxy = False,
      DisableSessionResumption = False, ServerAddress = ''h:4242'', cPSK = ''AAAAAAAAAAAAAAAAAAAAAA=='',
      Pin = EncodeToString (Sum256 []), cALPN = [], SOCKSListen = [], HTTPListen = [],
      cIdleTimeoutSec = 0, Enable0RTT = False, cCompression = True, cMetricsListen = [],
      cMaxStreamRecvWindowMB = 0, cMaxConnRecvWindowMB = 0\<rparr>"

lemma sample_pin: "check_pin (EncodeToString (Sum256 []))= Inr ()"
  by (simp add: check_pin_def DecodeString_EncodeToString)

lemma sample_client_parts:
  "validateEndpoint ''h:4242'' True = Inr ()"
  "check_listener False ''127.0.0.1:1080'' = Inr ()" "check_listener False [] = Inr ()"
  using sample_loopback
  by (auto simp: validateEndpoint_def check_listener_def sample_hosts sample_ports)

lemma sample_client_checked:
  "\<exists>c. check_client now sample_client = Inr c \<and> \<not> AllowRemoteProxy c \<and> SOCKSListen c = ''127.0.0.1:1080''"
  unfolding check_client_def
  by (simp add: sample_client_def sample_client_parts sample_pin sample_key check_next_pin_def validateOverlap_def
      validateCommon_def bounded_def check_listeners_def check_congestion_def check_client_limits_def)

section \<open>Properties\<close>

text \<open>A file is read only when it is a regular file, and then whole: what \<open>Read\<close> returns is the
  file's content, never cut at the limit and never longer than it.\<close>

theorem Read_whole_file:
  assumes "Read opened mx = Inr b"
  shows "\<exists>f. opened = Inr f \<and> regular f \<and> b = content f \<and> int (length b) \<le> mx"
  using Read_Inr [OF assms] .

theorem Read_whole_file_witness:
  "Read (Inr \<lparr>regular = True, size = 2, content = [1, 2], read_error = None\<rparr>) 2 = Inr [1, 2] \<and>
   (\<exists>f. Inr \<lparr>regular = True, size = 2, content = [1, 2], read_error = None\<rparr> = (Inr f :: go_error + os_File) \<and> content f = [1, 2])"
proof -
  have "Read (Inr \<lparr>regular = True, size = 2, content = [1, 2], read_error = None\<rparr>) 2 = Inr [1, 2]"
    by (simp add: Read_def)
  with Read_whole_file [OF this] show ?thesis by auto
qed



text \<open>C39: The checks are stable: for a configuration file with an absolute path, checking a configuration
  that has passed them changes nothing (defaults are filled in and paths resolved once).\<close>

theorem check_server_stable:
  assumes "IsAbs path" "check_server now path c = Inr d"
  shows "check_server now path d = Inr d"
proof (rule check_server_again)
  note v = check_server_valid [OF assms(2)]
  then show "server_valid now d" by simp
  from v have "CertFile d = [] \<longleftrightarrow> KeyFile d = []" "CertFile d = [] \<longrightarrow> AllowEphemeralCert d"
    unfolding server_valid_def by blast+
  with v absolute_again [OF assms(1)] show "check_certificate path d = Inr d"
    by (auto simp: check_certificate_Inr)
qed

theorem check_server_stable_witness:
  "\<exists>d. check_server 0 ''/etc/wanopt.yaml'' sample_server = Inr d \<and> check_server 0 ''/etc/wanopt.yaml'' d = Inr d"
  using check_server_stable [OF _ sample_server_checked, of "''/etc/wanopt.yaml''" 0] sample_server_checked
  by (auto simp: IsAbs_Cons)



end
