(* ===== verification/Server.thy ===== *)
theory Server
  imports Tunnel Admission Protocol_Frame
begin

text \<open>
  \<open>internal/server/server.go\<close> and \<open>credentials.go\<close>: accepting connections, the control stream with
  its authentication, admission of proxy streams, the answer to a stream request, and the
  revocation of keys. A connection and a stream handler are objects with what they have done
  so far; the handlers of the source are functions, and the steps of \<open>server_step\<close> are their
  parts between the points where another goroutine can act. What peers, destinations and the
  clock do are arguments. (The relay of an admitted stream is in \<open>Relays\<close>, the UDP relay of a
  connection in \<open>Udp_Nat\<close>.)
\<close>

section \<open>Options\<close>

record server_Options =
  sCongestionControl :: string
  sMaxActiveStreams :: int
  sMaxCompressedStreams :: int
  sPSK :: bytes
  sPreviousPSK :: bytes
  sPreviousPSKExpires :: instant
  sCert :: tls_Certificate
  sALPN :: string
  sIdleTimeout :: duration
  sHandshakeTimeout :: duration
  sRequestTimeout :: duration
  sMaxConnections :: int
  sMaxStreamsPerConnection :: int
  sCompression :: bool
  sMaxStreamRecvWindow :: u64
  sMaxConnRecvWindow :: u64

definition server_defaults :: "server_Options \<Rightarrow> server_Options" where
  "server_defaults o0 =
     (let o1 = o0\<lparr>sIdleTimeout := positive_or (sIdleTimeout o0) (60 * second),
            sHandshakeTimeout := positive_or (sHandshakeTimeout o0) (10 * second),
            sRequestTimeout := positive_or (sRequestTimeout o0) (15 * second),
            sMaxConnections := positive_or (sMaxConnections o0) 256,
            sMaxStreamsPerConnection := positive_or (sMaxStreamsPerConnection o0) 128,
            sMaxActiveStreams := positive_or (sMaxActiveStreams o0) 128\<rparr>
      in o1\<lparr>sMaxCompressedStreams := positive_or (sMaxCompressedStreams o1) (min 16 (sMaxActiveStreams o1)),
            sALPN := (if sALPN o1 = [] then DefaultALPN else sALPN o1)\<rparr>)"

definition quicConfig :: "(quic_Config \<Rightarrow> quic_Config) option \<Rightarrow> server_Options \<Rightarrow> quic_Config option" where
  "quicConfig bbr so =
     NewQUICConfig bbr
       \<lparr>CongestionControl = sCongestionControl so, EnableDatagrams = True, IdleTimeout = sIdleTimeout so,
        HandshakeTimeout = sHandshakeTimeout so, MaxStreamRecvWindow = sMaxStreamRecvWindow so,
        MaxConnRecvWindow = sMaxConnRecvWindow so, MaxIncomingStreams = sMaxStreamsPerConnection so + 1,
        Allow0RTT_option = False\<rparr>"

section \<open>Connections\<close>

text \<open>The control stream: not opened; opened; the snapshot of the credentials is loaded; the key's
  identity is stored; it has been accepted again; the connection is authenticated and the answer
  is being written; the heartbeat runs; it has failed.\<close>

datatype control = NoControl | Started | Loaded ServerCredentials | Stored | Accepted | Answering | Open | Failed

record connState =
  authed :: bool
  controlStarted :: bool
  control :: control
  authKey :: "bytes option"
  timerStopped :: bool
  streams :: nat
  registered :: bool
  ended :: bool
  closedWith :: "(nat \<times> string) option"

definition new_conn :: connState where
  "new_conn =
     \<lparr>authed = False, controlStarted = False, control = NoControl, authKey = None, timerStopped = False, streams = 0,
      registered = False, ended = False, closedWith = None\<rparr>"

definition CloseWithError :: "nat \<Rightarrow> string \<Rightarrow> connState \<Rightarrow> connState" where
  "CloseWithError code why cs = (if closedWith cs = None then cs\<lparr>closedWith := Some (code, why)\<rparr> else cs)"

text \<open>A stream that is being served: its connection and its leases.\<close>

record handler =
  hconn :: nat
  hlease :: nat
  hcodec :: "nat option"
  hstarted :: bool

record Server =
  sopt :: server_Options
  slots :: nat
  conns :: "connState list"
  handlers :: "handler list"
  active :: Budget
  codecs :: Budget
  credentials :: ServerCredentials
  scanning :: "nat list"
  closing :: "nat list"
  rejected :: "string list"
  panicked :: bool

definition New :: "server_Options \<Rightarrow> Server option" where
  "New o0 =
     (let so = server_defaults o0
      in case (Admission.New (sMaxActiveStreams so) True, Admission.New (sMaxCompressedStreams so) True) of
           (Some act, Some cod) \<Rightarrow>
             Some \<lparr>sopt = so, slots = 0, conns = [], handlers = [], active = act, codecs = cod,
               credentials = NewServerCredentials (sPSK so) (sPreviousPSK so) (sPreviousPSKExpires so) (sCert so),
               scanning = [], closing = [], rejected = [], panicked = False\<rparr>
         | _ \<Rightarrow> None)"

definition upd_conn :: "nat \<Rightarrow> (connState \<Rightarrow> connState) \<Rightarrow> Server \<Rightarrow> Server" where
  "upd_conn c f s = s\<lparr>conns := (conns s)[c := f (conns s ! c)]\<rparr>"

text \<open>The accept loop of \<open>Serve\<close>: a slot or a refusal.\<close>

definition serve_accept :: "Server \<Rightarrow> Server" where
  "serve_accept s =
     (if slots s < nat (sMaxConnections (sopt s))
      then s\<lparr>slots := slots s + 1, conns := conns s @ [new_conn]\<rparr>
      else s\<lparr>rejected := rejected s @ [''connection'']\<rparr>)"

definition closeConnections :: "Server \<Rightarrow> Server" where
  "closeConnections s =
     s\<lparr>conns := map (\<lambda>cs. if registered cs then CloseWithError 0 ''server shutting down'' cs else cs) (conns s)\<rparr>"

text \<open>\<open>handleConn\<close>: the registration, the timer, and the deferred end.\<close>

definition conn_begin :: "nat \<Rightarrow> Server \<Rightarrow> Server" where
  "conn_begin c s = upd_conn c (\<lambda>cs. cs\<lparr>registered := True\<rparr>) s"

definition auth_timeout :: "nat \<Rightarrow> Server \<Rightarrow> Server" where
  "auth_timeout c s =
     upd_conn c (\<lambda>cs. if authed cs then cs else CloseWithError 1 ''authentication timeout'' cs) s"

definition conn_end :: "nat \<Rightarrow> Server \<Rightarrow> Server" where
  "conn_end c s =
     upd_conn c (\<lambda>cs. (CloseWithError 0 [] cs)\<lparr>registered := False, ended := True, timerStopped := True\<rparr>) (s\<lparr>slots := slots s - 1\<rparr>)"

section \<open>Requests\<close>

record request =
  Method :: string
  rHost :: string
  rVersion :: string

datatype answer = DecoyPage | HttpError nat | ControlStream | ProxyStream handler

definition free_lease :: "nat \<Rightarrow> Server \<Rightarrow> Server" where
  "free_lease l s = (case Release (Some l) (active s) of Some b \<Rightarrow> s\<lparr>active := b\<rparr> | None \<Rightarrow> s)"

text \<open>\<open>serveHTTP\<close> up to the stream's handler, for the control stream and for a proxy stream:
  \<open>streamer\<close> is whether the response can become a stream. The deferred releases of the paths
  that return are included.\<close>

definition serve_control :: "nat \<Rightarrow> bool \<Rightarrow> Server \<Rightarrow> answer \<times> Server" where
  "serve_control c streamer s =
     (if controlStarted (conns s ! c) then (HttpError 409, s)
      else if \<not> streamer then (HttpError 505, upd_conn c (\<lambda>cs. cs\<lparr>controlStarted := True\<rparr>) s)
      else (ControlStream, upd_conn c (\<lambda>cs. cs\<lparr>controlStarted := True, control := Started\<rparr>) s))"

definition serve_proxy :: "instant \<Rightarrow> nat \<Rightarrow> bool \<Rightarrow> Server \<Rightarrow> answer \<times> Server" where
  "serve_proxy now c streamer s =
     (let cs = conns s ! c
      in if \<not> authed cs then (HttpError 403, s)
         else if (case authKey cs of None \<Rightarrow> True | Some ident \<Rightarrow> \<not> Accepts now ident (credentials s))
           then (HttpError 403, s)
         else (case TryAcquire (active s) of
             (None, b) \<Rightarrow> (HttpError 503, s\<lparr>active := b, rejected := rejected s @ [''stream'']\<rparr>)
           | (Some l, b) \<Rightarrow>
               if nat (sMaxStreamsPerConnection (sopt s)) \<le> streams cs
               then (HttpError 503, free_lease l (s\<lparr>active := b, rejected := rejected s @ [''stream'']\<rparr>))
               else if \<not> streamer then (HttpError 505, free_lease l (s\<lparr>active := b\<rparr>))
               else
                 (let h = \<lparr>hconn = c, hlease = l, hcodec = None, hstarted = False\<rparr>
                  in (ProxyStream h,
                      upd_conn c (\<lambda>cs. cs\<lparr>streams := streams cs + 1\<rparr>) (s\<lparr>active := b, handlers := h # handlers s\<rparr>)))))"

text \<open>\<open>conn\<close> is the connection that the request's context holds, if any.\<close>

definition serveHTTP :: "instant \<Rightarrow> request \<Rightarrow> nat option \<Rightarrow> bool \<Rightarrow> Server \<Rightarrow> answer \<times> Server" where
  "serveHTTP now r conn streamer s =
     (if Method r \<noteq> ''CONNECT'' \<or> (rHost r \<noteq> ControlAuthority \<and> rHost r \<noteq> ProxyAuthority) then (DecoyPage, s)
      else if rVersion r \<noteq> Itoa (unat Version) then (HttpError 400, s)
      else (case conn of
          None \<Rightarrow> (HttpError 503, s)
        | Some c \<Rightarrow> if rHost r = ControlAuthority then serve_control c streamer s else serve_proxy now c streamer s))"

section \<open>The control stream\<close>

text \<open>\<open>handleControl\<close> with the callback of \<open>Authenticate\<close>, cut where another goroutine can act. The
  received proof is an argument. Closing \<open>authed\<close> twice would panic.\<close>

definition control_load :: "nat \<Rightarrow> Server \<Rightarrow> Server" where
  "control_load c s = upd_conn c (\<lambda>cs. cs\<lparr>control := Loaded (credentials s)\<rparr>) s"

definition control_fail :: "nat \<Rightarrow> Server \<Rightarrow> Server" where
  "control_fail c s = upd_conn c (\<lambda>cs. (CloseWithError 1 ''authentication failed'' cs)\<lparr>control := Failed\<rparr>) s"

definition control_proof :: "instant \<Rightarrow> bytes \<Rightarrow> bytes \<Rightarrow> nat \<Rightarrow> ServerCredentials \<Rightarrow> Server \<Rightarrow> Server" where
  "control_proof now exporter got c snap s =
     (case select_key now exporter snap got of
        None \<Rightarrow> control_fail c s
      | Some key \<Rightarrow> upd_conn c (\<lambda>cs. cs\<lparr>control := Stored, authKey := Some (Sum256 key)\<rparr>) s)"

definition control_accept :: "instant \<Rightarrow> nat \<Rightarrow> Server \<Rightarrow> Server" where
  "control_accept now c s =
     (case authKey (conns s ! c) of
        None \<Rightarrow> control_fail c s
      | Some ident \<Rightarrow>
          if Accepts now ident (credentials s) then upd_conn c (\<lambda>cs. cs\<lparr>control := Accepted\<rparr>) s else control_fail c s)"

definition control_open :: "nat \<Rightarrow> Server \<Rightarrow> Server" where
  "control_open c s =
     (if authed (conns s ! c) then s\<lparr>panicked := True\<rparr>
      else upd_conn c (\<lambda>cs. cs\<lparr>control := Answering, authed := True, timerStopped := True\<rparr>) s)"

definition control_answered :: "nat \<Rightarrow> Server \<Rightarrow> Server" where
  "control_answered c s = upd_conn c (\<lambda>cs. cs\<lparr>control := Open\<rparr>) s"

text \<open>The heartbeat loop reads a byte at a time; anything but a ping ends the tunnel.\<close>

fun control_pings :: "bytes \<Rightarrow> bytes \<Rightarrow> bytes" where
  "control_pings [] out = out"
| "control_pings (b # bs) out = (if b \<noteq> CtrlPing then out else control_pings bs (out @ [CtrlPong]))"

definition control_end :: "nat \<Rightarrow> Server \<Rightarrow> Server" where
  "control_end c s = upd_conn c (CloseWithError 0 ''control stream closed'') s"

section \<open>Credentials\<close>

text \<open>\<open>revokeUnauthorized\<close> collects the registered connections whose key is not accepted and then closes
  them; \<open>scanning\<close> are the connections it has still to look at after a change of credentials, and
  \<open>closing\<close> those it has collected.\<close>

definition revoke :: "instant \<Rightarrow> nat \<Rightarrow> Server \<Rightarrow> Server" where
  "revoke now c s =
     (let cs = conns s ! c
      in case authKey cs of
           Some ident \<Rightarrow>
             if registered cs \<and> \<not> Accepts now ident (credentials s) then s\<lparr>closing := closing s @ [c]\<rparr> else s
         | None \<Rightarrow> s)"

definition close_revoked :: "nat \<Rightarrow> Server \<Rightarrow> Server" where
  "close_revoked c s = upd_conn c (CloseWithError 1 ''credentials revoked'') (s\<lparr>closing := remove1 c (closing s)\<rparr>)"

definition revokeUnauthorized :: "instant \<Rightarrow> Server \<Rightarrow> Server" where
  "revokeUnauthorized now s =
     (let s' = fold (revoke now) [0..<length (conns s)] s
      in fold close_revoked (drop (length (closing s)) (closing s')) s')"

text \<open>\<open>ReloadCredentials\<close>, cut after the update, and without interruption.\<close>

definition reload_begin ::
    "instant \<Rightarrow> bytes \<Rightarrow> bytes \<Rightarrow> instant \<Rightarrow> tls_Certificate \<Rightarrow> Server \<Rightarrow> go_error option \<times> Server" where
  "reload_begin now prim prev exp crt s =
     (case Update now prim prev exp crt (credentials s) of
        (Some err, _) \<Rightarrow> (Some err, s)
      | (None, c) \<Rightarrow> (None, s\<lparr>credentials := c, scanning := [0..<length (conns s)]\<rparr>))"

definition ReloadCredentials ::
    "instant \<Rightarrow> bytes \<Rightarrow> bytes \<Rightarrow> instant \<Rightarrow> tls_Certificate \<Rightarrow> Server \<Rightarrow> go_error option \<times> Server" where
  "ReloadCredentials now prim prev exp crt s =
     (case reload_begin now prim prev exp crt s of
        (Some err, s) \<Rightarrow> (Some err, s)
      | (None, s) \<Rightarrow> (None, (revokeUnauthorized now s)\<lparr>scanning := []\<rparr>))"

section \<open>Proxy streams\<close>

definition dialStatus :: "go_error \<Rightarrow> byte" where
  "dialStatus err =
     (if errors_Is err DeadlineExceeded \<or> as_net_error err = Some True then StatusHostUnreach else StatusConnRefused)"

text \<open>How \<open>handleProxy\<close> ends before the relay, or the relay it starts: whether it is compressed, the
  codec's lease, and the destination that was dialled.\<close>

datatype 'c proxy_end = Dropped | Relay bool "nat option" 'c

definition handleProxy ::
    "bool \<Rightarrow> reader \<Rightarrow> (Address \<Rightarrow> go_error + 'c) \<Rightarrow> go_error option \<Rightarrow> writer \<Rightarrow> Budget \<Rightarrow>
     'c proxy_end \<times> writer \<times> Budget" where
  "handleProxy compression r dial ctxErr w cod =
     (case ReadStreamRequest r of
        (Inl _, _) \<Rightarrow> (Dropped, w, cod)
      | (Inr req, _) \<Rightarrow>
          if Cmd req \<noteq> CmdTCPConnect then (Dropped, snd (WriteReply StatusGeneralErr 0 w), cod)
          else (case dial (Addr req) of
              Inl err \<Rightarrow>
                (let status = (if errors_Is err ErrDenied then StatusNotAllowed else dialStatus err)
                 in (Dropped, snd (WriteReply status 0 w), cod))
            | Inr remote \<Rightarrow>
                (let wanted = (compression \<and> Flags req AND FlagCompress \<noteq> 0)
                 in case (if wanted then TryAcquire cod else (None, cod)) of
                      (lease, cod) \<Rightarrow>
                        (case WriteReply StatusOK (if lease \<noteq> None then FlagCompress else 0) w of
                           (err, w) \<Rightarrow>
                             if err \<noteq> None \<or> ctxErr \<noteq> None
                             then (Dropped, w, (case Release lease cod of Some b \<Rightarrow> b | None \<Rightarrow> cod))
                             else (Relay (lease \<noteq> None) lease remote, w, cod)))))"

definition handler_run :: "handler \<Rightarrow> nat option \<Rightarrow> Budget \<Rightarrow> Server \<Rightarrow> Server" where
  "handler_run h lease cod s = s\<lparr>codecs := cod, handlers := h\<lparr>hcodec := lease, hstarted := True\<rparr> # remove1 h (handlers s)\<rparr>"

text \<open>The deferred releases when a handler returns, the latest first.\<close>

definition handler_end :: "handler \<Rightarrow> Server \<Rightarrow> Server" where
  "handler_end h s =
     free_lease (hlease h)
       (upd_conn (hconn h) (\<lambda>cs. cs\<lparr>streams := streams cs - 1\<rparr>)
         (s\<lparr>codecs := (case Release (hcodec h) (codecs s) of Some b \<Rightarrow> b | None \<Rightarrow> codecs s),
            handlers := remove1 h (handlers s)\<rparr>))"

section \<open>Interleavings\<close>

inductive server_step :: "Server \<Rightarrow> Server \<Rightarrow> bool" where
  accept: "server_step s (serve_accept s)"
| begin_conn: "c < length (conns s) \<Longrightarrow> \<not> registered (conns s ! c) \<Longrightarrow> \<not> ended (conns s ! c) \<Longrightarrow>
    server_step s (conn_begin c s)"
| timeout: "c < length (conns s) \<Longrightarrow> \<not> timerStopped (conns s ! c) \<Longrightarrow> server_step s (auth_timeout c s)"
| end_conn: "c < length (conns s) \<Longrightarrow> registered (conns s ! c) \<Longrightarrow> server_step s (conn_end c s)"
| request: "serveHTTP now r conn streamer s = (ans, s') \<Longrightarrow>
    (case conn of None \<Rightarrow> True | Some c \<Rightarrow> c < length (conns s) \<and> registered (conns s ! c)) \<Longrightarrow> server_step s s'"
| load: "c < length (conns s) \<Longrightarrow> control (conns s ! c) = Started \<Longrightarrow> server_step s (control_load c s)"
| control_proof: "c < length (conns s) \<Longrightarrow> control (conns s ! c) = Loaded snap \<Longrightarrow>
    server_step s (control_proof now exporter got c snap s)"
| control_lost: "c < length (conns s) \<Longrightarrow> control (conns s ! c) \<noteq> NoControl \<Longrightarrow> control (conns s ! c) \<noteq> Open \<Longrightarrow>
    control (conns s ! c) \<noteq> Failed \<Longrightarrow> server_step s (control_fail c s)"
| control_accept: "c < length (conns s) \<Longrightarrow> control (conns s ! c) = Stored \<Longrightarrow> server_step s (control_accept now c s)"
| control_open: "c < length (conns s) \<Longrightarrow> control (conns s ! c) = Accepted \<Longrightarrow> server_step s (control_open c s)"
| control_answered: "c < length (conns s) \<Longrightarrow> control (conns s ! c) = Answering \<Longrightarrow> server_step s (control_answered c s)"
| control_end: "c < length (conns s) \<Longrightarrow> control (conns s ! c) = Open \<Longrightarrow> server_step s (control_end c s)"
| proxy: "h \<in> set (handlers s) \<Longrightarrow> \<not> hstarted h \<Longrightarrow>
    handleProxy (sCompression (sopt s)) r dial ctxErr w (codecs s) = (Relay compressed lease (remote :: nat), w', cod) \<Longrightarrow>
    server_step s (handler_run h lease cod s)"
| proxy_dropped: "h \<in> set (handlers s) \<Longrightarrow> \<not> hstarted h \<Longrightarrow>
    handleProxy (sCompression (sopt s)) r dial ctxErr w (codecs s) = (Dropped :: nat proxy_end, w', cod) \<Longrightarrow>
    server_step s (handler_end h (s\<lparr>codecs := cod\<rparr>))"
| proxy_end: "h \<in> set (handlers s) \<Longrightarrow> server_step s (handler_end h s)"
| reload: "reload_begin now prim prev exp crt s = (err, s') \<Longrightarrow> server_step s s'"
| scan: "scanning s = c # cs \<Longrightarrow> server_step s (revoke now c (s\<lparr>scanning := cs\<rparr>))"
| ticker: "c < length (conns s) \<Longrightarrow> server_step s (revoke now c s)"
| close_revoked: "c \<in> set (closing s) \<Longrightarrow> server_step s (close_revoked c s)"
| shutdown: "server_step s (closeConnections s)"

end
