(* ===== verification/Server_Inv.thy ===== *)
theory Server_Inv
  imports Server
begin

text \<open>
  What holds of the server under every interleaving of \<open>server_step\<close>: the life of a connection, the
  leases and slots in use, and the keys of open connections after a change of credentials.
\<close>

section \<open>Connections keep their order\<close>

text \<open>What holds of every connection by itself.\<close>

definition conn_ok :: "connState \<Rightarrow> bool" where
  "conn_ok cs =
     ((authed cs \<longrightarrow> authKey cs \<noteq> None \<and> (control cs = Answering \<or> control cs = Open \<or> control cs = Failed)) \<and>
      (control cs = Answering \<or> control cs = Open \<longrightarrow> authed cs) \<and>
      (control cs = Stored \<or> control cs = Accepted \<longrightarrow> authKey cs \<noteq> None) \<and>
      (control cs \<noteq> NoControl \<longrightarrow> controlStarted cs \<and> (registered cs \<or> closedWith cs \<noteq> None)) \<and>
      (control cs = Failed \<longrightarrow> closedWith cs \<noteq> None) \<and> (ended cs \<longrightarrow> closedWith cs \<noteq> None \<and> \<not> registered cs))"

lemma conn_okD:
  assumes "conn_ok cs"
  shows "authed cs \<Longrightarrow> authKey cs \<noteq> None" "control cs = Accepted \<Longrightarrow> \<not> authed cs" "control cs = Started \<Longrightarrow> \<not> authed cs"
    "control cs = Stored \<Longrightarrow> \<not> authed cs" "control cs = Loaded c \<Longrightarrow> \<not> authed cs"
    "\<not> controlStarted cs \<Longrightarrow> control cs = NoControl"
  using assms by (auto simp: conn_ok_def)

lemma CloseWithError_simps [simp]:
  "authed (CloseWithError k w cs) = authed cs" "controlStarted (CloseWithError k w cs) = controlStarted cs"
  "control (CloseWithError k w cs) = control cs" "authKey (CloseWithError k w cs) = authKey cs"
  "registered (CloseWithError k w cs) = registered cs" "ended (CloseWithError k w cs) = ended cs"
  "streams (CloseWithError k w cs) = streams cs" "timerStopped (CloseWithError k w cs) = timerStopped cs"
  "closedWith (CloseWithError k w cs) \<noteq> None"
  by (simp_all add: CloseWithError_def)

lemma CloseWithError_update [simp]:
  "closedWith ((CloseWithError k w cs)\<lparr>control := p\<rparr>) = closedWith (CloseWithError k w cs)"
  by simp

lemma conn_ok_close [simp]: "conn_ok cs \<Longrightarrow> conn_ok (CloseWithError k w cs)"
  by (auto simp: conn_ok_def)

definition conns_ok :: "Server \<Rightarrow> bool" where
  "conns_ok s = (\<not> panicked s \<and> (\<forall>cs \<in> set (conns s). conn_ok cs))"

lemma conns_okD: "conns_ok s \<Longrightarrow> c < length (conns s) \<Longrightarrow> conn_ok (conns s ! c)"
  by (auto simp: conns_ok_def)

lemma conns_ok_upd:
  assumes "conns_ok s" "c < length (conns s) \<Longrightarrow> conn_ok (f (conns s ! c))"
  shows "conns_ok (upd_conn c f s)"
proof (cases "c < length (conns s)")
  case True
  have "set ((conns s)[c := f (conns s ! c)]) \<subseteq> insert (f (conns s ! c)) (set (conns s))"
    by (rule set_update_subset_insert)
  with assms True show ?thesis
    by (auto simp: conns_ok_def upd_conn_def)
qed (use assms in \<open>simp add: conns_ok_def upd_conn_def list_update_beyond\<close>)

lemma conns_ok_cong:
  "conns s' = conns s \<Longrightarrow> panicked s' = panicked s \<Longrightarrow> conns_ok s' = conns_ok s"
  by (simp add: conns_ok_def)

lemma upd_conn_simps [simp]:
  "sopt (upd_conn c f s) = sopt s" "slots (upd_conn c f s) = slots s" "handlers (upd_conn c f s) = handlers s"
  "active (upd_conn c f s) = active s" "codecs (upd_conn c f s) = codecs s" "credentials (upd_conn c f s) = credentials s"
  "scanning (upd_conn c f s) = scanning s" "panicked (upd_conn c f s) = panicked s"
  "length (conns (upd_conn c f s)) = length (conns s)"
  "conns (upd_conn c f s) = (conns s)[c := f (conns s ! c)]"
  by (simp_all add: upd_conn_def)

lemma free_lease_simps [simp]:
  "sopt (free_lease l s) = sopt s" "slots (free_lease l s) = slots s" "handlers (free_lease l s) = handlers s"
  "codecs (free_lease l s) = codecs s" "credentials (free_lease l s) = credentials s"
  "scanning (free_lease l s) = scanning s" "panicked (free_lease l s) = panicked s" "conns (free_lease l s) = conns s"
  by (simp_all add: free_lease_def split: option.splits)

lemma closing_simps [simp]: "closing (upd_conn c f s) = closing s" "closing (free_lease l s) = closing s"
  by (simp_all add: upd_conn_def free_lease_def split: option.splits)

lemma revoke_simps [simp]:
  "sopt (revoke now c s) = sopt s" "slots (revoke now c s) = slots s" "handlers (revoke now c s) = handlers s"
  "active (revoke now c s) = active s" "codecs (revoke now c s) = codecs s" "credentials (revoke now c s) = credentials s"
  "scanning (revoke now c s) = scanning s" "panicked (revoke now c s) = panicked s" "conns (revoke now c s) = conns s"
  by (simp_all add: revoke_def Let_def split: option.splits)

text \<open>What a request can do to the server.\<close>

lemma serve_proxy_cases:
  assumes "serve_proxy now c streamer s = (ans, s')"
  obtains (nothing) n where "s' = s" "ans = HttpError n"
  | (full) b n where "TryAcquire (active s) = (None, b)" "s' = s\<lparr>active := b, rejected := rejected s @ [''stream'']\<rparr>" "ans = HttpError n"
  | (refused) l b rej n where "TryAcquire (active s) = (Some l, b)" "s' = free_lease l (s\<lparr>active := b, rejected := rej\<rparr>)" "ans = HttpError n"
  | (stream) ident l b h where "authed (conns s ! c)" "authKey (conns s ! c) = Some ident" "Accepts now ident (credentials s)"
      "TryAcquire (active s) = (Some l, b)" "streams (conns s ! c) < nat (sMaxStreamsPerConnection (sopt s))"
      "h = \<lparr>hconn = c, hlease = l, hcodec = None, hstarted = False\<rparr>" "ans = ProxyStream h"
      "s' = upd_conn c (\<lambda>cs. cs\<lparr>streams := streams cs + 1\<rparr>) (s\<lparr>active := b, handlers := h # handlers s\<rparr>)"
proof (cases "\<exists>ident. authed (conns s ! c) \<and> authKey (conns s ! c) = Some ident \<and> Accepts now ident (credentials s)")
  case False
  with assms have "(ans, s') = (HttpError 403, s)"
    by (auto simp: serve_proxy_def Let_def split: if_splits option.splits)
  then have "s' = s" "ans = HttpError 403" by simp_all
  then show thesis by (rule nothing)
next
  case True
  then obtain ident where id: "authed (conns s ! c)" "authKey (conns s ! c) = Some ident" "Accepts now ident (credentials s)"
    by blast
  obtain x b where t: "TryAcquire (active s) = (x, b)" by (rule prod.exhaust)
  show thesis
  proof (cases x)
    case None
    with t have "TryAcquire (active s) = (None, b)" by simp
    moreover from assms id this have "s' = s\<lparr>active := b, rejected := rejected s @ [''stream'']\<rparr>" "ans = HttpError 503"
      by (simp_all add: serve_proxy_def)
    ultimately show thesis by (rule full)
  next
    case (Some l)
    have run: "serve_proxy now c streamer s =
        (if nat (sMaxStreamsPerConnection (sopt s)) \<le> streams (conns s ! c)
         then (HttpError 503, free_lease l (s\<lparr>active := b, rejected := rejected s @ [''stream'']\<rparr>))
         else if \<not> streamer then (HttpError 505, free_lease l (s\<lparr>active := b\<rparr>))
         else (ProxyStream \<lparr>hconn = c, hlease = l, hcodec = None, hstarted = False\<rparr>,
               upd_conn c (\<lambda>cs. cs\<lparr>streams := streams cs + 1\<rparr>)
                 (s\<lparr>active := b, handlers := \<lparr>hconn = c, hlease = l, hcodec = None, hstarted = False\<rparr> # handlers s\<rparr>)))"
      by (simp add: serve_proxy_def id t Some Let_def)
    from t Some have t': "TryAcquire (active s) = (Some l, b)" by simp
    consider "nat (sMaxStreamsPerConnection (sopt s)) \<le> streams (conns s ! c)"
      | "streams (conns s ! c) < nat (sMaxStreamsPerConnection (sopt s))" "\<not> streamer"
      | "streams (conns s ! c) < nat (sMaxStreamsPerConnection (sopt s))" "streamer"
      by linarith
    then show thesis
    proof cases
      case 1
      with run assms have "s' = free_lease l (s\<lparr>active := b, rejected := rejected s @ [''stream'']\<rparr>)" "ans = HttpError 503" by simp_all
      with t' show thesis by (rule refused)
    next
      case 2
      with run assms have "s' = free_lease l (s\<lparr>active := b, rejected := rejected s\<rparr>)" "ans = HttpError 505" by simp_all
      with t' show thesis by (rule refused)
    next
      case 3
      with run assms show thesis
        by (intro stream [OF id t' 3(1) refl]) simp_all
    qed
  qed
qed

lemma serveHTTP_cases:
  assumes "serveHTTP now r conn streamer s = (ans, s')"
  obtains (nothing) "s' = s" "\<And>h. ans \<noteq> ProxyStream h"
  | (control) c where "conn = Some c" "\<not> controlStarted (conns s ! c)" "ans = ControlStream"
      "s' = upd_conn c (\<lambda>cs. cs\<lparr>controlStarted := True, control := Started\<rparr>) s"
  | (no_control) c where "conn = Some c" "\<not> controlStarted (conns s ! c)" "\<And>h. ans \<noteq> ProxyStream h"
      "s' = upd_conn c (\<lambda>cs. cs\<lparr>controlStarted := True\<rparr>) s"
  | (proxy) c where "conn = Some c" "Method r = ''CONNECT''" "rHost r = ProxyAuthority" "serve_proxy now c streamer s = (ans, s')"
proof (cases "Method r = ''CONNECT'' \<and> (rHost r = ControlAuthority \<or> rHost r = ProxyAuthority) \<and> rVersion r = Itoa (unat Version) \<and>
    conn \<noteq> None")
  case False
  with assms have "s' = s" "\<And>h. ans \<noteq> ProxyStream h"
    by (auto simp: serveHTTP_def split: if_splits option.splits)
  then show thesis by (rule nothing)
next
  case True
  then obtain c where c: "conn = Some c" by blast
  show thesis
  proof (cases "rHost r = ControlAuthority")
    case False
    with True assms c show thesis
      by (intro proxy [OF c]) (simp_all add: serveHTTP_def)
  next
    case host: True
    with True assms c have run: "serve_control c streamer s = (ans, s')"
      by (simp add: serveHTTP_def)
    show thesis
    proof (cases "controlStarted (conns s ! c)")
      case True
      with run have "s' = s" "\<And>h. ans \<noteq> ProxyStream h" by (auto simp: serve_control_def)
      then show thesis by (rule nothing)
    next
      case fresh: False
      show thesis
      proof (cases streamer)
        case True
        with run fresh show thesis by (intro control [OF c]) (simp_all add: serve_control_def)
      next
        case False
        with run fresh have "\<And>h. ans \<noteq> ProxyStream h" "s' = upd_conn c (\<lambda>cs. cs\<lparr>controlStarted := True\<rparr>) s"
          by (auto simp: serve_control_def)
        with c fresh show thesis by (rule no_control)
      qed
    qed
  qed
qed

lemma conns_ok_serve_proxy:
  assumes "serve_proxy now c streamer s = (ans, s')" "conns_ok s" "c < length (conns s)"
  shows "conns_ok s'"
  using assms(1)
proof (cases rule: serve_proxy_cases)
  case (stream ident l b h)
  have "conns_ok (s\<lparr>active := b, handlers := h # handlers s\<rparr>)" using assms(2) by (simp add: conns_ok_def)
  from conns_ok_upd [OF this, of c "\<lambda>cs. cs\<lparr>streams := streams cs + 1\<rparr>"] conns_okD [OF assms(2,3)] stream show ?thesis
    by (simp add: conn_ok_def)
qed (use assms(2) in \<open>simp_all add: conns_ok_def\<close>)

lemma conns_ok_serveHTTP:
  assumes "serveHTTP now r conn streamer s = (ans, s')" "conns_ok s"
    "case conn of None \<Rightarrow> True | Some c \<Rightarrow> c < length (conns s) \<and> registered (conns s ! c)"
  shows "conns_ok s'"
  using assms(1)
proof (cases rule: serveHTTP_cases)
  case (control c)
  with assms(3) conns_okD [OF assms(2), of c] conn_okD(6) [OF conns_okD [OF assms(2)]] show ?thesis
    by (auto intro!: conns_ok_upd assms(2)) (simp add: conn_ok_def)
next
  case (no_control c)
  with assms(3) conns_okD [OF assms(2), of c] show ?thesis
    by (auto intro!: conns_ok_upd assms(2)) (auto simp: conn_ok_def)
next
  case (proxy c)
  with assms(2,3) conns_ok_serve_proxy show ?thesis by simp
qed (use assms(2) in simp)

lemma conns_ok_control:
  assumes "conns_ok s" "c < length (conns s)"
  shows "control (conns s ! c) = Started \<Longrightarrow> conns_ok (control_load c s)"
    "control (conns s ! c) = Loaded snap \<Longrightarrow> conns_ok (control_proof now exporter got c snap s)"
    "control (conns s ! c) = Stored \<Longrightarrow> conns_ok (control_accept now c s)"
    "control (conns s ! c) = Accepted \<Longrightarrow> conns_ok (control_open c s)"
    "control (conns s ! c) = Answering \<Longrightarrow> conns_ok (control_answered c s)"
    "conns_ok (control_end c s)"
    "control (conns s ! c) \<noteq> NoControl \<Longrightarrow> conns_ok (control_fail c s)"
proof -
  note ok = conns_okD [OF assms]
  show fail: "conns_ok (control_fail c s)" if "control (conns s ! c) \<noteq> NoControl"
    unfolding control_fail_def using ok that
    by (intro conns_ok_upd assms(1)) (auto simp: conn_ok_def)
  show "conns_ok (control_load c s)" if "control (conns s ! c) = Started"
    unfolding control_load_def using ok that
    by (intro conns_ok_upd assms(1)) (auto simp: conn_ok_def)
  show "conns_ok (control_proof now exporter got c snap s)" if "control (conns s ! c) = Loaded snap"
    unfolding control_proof_def using ok that fail
    by (auto split: option.splits intro!: conns_ok_upd assms(1)) (auto simp: conn_ok_def)
  show "conns_ok (control_accept now c s)" if "control (conns s ! c) = Stored"
    unfolding control_accept_def using ok that fail
    by (auto split: option.splits intro!: conns_ok_upd assms(1)) (auto simp: conn_ok_def)
  show "conns_ok (control_open c s)" if "control (conns s ! c) = Accepted"
    unfolding control_open_def using ok that conn_okD(2) [OF ok]
    by (auto intro!: conns_ok_upd assms(1)) (auto simp: conn_ok_def)
  show "conns_ok (control_answered c s)" if "control (conns s ! c) = Answering"
    unfolding control_answered_def using ok that
    by (intro conns_ok_upd assms(1)) (auto simp: conn_ok_def)
  show "conns_ok (control_end c s)"
    unfolding control_end_def using ok by (intro conns_ok_upd assms(1)) simp
qed

lemma conns_ok_conn:
  assumes "conns_ok s"
  shows "conns_ok (serve_accept s)" "conns_ok (closeConnections s)" "conns_ok (revoke now c s)"
    "c < length (conns s) \<Longrightarrow> \<not> ended (conns s ! c) \<Longrightarrow> conns_ok (conn_begin c s)"
    "conns_ok (auth_timeout c s)" "conns_ok (conn_end c s)"
    "conns_ok (handler_end h s)"
proof -
  note ok = conns_okD [OF assms]
  have cong: "conns_ok (s\<lparr>slots := n\<rparr>)" "conns_ok (s\<lparr>codecs := b, handlers := hs\<rparr>)" for n b hs
    using assms by (simp_all add: conns_ok_def)
  have "conn_ok new_conn"
    by (simp add: conn_ok_def new_conn_def)
  then show "conns_ok (serve_accept s)"
    using assms by (simp add: serve_accept_def conns_ok_def)
  show "conns_ok (closeConnections s)"
    using assms by (auto simp: closeConnections_def conns_ok_def intro!: conn_ok_close)
  show "conns_ok (revoke now c s)"
    using assms by (simp add: conns_ok_def)
  show "conns_ok (conn_begin c s)" if "c < length (conns s)" "\<not> ended (conns s ! c)"
    unfolding conn_begin_def using ok [of c] that by (intro conns_ok_upd assms) (auto simp: conn_ok_def)
  show "conns_ok (auth_timeout c s)"
    unfolding auth_timeout_def using ok [of c] by (intro conns_ok_upd assms) simp
  show "conns_ok (conn_end c s)"
    unfolding conn_end_def using ok [of c] by (intro conns_ok_upd cong) (auto simp: conn_ok_def)
  have "conns_ok (upd_conn (hconn h) (\<lambda>cs. cs\<lparr>streams := streams cs - 1\<rparr>) (s\<lparr>codecs := b, handlers := hs\<rparr>))" for b hs
    using ok [of "hconn h"] by (intro conns_ok_upd cong) (auto simp: conn_ok_def)
  then show "conns_ok (handler_end h s)"
    unfolding handler_end_def conns_ok_def by simp
qed

lemma conns_ok_step:
  assumes "server_step s s'" "conns_ok s"
  shows "conns_ok s'"
  using assms(1)
proof cases
  case (request now r conn streamer ans)
  with assms(2) show ?thesis by (auto intro: conns_ok_serveHTTP)
next
  case (proxy h r dial ctxErr w compressed lease remote w' cod)
  then show ?thesis using assms(2) by (simp add: handler_run_def conns_ok_def)
next
  case (reload now prim prev exp crt err)
  then show ?thesis using assms(2)
    by (auto simp: reload_begin_def conns_ok_def split: prod.splits option.splits)
next
  case (proxy_dropped h r dial ctxErr w w' cod)
  have "conns_ok (s\<lparr>codecs := cod\<rparr>)" using assms(2) by (simp add: conns_ok_def)
  with proxy_dropped show ?thesis by (simp add: conns_ok_conn)
next
  case (scan c cs now)
  have "conns_ok (s\<lparr>scanning := cs\<rparr>)" using assms(2) by (simp add: conns_ok_def)
  with scan show ?thesis by (simp add: conns_ok_conn)
next
  case (close_revoked c)
  have "conns_ok (s\<lparr>closing := remove1 c (closing s)\<rparr>)" using assms(2) by (simp add: conns_ok_def)
  with close_revoked show ?thesis
    unfolding close_revoked_def by (auto intro!: conns_ok_upd conn_ok_close dest: conns_okD)
qed (use assms(2) in \<open>simp_all add: conns_ok_conn conns_ok_control\<close>)

section \<open>Load\<close>

text \<open>The leases that are out are those of the handlers; a connection counts its handlers.\<close>

definition codec_leases :: "handler list \<Rightarrow> nat list" where
  "codec_leases hs = List.map_filter hcodec hs"

definition load_ok :: "Server \<Rightarrow> bool" where
  "load_ok s =
     (lease_pool (active s) (map hlease (handlers s)) \<and> capacity (active s) = nat (sMaxActiveStreams (sopt s)) \<and>
      lease_pool (codecs s) (codec_leases (handlers s)) \<and> capacity (codecs s) = nat (sMaxCompressedStreams (sopt s)) \<and>
      (\<forall>h \<in> set (handlers s). \<not> hstarted h \<longrightarrow> hcodec h = None))"

definition streams_ok :: "Server \<Rightarrow> bool" where
  "streams_ok s =
     ((\<forall>h \<in> set (handlers s). hconn h < length (conns s)) \<and>
      (\<forall>c < length (conns s). streams (conns s ! c) = length (filter (\<lambda>h. hconn h = c) (handlers s)) \<and>
         streams (conns s ! c) \<le> nat (sMaxStreamsPerConnection (sopt s))))"

definition slots_ok :: "Server \<Rightarrow> bool" where
  "slots_ok s =
     (slots s = length (filter (\<lambda>cs. \<not> ended cs) (conns s)) \<and> slots s \<le> nat (sMaxConnections (sopt s)))"

lemma codec_leases_simps [simp]:
  "codec_leases [] = []"
  "codec_leases (h # hs) = (case hcodec h of None \<Rightarrow> codec_leases hs | Some l \<Rightarrow> l # codec_leases hs)"
  by (auto simp: codec_leases_def List.map_filter_def split: option.splits)

lemma set_codec_leases: "set (codec_leases hs) = {l. \<exists>h \<in> set hs. hcodec h = Some l}"
  by (induction hs) (auto split: option.splits)

lemma map_remove1_distinct:
  "distinct (map f xs) \<Longrightarrow> x \<in> set xs \<Longrightarrow> map f (remove1 x xs) = remove1 (f x) (map f xs)"
  by (induction xs) (auto simp: image_iff)

lemma codec_leases_remove1:
  "distinct (codec_leases hs) \<Longrightarrow> h \<in> set hs \<Longrightarrow>
   codec_leases (remove1 h hs) = (case hcodec h of None \<Rightarrow> codec_leases hs | Some l \<Rightarrow> remove1 l (codec_leases hs))"
proof (induction hs)
  case (Cons g hs)
  show ?case
  proof (cases "g = h")
    case False
    with Cons have h: "h \<in> set hs" by simp
    then have "hcodec h = Some l \<Longrightarrow> l \<in> set (codec_leases hs)" for l
      by (auto simp: set_codec_leases)
    with Cons h False show ?thesis
      by (auto split: option.splits)
  qed (auto split: option.splits)
qed simp

lemma Release_codec:
  assumes "lease_pool b (codec_leases hs)" "h \<in> set hs"
  shows "lease_pool (case Release (hcodec h) b of Some b \<Rightarrow> b | None \<Rightarrow> b) (codec_leases (remove1 h hs)) \<and>
    capacity (case Release (hcodec h) b of Some b \<Rightarrow> b | None \<Rightarrow> b) = capacity b"
proof -
  have d: "distinct (codec_leases hs)"
    using lease.pool_order [OF assms(1)] by simp
  show ?thesis
  proof (cases "hcodec h")
    case None
    with assms codec_leases_remove1 [OF d assms(2)] show ?thesis
      by (simp add: Release_def)
  next
    case (Some l)
    with assms(2) have "l \<in> set (codec_leases hs)" by (auto simp: set_codec_leases)
    from lease.release_out [OF assms(1) this] Some codec_leases_remove1 [OF d assms(2)] show ?thesis
      by auto
  qed
qed

lemma free_lease_pool:
  assumes "lease_pool (active s) (l # ls)"
  shows "lease_pool (active (free_lease l s)) ls \<and> capacity (active (free_lease l s)) = capacity (active s)"
  using lease.release_out [OF assms, of l] by (auto simp: free_lease_def)

lemma handleProxy_codecs:
  assumes "handleProxy compression r dial ctxErr w cod = (res, w', cod')" "lease_pool cod ls"
  shows "case res of
      Dropped \<Rightarrow> lease_pool cod' ls \<and> capacity cod' = capacity cod
    | Relay compressed lease remote \<Rightarrow>
        compressed = (lease \<noteq> None) \<and> capacity cod' = capacity cod \<and>
        lease_pool cod' (case lease of None \<Rightarrow> ls | Some l \<Rightarrow> l # ls)"
proof -
  obtain x r' where rr: "ReadStreamRequest r = (x, r')"
    by (rule prod.exhaust)
  show ?thesis
  proof (cases "\<exists>req remote. x = Inr req \<and> Cmd req = CmdTCPConnect \<and> dial (Addr req) = Inr remote")
    case False
    have "res = Dropped \<and> cod' = cod"
    proof (cases x)
      case (Inl e)
      with assms(1) rr show ?thesis by (simp add: handleProxy_def)
    next
      case (Inr req)
      with False assms(1) rr show ?thesis
        by (cases "Cmd req = CmdTCPConnect"; cases "dial (Addr req)") (simp_all add: handleProxy_def Let_def)
    qed
    with assms(2) show ?thesis by simp
  next
    case True
    then obtain req remote where x: "x = Inr req" "Cmd req = CmdTCPConnect" "dial (Addr req) = Inr remote"
      by blast
    obtain lease cod1 where a:
      "(if compression \<and> Flags req AND FlagCompress \<noteq> 0 then TryAcquire cod else (None, cod)) = (lease, cod1)"
      by (rule prod.exhaust)
    obtain err w1 where wr: "WriteReply StatusOK (if lease \<noteq> None then FlagCompress else 0) w = (err, w1)"
      by (rule prod.exhaust)
    have pool: "lease_pool cod1 (case lease of None \<Rightarrow> ls | Some l \<Rightarrow> l # ls) \<and> capacity cod1 = capacity cod"
    proof (cases lease)
      case None
      with a have "cod1 = cod \<or> TryAcquire cod = (None, cod1)" by (simp split: if_splits)
      with lease.acquire_None [OF assms(2), of cod1] assms(2) None show ?thesis by auto
    next
      case (Some l)
      with a have "TryAcquire cod = (Some l, cod1)" by (simp split: if_splits)
      from lease.acquire_Some [OF assms(2) this] Some show ?thesis by simp
    qed
    have rel: "lease_pool (case Release lease cod1 of Some b \<Rightarrow> b | None \<Rightarrow> cod1) ls \<and>
        capacity (case Release lease cod1 of Some b \<Rightarrow> b | None \<Rightarrow> cod1) = capacity cod"
      using pool lease.release_out [of cod1 "the lease # ls" "the lease"] by (cases lease) (auto simp: Release_def)
    have "handleProxy compression r dial ctxErr w cod = (if err \<noteq> None \<or> ctxErr \<noteq> None
        then (Dropped, w1, (case Release lease cod1 of Some b \<Rightarrow> b | None \<Rightarrow> cod1))
        else (Relay (lease \<noteq> None) lease remote, w1, cod1))"
      unfolding handleProxy_def rr x(1) prod.case sum.case Let_def x(2,3) a wr by simp
    with assms(1) pool rel show ?thesis
      by (cases "err \<noteq> None \<or> ctxErr \<noteq> None") auto
  qed
qed

lemma load_ok_cong:
  "sopt s' = sopt s \<Longrightarrow> active s' = active s \<Longrightarrow> codecs s' = codecs s \<Longrightarrow> handlers s' = handlers s \<Longrightarrow> load_ok s' = load_ok s"
  by (simp add: load_ok_def)

lemma load_okD:
  assumes "load_ok s"
  shows "lease_pool (active s) (map hlease (handlers s))" "lease_pool (codecs s) (codec_leases (handlers s))"
    "h \<in> set (handlers s) \<Longrightarrow> \<not> hstarted h \<Longrightarrow> hcodec h = None"
    "capacity (active s) = nat (sMaxActiveStreams (sopt s))" "capacity (codecs s) = nat (sMaxCompressedStreams (sopt s))"
  using assms by (auto simp: load_ok_def)

lemma pool_front:
  assumes "lease_pool b (map hlease hs)" "h \<in> set hs"
  shows "lease_pool b (hlease h # map hlease (remove1 h hs))"
proof -
  have d: "distinct (map hlease hs)"
    using lease.pool_order [OF assms(1)] by simp
  have "map hlease (remove1 h hs) = remove1 (hlease h) (map hlease hs)"
    by (rule map_remove1_distinct [OF d assms(2)])
  moreover have "distinct (hlease h # remove1 (hlease h) (map hlease hs))" "set (hlease h # remove1 (hlease h) (map hlease hs)) = set (map hlease hs)"
    using d assms(2) by (auto simp: set_remove1_eq)
  ultimately show ?thesis
    using lease.pool_order [OF assms(1)] by metis
qed

lemma load_ok_handler_end:
  assumes "load_ok s" "h \<in> set (handlers s)"
  shows "load_ok (handler_end h s)"
proof -
  note l = load_okD [OF assms(1)]
  let ?s = "upd_conn (hconn h) (\<lambda>cs. cs\<lparr>streams := streams cs - 1\<rparr>)
      (s\<lparr>codecs := (case Release (hcodec h) (codecs s) of Some b \<Rightarrow> b | None \<Rightarrow> codecs s), handlers := remove1 h (handlers s)\<rparr>)"
  have "lease_pool (active ?s) (hlease h # map hlease (remove1 h (handlers s)))"
    using pool_front [OF l(1) assms(2)] by simp
  from free_lease_pool [OF this] Release_codec [OF l(2) assms(2)] l(3-5) show ?thesis
    unfolding handler_end_def load_ok_def by (auto dest: notin_set_remove1)
qed

lemma load_ok_serve_proxy:
  assumes "serve_proxy now c streamer s = (ans, s')" "load_ok s"
  shows "load_ok s'"
  using assms(1)
proof (cases rule: serve_proxy_cases)
  case (full b n)
  with lease.acquire_None [OF load_okD(1) [OF assms(2)] full(1)] assms(2) show ?thesis
    by (simp add: load_ok_def)
next
  case (refused l b rej n)
  from lease.acquire_Some [OF load_okD(1) [OF assms(2)] refused(1)]
  have "lease_pool (active (s\<lparr>active := b, rejected := rej\<rparr>)) (l # map hlease (handlers s))" "capacity b = capacity (active s)"
    by simp_all
  from free_lease_pool [OF this(1)] this(2) refused assms(2) show ?thesis
    by (simp add: load_ok_def)
next
  case (stream ident l b h)
  from lease.acquire_Some [OF load_okD(1) [OF assms(2)] stream(4)] stream assms(2) show ?thesis
    by (simp add: load_ok_def)
qed (use assms(2) in simp)

lemma load_ok_run:
  assumes "load_ok s" "h \<in> set (handlers s)" "\<not> hstarted h"
    "lease_pool cod (case l of None \<Rightarrow> codec_leases (handlers s) | Some l \<Rightarrow> l # codec_leases (handlers s))"
    "capacity cod = capacity (codecs s)"
  shows "load_ok (handler_run h l cod s)"
proof -
  note l = load_okD [OF assms(1)]
  have "codec_leases (remove1 h (handlers s)) = codec_leases (handlers s)"
    using codec_leases_remove1 [of "handlers s" h] lease.pool_order [OF l(2)] l(3) [OF assms(2,3)] assms(2) by simp
  with assms(4,5) pool_front [OF l(1) assms(2)] l(3-5) show ?thesis
    by (auto simp: handler_run_def load_ok_def split: option.splits dest: notin_set_remove1)
qed

lemma load_ok_step:
  assumes "server_step s s'" "load_ok s"
  shows "load_ok s'"
  using assms(1)
proof cases
  case (request now r conn streamer ans)
  from request(1) show ?thesis
  proof (cases rule: serveHTTP_cases)
    case (proxy c)
    with assms(2) load_ok_serve_proxy show ?thesis by blast
  qed (use assms(2) in \<open>simp_all add: load_ok_def\<close>)
next
  case (proxy h r dial ctxErr w compressed l remote w' cod)
  from handleProxy_codecs [OF proxy(4) load_okD(2) [OF assms(2)]] load_ok_run [OF assms(2) proxy(2,3), of cod l] proxy(1) show ?thesis
    by simp
next
  case (proxy_dropped h r dial ctxErr w w' cod)
  from handleProxy_codecs [OF proxy_dropped(4) load_okD(2) [OF assms(2)]] assms(2) have "load_ok (s\<lparr>codecs := cod\<rparr>)"
    by (simp add: load_ok_def)
  with load_ok_handler_end [of "s\<lparr>codecs := cod\<rparr>" h] proxy_dropped(1,2) show ?thesis
    by simp
next
  case (proxy_end h)
  with assms(2) load_ok_handler_end show ?thesis by blast
next
  case (reload now prim prev exp crt err)
  with assms(2) show ?thesis
    by (auto simp: reload_begin_def load_ok_def split: prod.splits option.splits)
qed (use assms(2) in
  \<open>simp_all add: load_ok_def serve_accept_def conn_begin_def auth_timeout_def conn_end_def control_load_def control_proof_def
     control_fail_def control_accept_def control_open_def control_answered_def control_end_def close_revoked_def closeConnections_def
     Let_def split: option.splits\<close>)

section \<open>Slots\<close>

lemma streams_okD:
  assumes "streams_ok s"
  shows "h \<in> set (handlers s) \<Longrightarrow> hconn h < length (conns s)"
    "c < length (conns s) \<Longrightarrow> streams (conns s ! c) = length (filter (\<lambda>h. hconn h = c) (handlers s))"
    "c < length (conns s) \<Longrightarrow> streams (conns s ! c) \<le> nat (sMaxStreamsPerConnection (sopt s))"
  using assms by (auto simp: streams_ok_def)

lemma nth_update_within: "j < length xs \<Longrightarrow> xs[i := x] ! j = (if i = j then x else xs ! j)"
  by (cases "i = j") simp_all

lemma streams_ok_frame:
  assumes "streams_ok s" "sopt s' = sopt s" "handlers s' = handlers s" "map streams (conns s') = map streams (conns s)"
  shows "streams_ok s'"
proof -
  from assms(4) have len: "length (conns s') = length (conns s)"
    by (metis length_map)
  with assms(4) have "streams (conns s' ! c) = streams (conns s ! c)" if "c < length (conns s)" for c
    using that by (metis nth_map)
  with assms(1-3) len show ?thesis
    unfolding streams_ok_def by auto
qed

lemma map_upd:
  assumes "\<And>cs. g (f cs) = g cs"
  shows "map g (xs[c := f (xs ! c)]) = map g xs"
  by (rule nth_equalityI) (simp_all add: nth_update_within assms)

lemma streams_ok_upd:
  assumes "streams_ok s" "\<And>cs. streams (f cs) = streams cs"
  shows "streams_ok (upd_conn c f s)"
  by (rule streams_ok_frame [OF assms(1)]) (simp_all add: map_upd assms(2))

lemma filter_remove1_length:
  assumes "h \<in> set hs"
  shows "length (filter P (remove1 h hs)) = length (filter P hs) - (if P h then 1 else 0)"
  using assms by (simp add: filter_remove1 length_remove1)

lemma streams_ok_handler_end:
  assumes "streams_ok s" "h \<in> set (handlers s)"
  shows "streams_ok (handler_end h s)"
  using streams_okD [OF assms(1)] assms(2)
  by (auto simp: streams_ok_def handler_end_def nth_update_within filter_remove1_length intro: diff_le_self [THEN le_trans]
    dest: notin_set_remove1)

lemma streams_ok_serve_proxy:
  assumes "serve_proxy now c streamer s = (ans, s')" "streams_ok s" "c < length (conns s)"
  shows "streams_ok s'"
  using assms(1)
proof (cases rule: serve_proxy_cases)
  case (stream ident l b h)
  with streams_okD [OF assms(2)] assms(3) show ?thesis
    by (auto simp: streams_ok_def nth_update_within)
qed (auto intro: streams_ok_frame [OF assms(2)])

lemma streams_ok_run:
  assumes "streams_ok s" "h \<in> set (handlers s)"
  shows "streams_ok (handler_run h l cod s)"
proof -
  have "length (filter (\<lambda>h. hconn h = c) (handlers (handler_run h l cod s))) = length (filter (\<lambda>h. hconn h = c) (handlers s))" for c
  proof (cases "hconn h = c")
    case True
    then have "filter (\<lambda>h. hconn h = c) (handlers s) \<noteq> []"
      using assms(2) by (auto simp: filter_empty_conv)
    with True assms(2) show ?thesis by (simp add: handler_run_def filter_remove1_length)
  qed (use assms(2) in \<open>simp add: handler_run_def filter_remove1_length\<close>)
  with assms show ?thesis
    by (auto simp: streams_ok_def handler_run_def dest: notin_set_remove1)
qed

lemma streams_ok_map:
  assumes "streams_ok s"
  shows "streams_ok (closeConnections s)"
  by (rule streams_ok_frame [OF assms]) (simp_all add: closeConnections_def)

lemma streams_ok_accept:
  assumes "streams_ok s"
  shows "streams_ok (serve_accept s)"
proof (cases "slots s < nat (sMaxConnections (sopt s))")
  case True
  let ?n = "length (conns s)"
  have "filter (\<lambda>h. hconn h = ?n) (handlers s) = []"
    using streams_okD(1) [OF assms] by (force simp: filter_empty_conv)
  moreover have "streams ((conns s @ [new_conn]) ! c) = length (filter (\<lambda>h. hconn h = c) (handlers s)) \<and>
      streams ((conns s @ [new_conn]) ! c) \<le> nat (sMaxStreamsPerConnection (sopt s))" if "c < Suc ?n" for c
    using streams_okD(2,3) [OF assms, of c] that calculation
    by (cases "c = ?n") (simp_all add: nth_append new_conn_def less_Suc_eq)
  ultimately show ?thesis
    using streams_okD(1) [OF assms] True
    unfolding streams_ok_def serve_accept_def by (simp del: nth_append_length) (metis less_SucI)
qed (auto simp: serve_accept_def intro: streams_ok_frame [OF assms])

lemmas server_ops =
  serve_accept_def conn_begin_def auth_timeout_def conn_end_def control_load_def control_proof_def control_fail_def
  control_accept_def control_open_def control_answered_def control_end_def

lemma streams_ok_step:
  assumes "server_step s s'" "streams_ok s"
  shows "streams_ok s'"
  using assms(1)
proof cases
  case accept
  with assms(2) streams_ok_accept show ?thesis by blast
next
  case (request now r conn streamer ans)
  from request(1) show ?thesis
  proof (cases rule: serveHTTP_cases)
    case (proxy c)
    with streams_ok_serve_proxy [OF _ assms(2)] request(2) show ?thesis by auto
  qed (use assms(2) in \<open>auto intro: streams_ok_upd\<close>)
next
  case (proxy h r dial ctxErr w compressed l remote w' cod)
  with streams_ok_run [OF assms(2)] show ?thesis by blast
next
  case (proxy_dropped h r dial ctxErr w w' cod)
  have "streams_ok (s\<lparr>codecs := cod\<rparr>)" by (rule streams_ok_frame [OF assms(2)]) simp_all
  with streams_ok_handler_end [of "s\<lparr>codecs := cod\<rparr>" h] proxy_dropped(1,2) show ?thesis by simp
next
  case (proxy_end h)
  with assms(2) streams_ok_handler_end show ?thesis by blast
next
  case (reload now prim prev exp crt err)
  then show ?thesis
    by (auto simp: reload_begin_def split: prod.splits option.splits intro: streams_ok_frame [OF assms(2)])
next
  case (end_conn c)
  have "streams_ok (s\<lparr>slots := slots s - 1\<rparr>)" by (rule streams_ok_frame [OF assms(2)]) simp_all
  with end_conn show ?thesis by (simp add: conn_end_def streams_ok_upd)
next
  case (scan c cs now)
  show ?thesis unfolding scan by (rule streams_ok_frame [OF assms(2)]) simp_all
next
  case (ticker c now)
  show ?thesis unfolding ticker by (rule streams_ok_frame [OF assms(2)]) simp_all
next
  case (close_revoked c)
  show ?thesis unfolding close_revoked(1)
    by (rule streams_ok_frame [OF assms(2)]) (simp_all add: close_revoked_def map_upd)
next
  case shutdown
  with assms(2) show ?thesis by (simp add: streams_ok_map)
next
  case (control_open c)
  have "streams_ok (s\<lparr>panicked := True\<rparr>)" by (rule streams_ok_frame [OF assms(2)]) simp_all
  with assms(2) control_open show ?thesis by (simp add: control_open_def streams_ok_upd)
qed (use assms(2) in \<open>simp_all add: server_ops streams_ok_upd Let_def split: option.splits\<close>)

lemma ended_upd:
  assumes "\<And>cs. ended (f cs) = ended cs"
  shows "length (filter (\<lambda>cs. \<not> ended cs) ((conns s)[c := f (conns s ! c)])) = length (filter (\<lambda>cs. \<not> ended cs) (conns s))"
proof -
  have count: "length (filter (\<lambda>cs. \<not> ended cs) xs) = length (filter Not (map ended xs))" for xs :: "connState list"
    by (simp add: filter_map comp_def)
  show ?thesis by (simp add: count map_upd assms)
qed

lemma slots_ok_upd:
  assumes "slots_ok s" "\<And>cs. ended (f cs) = ended cs"
  shows "slots_ok (upd_conn c f s)"
  using assms by (simp add: slots_ok_def ended_upd)

lemma slots_ok_serve_proxy:
  assumes "serve_proxy now c streamer s = (ans, s')" "slots_ok s"
  shows "slots_ok s'"
  using assms(1)
proof (cases rule: serve_proxy_cases)
  case (stream ident l b h)
  with assms(2) show ?thesis by (simp add: slots_ok_def ended_upd)
qed (use assms(2) in \<open>simp_all add: slots_ok_def\<close>)

lemma slots_ok_end:
  assumes "slots_ok s" "c < length (conns s)" "\<not> ended (conns s ! c)"
  shows "slots_ok (conn_end c s)"
proof -
  have "length (filter (\<lambda>cs. \<not> ended cs) (xs[i := y])) = length (filter (\<lambda>cs. \<not> ended cs) xs) - 1"
    if "i < length xs" "\<not> ended (xs ! i)" "ended y" for xs :: "connState list" and i y
    using that(1,2)
  proof (induction xs arbitrary: i)
    case (Cons x xs)
    show ?case
    proof (cases i)
      case (Suc k)
      with Cons have "xs ! k \<in> set (filter (\<lambda>cs. \<not> ended cs) xs)" by simp
      then have "0 < length (filter (\<lambda>cs. \<not> ended cs) xs)"
        by (rule length_pos_if_in_set)
      with Suc Cons show ?thesis by simp
    qed (use Cons that(3) in simp)
  qed simp
  from this [OF assms(2,3)] assms(1) show ?thesis
    by (auto simp: slots_ok_def conn_end_def)
qed

lemma slots_ok_frame:
  assumes "slots_ok s" "sopt s' = sopt s" "slots s' = slots s" "map ended (conns s') = map ended (conns s)"
  shows "slots_ok s'"
proof -
  have count: "length (filter (\<lambda>cs. \<not> ended cs) xs) = length (filter Not (map ended xs))" for xs :: "connState list"
    by (simp add: filter_map comp_def)
  from assms show ?thesis unfolding slots_ok_def count by metis
qed

lemma slots_ok_accept:
  assumes "slots_ok s"
  shows "slots_ok (serve_accept s)"
  using assms by (auto simp: slots_ok_def serve_accept_def new_conn_def)

lemma slots_ok_step:
  assumes "server_step s s'" "slots_ok s" "conns_ok s"
  shows "slots_ok s'"
  using assms(1)
proof cases
  case accept
  with assms(2) slots_ok_accept show ?thesis by blast
next
  case (end_conn c)
  with conns_okD [OF assms(3), of c] have "\<not> ended (conns s ! c)"
    by (simp add: conn_ok_def)
  with slots_ok_end [OF assms(2)] end_conn show ?thesis by blast
next
  case (request now r conn streamer ans)
  from request(1) show ?thesis
  proof (cases rule: serveHTTP_cases)
    case (proxy c)
    with slots_ok_serve_proxy [OF _ assms(2)] show ?thesis by blast
  qed (use assms(2) in \<open>auto intro: slots_ok_upd\<close>)
next
  case (reload now prim prev exp crt err)
  then show ?thesis
    by (auto simp: reload_begin_def split: prod.splits option.splits intro: slots_ok_frame [OF assms(2)])
next
  case (scan c cs now)
  show ?thesis unfolding scan by (rule slots_ok_frame [OF assms(2)]) simp_all
next
  case (ticker c now)
  show ?thesis unfolding ticker by (rule slots_ok_frame [OF assms(2)]) simp_all
next
  case (close_revoked c)
  show ?thesis unfolding close_revoked(1)
    by (rule slots_ok_frame [OF assms(2)]) (simp_all add: close_revoked_def map_upd)
next
  case shutdown
  show ?thesis unfolding shutdown
    by (rule slots_ok_frame [OF assms(2)]) (simp_all add: closeConnections_def)
next
  case (control_open c)
  have "slots_ok (s\<lparr>panicked := True\<rparr>)" by (rule slots_ok_frame [OF assms(2)]) simp_all
  with assms(2) control_open show ?thesis by (simp add: control_open_def slots_ok_upd)
next
  case (proxy h r dial ctxErr w compressed lease remote w' cod)
  show ?thesis unfolding proxy(1)
    by (rule slots_ok_frame [OF assms(2)]) (simp_all add: handler_run_def)
next
  case (proxy_dropped h r dial ctxErr w w' cod)
  show ?thesis unfolding proxy_dropped(1)
    by (rule slots_ok_frame [OF assms(2)]) (simp_all add: handler_end_def map_upd)
next
  case (proxy_end h)
  show ?thesis unfolding proxy_end(1)
    by (rule slots_ok_frame [OF assms(2)]) (simp_all add: handler_end_def map_upd)
qed (use assms(2) in \<open>simp_all add: server_ops slots_ok_upd Let_def split: option.splits\<close>)

section \<open>Revoked keys\<close>

text \<open>The identities of the keys in a snapshot, whatever their expiry.\<close>

definition known :: "bytes \<Rightarrow> ServerCredentials \<Rightarrow> bool" where
  "known ident c = (ident = Sum256 (primary c) \<or> (previous c \<noteq> [] \<and> ident = Sum256 (previous c)))"

lemma Accepts_known: "Accepts now ident c \<Longrightarrow> known ident c"
  by (auto simp: Accepts_def known_def Let_def)

text \<open>An open connection whose key has been accepted holds a key of the credentials.\<close>

definition conn_known :: "ServerCredentials \<Rightarrow> connState \<Rightarrow> bool" where
  "conn_known creds cs =
     (closedWith cs = None \<and> control cs \<in> {Accepted, Answering, Open} \<longrightarrow>
        (case authKey cs of None \<Rightarrow> False | Some ident \<Rightarrow> known ident creds))"

text \<open>The connections that \<open>revokeUnauthorized\<close> has still to look at or to close.\<close>

definition pending :: "Server \<Rightarrow> nat set" where
  "pending s = set (scanning s) \<union> set (closing s)"

definition revoked_ok :: "Server \<Rightarrow> bool" where
  "revoked_ok s = (\<forall>c < length (conns s). c \<in> pending s \<or> conn_known (credentials s) (conns s ! c))"

lemma pending_simps [simp]: "pending (upd_conn c f s) = pending s" "pending (free_lease l s) = pending s"
  by (simp_all add: pending_def)

lemma conn_known_close [simp]: "conn_known k (CloseWithError n w cs)" "conn_known k ((CloseWithError n w cs)\<lparr>control := p\<rparr>)"
  by (simp_all add: conn_known_def)

lemma conn_known_cong:
  "closedWith cs' = closedWith cs \<Longrightarrow> control cs' = control cs \<Longrightarrow> authKey cs' = authKey cs \<Longrightarrow>
   conn_known k cs' = conn_known k cs"
  by (simp add: conn_known_def)

lemma revoked_ok_upd:
  assumes "revoked_ok s" "c < length (conns s) \<Longrightarrow> conn_known (credentials s) (conns s ! c) \<Longrightarrow>
    conn_known (credentials s) (f (conns s ! c))"
  shows "revoked_ok (upd_conn c f s)"
  unfolding revoked_ok_def
proof (intro allI impI)
  fix d
  assume "d < length (conns (upd_conn c f s))"
  with assms show "d \<in> pending (upd_conn c f s) \<or> conn_known (credentials (upd_conn c f s)) (conns (upd_conn c f s) ! d)"
    unfolding revoked_ok_def by (cases "d = c") auto
qed

lemma revoked_ok_frame:
  assumes "revoked_ok s" "conns s' = conns s" "credentials s' = credentials s" "pending s \<subseteq> pending s'"
  shows "revoked_ok s'"
  using assms by (auto simp: revoked_ok_def)

lemma revoked_ok_fail: "revoked_ok s \<Longrightarrow> revoked_ok (control_fail c s)"
  unfolding control_fail_def by (rule revoked_ok_upd) simp_all

lemma revoked_ok_control:
  assumes "revoked_ok s"
  shows "revoked_ok (control_load c s)" "revoked_ok (control_proof now exporter got c snap s)"
    "revoked_ok (control_accept now c s)" "control (conns s ! c) = Accepted \<Longrightarrow> revoked_ok (control_open c s)"
    "control (conns s ! c) = Answering \<Longrightarrow> revoked_ok (control_answered c s)" "revoked_ok (control_end c s)"
proof -
  show "revoked_ok (control_load c s)"
    unfolding control_load_def by (rule revoked_ok_upd [OF assms]) (simp add: conn_known_def)
  show "revoked_ok (control_proof now exporter got c snap s)"
    unfolding control_proof_def using assms
    by (auto split: option.split intro!: revoked_ok_fail revoked_ok_upd simp: conn_known_def)
  show "revoked_ok (control_accept now c s)"
    unfolding control_accept_def using assms
    by (auto split: option.split intro!: revoked_ok_fail revoked_ok_upd simp: conn_known_def Accepts_known)
  have "revoked_ok (s\<lparr>panicked := True\<rparr>)"
    by (rule revoked_ok_frame [OF assms]) (simp_all add: pending_def)
  then show "control (conns s ! c) = Accepted \<Longrightarrow> revoked_ok (control_open c s)"
    unfolding control_open_def by (auto intro!: revoked_ok_upd assms simp: conn_known_def)
  show "control (conns s ! c) = Answering \<Longrightarrow> revoked_ok (control_answered c s)"
    unfolding control_answered_def by (rule revoked_ok_upd [OF assms]) (simp add: conn_known_def)
  show "revoked_ok (control_end c s)"
    unfolding control_end_def by (rule revoked_ok_upd [OF assms]) simp
qed

text \<open>A connection that \<open>revokeUnauthorized\<close> passes holds a key of the credentials.\<close>

lemma revoke_keeps:
  assumes "conns_ok s" "c < length (conns s)" "c \<notin> set (closing (revoke now c s))"
  shows "conn_known (credentials s) (conns s ! c)"
proof (cases "closedWith (conns s ! c) = None \<and> control (conns s ! c) \<in> {Accepted, Answering, Open}")
  case live: True
  with conns_okD [OF assms(1,2)] obtain ident where "authKey (conns s ! c) = Some ident" "registered (conns s ! c)"
    by (fastforce simp: conn_ok_def)
  with assms(3) show ?thesis
    by (auto simp: revoke_def conn_known_def split: if_splits dest: Accepts_known)
qed (auto simp: conn_known_def)

lemma revoke_pending: "set (closing s) \<subseteq> set (closing (revoke now c s))" "set (closing (revoke now c s)) \<subseteq> insert c (set (closing s))"
  by (auto simp: revoke_def Let_def split: option.splits if_splits)

lemma revoked_ok_scan:
  assumes "revoked_ok s" "conns_ok s" "scanning s = c # cs"
  shows "revoked_ok (revoke now c (s\<lparr>scanning := cs\<rparr>))"
proof -
  let ?s = "s\<lparr>scanning := cs\<rparr>"
  have "conns_ok ?s" using assms(2) by (simp add: conns_ok_def)
  from revoke_keeps [OF this, of c now] revoke_pending(1) [of ?s now c] revoke_pending(2) [of now c ?s] assms(1,3) show ?thesis
    by (auto simp: revoked_ok_def pending_def)
qed

lemma revoked_ok_close:
  assumes "revoked_ok s"
  shows "revoked_ok (close_revoked c s)"
proof -
  have "conn_known (credentials s) ((conns s)[c := CloseWithError 1 ''credentials revoked'' (conns s ! c)] ! d)"
    if "d < length (conns s)" "d \<notin> set (scanning s)" "d \<notin> set (remove1 c (closing s))" for d
    using that assms in_set_remove1 [of d c "closing s"]
    by (cases "d = c") (auto simp: revoked_ok_def pending_def)
  then show ?thesis
    unfolding revoked_ok_def by (auto simp: pending_def close_revoked_def)
qed

lemma revoked_ok_keep:
  assumes "revoked_ok s" "\<And>cs. closedWith (f cs) = closedWith cs" "\<And>cs. control (f cs) = control cs" "\<And>cs. authKey (f cs) = authKey cs"
  shows "revoked_ok (upd_conn c f s)"
  using assms(2-4) by (intro revoked_ok_upd [OF assms(1)]) (simp add: conn_known_def)

lemma revoked_ok_handler_end:
  assumes "revoked_ok s"
  shows "revoked_ok (handler_end h s)"
proof -
  have "revoked_ok (s\<lparr>codecs := x, handlers := hs\<rparr>)" for x hs
    by (rule revoked_ok_frame [OF assms]) (simp_all add: pending_def)
  then have "revoked_ok (upd_conn (hconn h) (\<lambda>cs. cs\<lparr>streams := streams cs - 1\<rparr>) (s\<lparr>codecs := x, handlers := hs\<rparr>))" for x hs
    by (rule revoked_ok_keep) simp_all
  then show ?thesis
    unfolding handler_end_def by (rule revoked_ok_frame) (simp_all add: pending_def)
qed

lemma revoked_ok_request:
  assumes "serveHTTP now r conn streamer s = (ans, s')" "revoked_ok s"
  shows "revoked_ok s'"
  using assms(1)
proof (cases rule: serveHTTP_cases)
  case (control c)
  show ?thesis unfolding control(4) by (rule revoked_ok_upd [OF assms(2)]) (simp add: conn_known_def)
next
  case (no_control c)
  show ?thesis unfolding no_control(4) by (rule revoked_ok_keep [OF assms(2)]) simp_all
next
  case (proxy c)
  from proxy(4) show ?thesis
  proof (cases rule: serve_proxy_cases)
    case (stream ident l b h)
    have "revoked_ok (s\<lparr>active := b, handlers := h # handlers s\<rparr>)"
      by (rule revoked_ok_frame [OF assms(2)]) (simp_all add: pending_def)
    then show ?thesis unfolding stream(8) by (rule revoked_ok_keep) simp_all
  qed (auto intro: revoked_ok_frame [OF assms(2)] simp: pending_def)
qed (use assms(2) in simp)

lemma revoked_ok_step:
  assumes "server_step s s'" "revoked_ok s" "conns_ok s"
  shows "revoked_ok s'"
  using assms(1)
proof cases
  case accept
  have "conn_known k new_conn" for k by (simp add: conn_known_def new_conn_def)
  with accept assms(2) show ?thesis
    by (auto simp: revoked_ok_def serve_accept_def pending_def nth_append less_Suc_eq)
next
  case (request now r conn streamer ans)
  with revoked_ok_request [OF _ assms(2)] show ?thesis by blast
next
  case (begin_conn c)
  show ?thesis unfolding begin_conn(1) conn_begin_def by (rule revoked_ok_keep [OF assms(2)]) simp_all
next
  case (timeout c)
  show ?thesis unfolding timeout(1) auth_timeout_def by (rule revoked_ok_upd [OF assms(2)]) simp
next
  case (end_conn c)
  have "revoked_ok (s\<lparr>slots := slots s - 1\<rparr>)"
    by (rule revoked_ok_frame [OF assms(2)]) (simp_all add: pending_def)
  then show ?thesis unfolding end_conn(1) conn_end_def by (rule revoked_ok_upd) (simp add: conn_known_def)
next
  case (proxy h r dial ctxErr w compressed lease remote w' cod)
  show ?thesis unfolding proxy(1)
    by (rule revoked_ok_frame [OF assms(2)]) (simp_all add: handler_run_def pending_def)
next
  case (proxy_dropped h r dial ctxErr w w' cod)
  have "revoked_ok (s\<lparr>codecs := cod\<rparr>)"
    by (rule revoked_ok_frame [OF assms(2)]) (simp_all add: pending_def)
  with revoked_ok_handler_end proxy_dropped(1) show ?thesis by blast
next
  case (proxy_end h)
  with revoked_ok_handler_end [OF assms(2)] show ?thesis by blast
next
  case (reload now prim prev exp crt err)
  then show ?thesis
    using assms(2) by (auto simp: reload_begin_def revoked_ok_def pending_def split: prod.splits option.splits)
next
  case (scan c cs now)
  with revoked_ok_scan [OF assms(2,3)] show ?thesis by blast
next
  case (ticker c now)
  show ?thesis unfolding ticker
    using revoke_pending(1) [of s now c] by (intro revoked_ok_frame [OF assms(2)]) (auto simp: pending_def)
next
  case (close_revoked c)
  with revoked_ok_close [OF assms(2)] show ?thesis by blast
next
  case shutdown
  then show ?thesis
    using assms(2) by (auto simp: closeConnections_def revoked_ok_def pending_def)
qed (use assms(2) revoked_ok_control [OF assms(2)] revoked_ok_fail [OF assms(2)] in \<open>simp_all add: conn_known_def\<close>)

section \<open>The server's invariant\<close>

definition server_inv :: "Server \<Rightarrow> bool" where
  "server_inv s = (conns_ok s \<and> load_ok s \<and> streams_ok s \<and> slots_ok s \<and> revoked_ok s)"

definition server_start :: "Server \<Rightarrow> bool" where
  "server_start s = (\<exists>o0. New o0 = Some s)"

lemma New_fields:
  assumes "New o0 = Some s"
  shows "sopt s = server_defaults o0" "slots s = 0" "conns s = []" "handlers s = []" "scanning s = []" "closing s = []"
    "\<not> panicked s" "credentials s = NewServerCredentials (sPSK (sopt s)) (sPreviousPSK (sopt s)) (sPreviousPSKExpires (sopt s)) (sCert (sopt s))"
    "Admission.New (sMaxActiveStreams (sopt s)) True = Some (active s)"
    "Admission.New (sMaxCompressedStreams (sopt s)) True = Some (codecs s)"
  using assms by (auto simp: New_def Let_def split: option.splits)

lemma server_inv_New:
  assumes "New o0 = Some s"
  shows "server_inv s"
proof -
  note f = New_fields [OF assms]
  have "load_ok s"
    using lease_pool_fresh [OF f(9)] lease_pool_fresh [OF f(10)] capacity_New [OF f(9)] capacity_New [OF f(10)] f(4)
    by (auto simp: load_ok_def)
  then show ?thesis
    using f by (simp add: server_inv_def conns_ok_def streams_ok_def slots_ok_def revoked_ok_def)
qed

interpretation serving: inductive_invariant server_start server_step server_inv
proof unfold_locales
  show "server_start s \<Longrightarrow> server_inv s" for s
    using server_inv_New by (auto simp: server_start_def)
  show "server_inv s \<Longrightarrow> server_step s t \<Longrightarrow> server_inv t" for s t
    unfolding server_inv_def
    using conns_ok_step load_ok_step streams_ok_step slots_ok_step revoked_ok_step by blast
qed

lemma server_step_options:
  assumes "server_step s t"
  shows "sopt t = sopt s"
  using assms
proof cases
  case (request now r conn streamer ans)
  from request(1) show ?thesis
  proof (cases rule: serveHTTP_cases)
    case (proxy c)
    from proxy(4) show ?thesis by (cases rule: serve_proxy_cases) simp_all
  qed simp_all
next
  case (reload now prim prev exp crt err)
  then show ?thesis by (auto simp: reload_begin_def split: prod.splits option.splits)
next
  case (control_proof c snap now exporter got)
  then show ?thesis by (simp add: control_proof_def control_fail_def split: option.split)
next
  case (control_accept c now)
  then show ?thesis by (simp add: control_accept_def control_fail_def split: option.split)
qed (simp_all add: serve_accept_def conn_begin_def auth_timeout_def conn_end_def control_load_def control_fail_def control_open_def
  control_answered_def control_end_def handler_run_def handler_end_def close_revoked_def closeConnections_def)

end
