(* ===== verification/Server_Spec.thy ===== *)
theory Server_Spec
  imports Server_Inv
begin

text \<open>
  What the server promises, as a machine over sessions: who is connected, with which key, how
  many streams each has, which keys are valid and which sessions are still to be checked after a
  change of keys. The server refines it, and the properties of the server follow.
\<close>

section \<open>The service\<close>

record session =
  skey :: "bytes option"
  slive :: bool
  sslot :: bool

record service =
  sessions :: "session list"
  served :: "nat list"
  keys :: "bytes set"
  suspects :: "nat set"
  maxSessions :: nat
  maxPerSession :: nat
  maxServed :: nat

definition closes :: "session \<Rightarrow> session \<Rightarrow> bool" where
  "closes x y = (y = x \<or> y = x\<lparr>slive := False\<rparr>)"

definition settled :: "bytes set \<Rightarrow> session \<Rightarrow> bool" where
  "settled ks x = (slive x \<longrightarrow> (case skey x of None \<Rightarrow> True | Some k \<Rightarrow> k \<in> ks))"

inductive service_step :: "service \<Rightarrow> service \<Rightarrow> bool" where
  connect: "length (filter sslot (sessions a)) < maxSessions a \<Longrightarrow>
    service_step a (a\<lparr>sessions := sessions a @ [\<lparr>skey = None, slive = True, sslot = True\<rparr>], served := served a @ [0]\<rparr>)"
| close: "list_all2 closes (sessions a) ss \<Longrightarrow> service_step a (a\<lparr>sessions := ss\<rparr>)"
| leave: "c < length (sessions a) \<Longrightarrow>
    service_step a (a\<lparr>sessions := (sessions a)[c := (sessions a ! c)\<lparr>slive := False, sslot := False\<rparr>]\<rparr>)"
| authenticate: "c < length (sessions a) \<Longrightarrow> skey (sessions a ! c) = None \<Longrightarrow>
    ident \<in> keys a \<or> c \<in> suspects a \<or> \<not> slive (sessions a ! c) \<Longrightarrow>
    service_step a (a\<lparr>sessions := (sessions a)[c := (sessions a ! c)\<lparr>skey := Some ident\<rparr>]\<rparr>)"
| start: "c < length (sessions a) \<Longrightarrow> skey (sessions a ! c) = Some ident \<Longrightarrow> ident \<in> keys a \<Longrightarrow>
    served a ! c < maxPerSession a \<Longrightarrow> sum_list (served a) < maxServed a \<Longrightarrow>
    service_step a (a\<lparr>served := (served a)[c := served a ! c + 1]\<rparr>)"
| finish: "c < length (sessions a) \<Longrightarrow> 0 < served a ! c \<Longrightarrow>
    service_step a (a\<lparr>served := (served a)[c := served a ! c - 1]\<rparr>)"
| rotate: "{..<length (sessions a)} \<subseteq> S \<Longrightarrow> service_step a (a\<lparr>keys := ks, suspects := S\<rparr>)"
| suspect: "suspects a \<subseteq> S \<Longrightarrow> service_step a (a\<lparr>suspects := S\<rparr>)"
| clear: "list_all2 closes (sessions a) ss \<Longrightarrow>
    (\<forall>c \<in> suspects a - S. c < length ss \<longrightarrow> settled (keys a) (ss ! c)) \<Longrightarrow>
    service_step a (a\<lparr>sessions := ss, suspects := S\<rparr>)"

definition service_start :: "service \<Rightarrow> bool" where
  "service_start a = (sessions a = [] \<and> served a = [])"

definition service_ok :: "service \<Rightarrow> bool" where
  "service_ok a =
     (length (served a) = length (sessions a) \<and> (\<forall>n \<in> set (served a). n \<le> maxPerSession a) \<and>
      sum_list (served a) \<le> maxServed a \<and> length (filter sslot (sessions a)) \<le> maxSessions a \<and>
      (\<forall>c < length (sessions a). c \<in> suspects a \<or> settled (keys a) (sessions a ! c)))"

lemma closes_list:
  assumes "list_all2 closes xs ys"
  shows "length ys = length xs" "length (filter sslot ys) = length (filter sslot xs)"
    "c < length xs \<Longrightarrow> settled ks (xs ! c) \<Longrightarrow> settled ks (ys ! c)"
proof -
  show "length ys = length xs" using assms by (simp add: list_all2_lengthD)
  show "length (filter sslot ys) = length (filter sslot xs)"
    using assms by (induction rule: list_all2_induct) (auto simp: closes_def)
  show "c < length xs \<Longrightarrow> settled ks (xs ! c) \<Longrightarrow> settled ks (ys ! c)"
    using list_all2_nthD [OF assms, of c] by (auto simp: closes_def settled_def)
qed

lemma slots_update:
  assumes "sslot y \<longrightarrow> sslot (xs ! c)"
  shows "length (filter sslot (xs[c := y])) \<le> length (filter sslot xs)"
  using assms by (induction xs arbitrary: c) (auto split: nat.split simp: le_SucI nth_Cons')

lemma sum_list_update_nat:
  "c < length xs \<Longrightarrow> sum_list (xs[c := (y :: nat)]) + xs ! c = sum_list xs + y"
proof (induction xs arbitrary: c)
  case (Cons x xs)
  show ?case
  proof (cases c)
    case (Suc d)
    with Cons.IH [of d] Cons.prems show ?thesis by simp
  qed simp
qed simp

lemma service_ok_served:
  assumes "service_ok a" "c < length (sessions a)" "n \<le> maxPerSession a" "sum_list ((served a)[c := n]) \<le> maxServed a"
  shows "service_ok (a\<lparr>served := (served a)[c := n]\<rparr>)"
  using assms set_update_subset_insert [of "served a" c n] by (auto simp: service_ok_def)

lemma service_ok_step:
  assumes "service_ok a" "service_step a b"
  shows "service_ok b"
  using assms(2)
proof cases
  case connect
  with assms(1) show ?thesis
    by (auto simp: service_ok_def nth_append less_Suc_eq settled_def)
next
  case (close ss)
  with assms(1) closes_list [OF close(2)] show ?thesis
    by (auto simp: service_ok_def)
next
  case (leave c)
  with assms(1) slots_update [of "(sessions a ! c)\<lparr>slive := False, sslot := False\<rparr>" "sessions a" c] show ?thesis
    by (auto simp: service_ok_def settled_def nth_list_update)
next
  case (authenticate c ident)
  with assms(1) slots_update [of "(sessions a ! c)\<lparr>skey := Some ident\<rparr>" "sessions a" c] show ?thesis
    by (auto simp: service_ok_def settled_def nth_list_update)
next
  case (start c ident)
  with assms(1) sum_list_update_nat [of c "served a" "served a ! c + 1"] show ?thesis
    unfolding start(1) by (intro service_ok_served) (auto simp: service_ok_def)
next
  case (finish c)
  with assms(1) have "served a ! c \<le> maxPerSession a" "c < length (served a)" "sum_list (served a) \<le> maxServed a"
    by (auto simp: service_ok_def)
  with finish assms(1) sum_list_update_nat [of c "served a" "served a ! c - 1"] show ?thesis
    unfolding finish(1) by (intro service_ok_served) auto
next
  case (rotate S ks)
  with assms(1) show ?thesis by (auto simp: service_ok_def)
next
  case (suspect S)
  with assms(1) show ?thesis by (auto simp: service_ok_def)
next
  case (clear ss S)
  with assms(1) closes_list [OF clear(2)] show ?thesis
    by (auto simp: service_ok_def)
qed

interpretation service: inductive_invariant service_start service_step service_ok
  by unfold_locales (simp add: service_ok_def service_start_def, rule service_ok_step)

section \<open>The server refines it\<close>

definition abs_conn :: "connState \<Rightarrow> session" where
  "abs_conn cs = \<lparr>skey = (if authed cs then authKey cs else None), slive = (closedWith cs = None), sslot = (\<not> ended cs)\<rparr>"

definition abs_server :: "Server \<Rightarrow> service" where
  "abs_server s =
     \<lparr>sessions = map abs_conn (conns s), served = map streams (conns s), keys = {ident. known ident (credentials s)},
      suspects = pending s, maxSessions = nat (sMaxConnections (sopt s)),
      maxPerSession = nat (sMaxStreamsPerConnection (sopt s)), maxServed = nat (sMaxActiveStreams (sopt s))\<rparr>"

lemma abs_conn_close [simp]: "abs_conn (CloseWithError n w cs) = (abs_conn cs)\<lparr>slive := False\<rparr>"
  "abs_conn ((CloseWithError n w cs)\<lparr>control := p\<rparr>) = (abs_conn cs)\<lparr>slive := False\<rparr>"
  by (simp_all add: abs_conn_def)

lemma abs_conn_simps [simp]:
  "abs_conn (cs\<lparr>control := p\<rparr>) = abs_conn cs" "abs_conn (cs\<lparr>controlStarted := b\<rparr>) = abs_conn cs"
  "abs_conn (cs\<lparr>registered := b\<rparr>) = abs_conn cs" "abs_conn (cs\<lparr>streams := n\<rparr>) = abs_conn cs"
  "abs_conn (cs\<lparr>timerStopped := b\<rparr>) = abs_conn cs"
  by (simp_all add: abs_conn_def)

lemma abs_upd:
  "abs_server (upd_conn c f s) =
     (abs_server s)\<lparr>sessions := (map abs_conn (conns s))[c := abs_conn (f (conns s ! c))],
                    served := (map streams (conns s))[c := streams (f (conns s ! c))]\<rparr>"
  by (simp add: abs_server_def map_update)

lemma map_update_same: "c < length xs \<Longrightarrow> g y = g (xs ! c) \<Longrightarrow> (map g xs)[c := g y] = map g xs"
  by (metis list_update_id nth_map)

lemma abs_upd_same:
  assumes "c < length (conns s)" "abs_conn (f (conns s ! c)) = abs_conn (conns s ! c)" "streams (f (conns s ! c)) = streams (conns s ! c)"
  shows "abs_server (upd_conn c f s) = abs_server s"
  unfolding abs_upd using assms(2,3)
  by (simp add: map_update_same [OF assms(1), of abs_conn] map_update_same [OF assms(1), of streams]) (simp add: abs_server_def)

lemma closes_refl [simp]: "closes x x"
  by (simp add: closes_def)

lemma closes_update: "c < length xs \<Longrightarrow> list_all2 closes xs (xs[c := (xs ! c)\<lparr>slive := False\<rparr>])"
  by (rule list_all2_all_nthI) (simp_all add: nth_list_update closes_def)

lemma abs_close:
  assumes "c < length (conns s)" "abs_conn (f (conns s ! c)) = (abs_conn (conns s ! c))\<lparr>slive := False\<rparr>"
    "streams (f (conns s ! c)) = streams (conns s ! c)"
  shows "service_step (abs_server s) (abs_server (upd_conn c f s))"
proof -
  have "service_step (abs_server s)
      ((abs_server s)\<lparr>sessions := (map abs_conn (conns s))[c := (map abs_conn (conns s) ! c)\<lparr>slive := False\<rparr>]\<rparr>)"
    by (rule service_step.close) (use closes_update [of c "map abs_conn (conns s)"] assms(1) in \<open>simp add: abs_server_def\<close>)
  moreover have "abs_server (upd_conn c f s) =
      (abs_server s)\<lparr>sessions := (map abs_conn (conns s))[c := (map abs_conn (conns s) ! c)\<lparr>slive := False\<rparr>]\<rparr>"
    unfolding abs_upd using assms
    by (simp add: map_update_same [OF assms(1), of streams]) (simp add: abs_server_def)
  ultimately show ?thesis by simp
qed

text \<open>The streams of all connections are the running handlers.\<close>

lemma handlers_count:
  assumes "streams_ok s"
  shows "sum_list (map streams (conns s)) = length (handlers s)"
proof -
  have count: "(\<Sum>c < n. length (filter (\<lambda>h. hconn h = c) hs)) = length hs" if "\<forall>h \<in> set hs. hconn h < n" for hs n
    using that
  proof (induction hs)
    case (Cons h hs)
    have "(\<Sum>c < n. length (filter (\<lambda>x. hconn x = c) (h # hs))) =
        (\<Sum>c < n. (if hconn h = c then 1 else 0) + length (filter (\<lambda>x. hconn x = c) hs))"
      by (rule sum.cong) simp_all
    with Cons show ?case by (simp add: sum.distrib)
  qed simp
  have "sum_list (map streams (conns s)) = (\<Sum>c < length (conns s). streams (conns s ! c))"
    by (simp add: sum_list_sum_nth atLeast0LessThan)
  with count [of "handlers s" "length (conns s)"] streams_okD [OF assms] show ?thesis by simp
qed

lemma abs_start:
  assumes "serve_proxy now c streamer s = (ans, s')" "server_inv s" "c < length (conns s)"
  shows "abs_server s' = abs_server s \<or> service_step (abs_server s) (abs_server s')"
  using assms(1)
proof (cases rule: serve_proxy_cases)
  case (stream ident l b h)
  have "length (handlers s) < nat (sMaxActiveStreams (sopt s))"
    using lease.acquire_Some [OF load_okD(1) stream(4)] assms(2) load_okD(4) [of s]
      lease.pool_bound [of b "l # map hlease (handlers s)"] by (fastforce simp: server_inv_def)
  moreover have "sum_list (served (abs_server s)) = length (handlers s)"
    using handlers_count [of s] assms(2) by (simp add: server_inv_def abs_server_def)
  ultimately have "service_step (abs_server s) ((abs_server s)\<lparr>served := (served (abs_server s))[c := served (abs_server s) ! c + 1]\<rparr>)"
    using stream(1-3,5) assms(3) by (intro service_step.start [where ident = ident])
      (simp_all add: abs_server_def abs_conn_def Accepts_known)
  moreover have "abs_server s' = (abs_server s)\<lparr>served := (served (abs_server s))[c := served (abs_server s) ! c + 1]\<rparr>"
    unfolding stream(8) abs_upd using assms(3)
    by (simp add: map_update_same [OF assms(3), of abs_conn]) (simp add: abs_server_def pending_def)
  ultimately show ?thesis by simp
qed (simp_all add: abs_server_def pending_def)

lemma abs_handler_end:
  assumes "streams_ok s" "h \<in> set (handlers s)"
  shows "service_step (abs_server s) (abs_server (handler_end h (s\<lparr>codecs := cod\<rparr>)))"
proof -
  let ?c = "hconn h"
  have c: "?c < length (conns s)" using streams_okD(1) [OF assms] .
  have "h \<in> set (filter (\<lambda>x. hconn x = ?c) (handlers s))" using assms(2) by simp
  then have "0 < streams (conns s ! ?c)"
    unfolding streams_okD(2) [OF assms(1) c] by (rule length_pos_if_in_set)
  with c have "service_step (abs_server s) ((abs_server s)\<lparr>served := (served (abs_server s))[?c := served (abs_server s) ! ?c - 1]\<rparr>)"
    by (intro service_step.finish) (simp_all add: abs_server_def)
  moreover have "abs_server (handler_end h (s\<lparr>codecs := cod\<rparr>)) =
      (abs_server s)\<lparr>served := (served (abs_server s))[?c := served (abs_server s) ! ?c - 1]\<rparr>"
    using c map_update_same [OF c, of abs_conn] by (simp add: abs_server_def handler_end_def map_update pending_def)
  ultimately show ?thesis by simp
qed

lemma abs_control_open:
  assumes "server_inv s" "c < length (conns s)" "control (conns s ! c) = Accepted"
  shows "service_step (abs_server s) (abs_server (control_open c s))"
proof -
  have ok: "conn_ok (conns s ! c)" using assms by (simp add: server_inv_def conns_okD)
  then have na: "\<not> authed (conns s ! c)" using assms(3) by (simp add: conn_okD(2))
  from ok assms(3) obtain ident where k: "authKey (conns s ! c) = Some ident" by (auto simp: conn_ok_def)
  have "c \<in> pending s \<or> conn_known (credentials s) (conns s ! c)"
    using assms(1,2) by (simp add: server_inv_def revoked_ok_def)
  then have "ident \<in> keys (abs_server s) \<or> c \<in> suspects (abs_server s) \<or> \<not> slive (sessions (abs_server s) ! c)"
    using assms(2,3) k by (auto simp: conn_known_def abs_server_def abs_conn_def)
  then have "service_step (abs_server s)
      ((abs_server s)\<lparr>sessions := (sessions (abs_server s))[c := (sessions (abs_server s) ! c)\<lparr>skey := Some ident\<rparr>]\<rparr>)"
    using assms(2) na by (intro service_step.authenticate) (simp_all add: abs_server_def abs_conn_def)
  moreover have "abs_server (control_open c s) =
      (abs_server s)\<lparr>sessions := (sessions (abs_server s))[c := (sessions (abs_server s) ! c)\<lparr>skey := Some ident\<rparr>]\<rparr>"
    using assms(2) na k map_update_same [OF assms(2), of streams]
    by (simp add: control_open_def abs_server_def map_update pending_def abs_conn_def)
  ultimately show ?thesis by simp
qed

lemma abs_scan:
  assumes "server_inv s" "scanning s = c # cs"
  shows "service_step (abs_server s) (abs_server (revoke now c (s\<lparr>scanning := cs\<rparr>)))"
proof -
  let ?s = "revoke now c (s\<lparr>scanning := cs\<rparr>)"
  have ok: "conns_ok (s\<lparr>scanning := cs\<rparr>)" using assms(1) by (simp add: server_inv_def conns_ok_def)
  have known: "conn_known (credentials s) (conns s ! d)" if "d \<in> pending s - pending ?s" "d < length (conns s)" for d
  proof -
    from that(1) assms(2) revoke_pending(1) [of "s\<lparr>scanning := cs\<rparr>" now c] have "d = c" "c \<notin> set (closing ?s)"
      by (auto simp: pending_def)
    with revoke_keeps [OF ok, of c now] that(2) show ?thesis by simp
  qed
  have "settled (keys (abs_server s)) (sessions (abs_server s) ! d)"
    if "d \<in> pending s - pending ?s" "d < length (conns s)" for d
  proof -
    have "conn_ok (conns s ! d)" using assms(1) that(2) by (simp add: server_inv_def conns_okD)
    with known [OF that] that(2) show ?thesis
      by (auto simp: settled_def abs_server_def abs_conn_def conn_known_def conn_ok_def split: option.splits)
  qed
  then have "service_step (abs_server s) ((abs_server s)\<lparr>sessions := sessions (abs_server s), suspects := pending ?s\<rparr>)"
    by (intro service_step.clear) (auto simp: list_all2_same abs_server_def)
  moreover have "abs_server ?s = (abs_server s)\<lparr>sessions := sessions (abs_server s), suspects := pending ?s\<rparr>"
    by (simp add: abs_server_def)
  ultimately show ?thesis by simp
qed

lemma abs_close_revoked:
  assumes "c \<in> set (closing s)" "c < length (conns s)"
  shows "service_step (abs_server s) (abs_server (close_revoked c s))"
proof -
  let ?ss = "(sessions (abs_server s))[c := (sessions (abs_server s) ! c)\<lparr>slive := False\<rparr>]"
  have "settled (keys (abs_server s)) (?ss ! d)" if "d \<in> suspects (abs_server s) - pending (close_revoked c s)" for d
    using that assms(2) in_set_remove1 [of d c "closing s"]
    by (cases "d = c") (auto simp: abs_server_def settled_def pending_def close_revoked_def)
  then have "service_step (abs_server s) ((abs_server s)\<lparr>sessions := ?ss, suspects := pending (close_revoked c s)\<rparr>)"
    using closes_update [of c "sessions (abs_server s)"] assms(2)
    by (intro service_step.clear) (simp_all add: abs_server_def)
  moreover have "abs_server (close_revoked c s) = (abs_server s)\<lparr>sessions := ?ss, suspects := pending (close_revoked c s)\<rparr>"
    using assms(2) map_update_same [OF assms(2), of streams]
    by (simp add: abs_server_def close_revoked_def map_update)
  ultimately show ?thesis by simp
qed

lemma abs_close_revoked_none:
  assumes "length (conns s) \<le> c"
  shows "service_step (abs_server s) (abs_server (close_revoked c s))"
proof -
  have "pending s - pending (close_revoked c s) \<subseteq> {c}"
    using in_set_remove1 [of _ c "closing s"] by (auto simp: pending_def close_revoked_def)
  then have "service_step (abs_server s) ((abs_server s)\<lparr>sessions := sessions (abs_server s), suspects := pending (close_revoked c s)\<rparr>)"
    using assms by (intro service_step.clear) (auto simp: list_all2_same abs_server_def)
  moreover have "abs_server (close_revoked c s) =
      (abs_server s)\<lparr>sessions := sessions (abs_server s), suspects := pending (close_revoked c s)\<rparr>"
    using assms by (simp add: abs_server_def close_revoked_def list_update_beyond)
  ultimately show ?thesis by simp
qed

lemma abs_accept:
  assumes "slots_ok s"
  shows "abs_server (serve_accept s) = abs_server s \<or> service_step (abs_server s) (abs_server (serve_accept s))"
proof (cases "slots s < nat (sMaxConnections (sopt s))")
  case True
  have "length (filter sslot (sessions (abs_server s))) = slots s"
    using assms by (simp add: slots_ok_def abs_server_def abs_conn_def filter_map comp_def)
  with True have "service_step (abs_server s) ((abs_server s)\<lparr>sessions := sessions (abs_server s) @ [\<lparr>skey = None, slive = True, sslot = True\<rparr>],
      served := served (abs_server s) @ [0]\<rparr>)"
    by (intro service_step.connect) (simp add: abs_server_def)
  with True show ?thesis
    by (simp add: abs_server_def serve_accept_def pending_def abs_conn_def new_conn_def)
qed (simp add: abs_server_def serve_accept_def pending_def)

lemma abs_request:
  assumes "serveHTTP now r conn streamer s = (ans, s')" "server_inv s"
    "case conn of None \<Rightarrow> True | Some c \<Rightarrow> c < length (conns s) \<and> registered (conns s ! c)"
  shows "abs_server s' = abs_server s \<or> service_step (abs_server s) (abs_server s')"
  using assms(1)
proof (cases rule: serveHTTP_cases)
  case (control c)
  with assms(3) abs_upd_same [of c s "\<lambda>cs. cs\<lparr>controlStarted := True, control := Started\<rparr>"] show ?thesis by simp
next
  case (no_control c)
  with assms(3) abs_upd_same [of c s "\<lambda>cs. cs\<lparr>controlStarted := True\<rparr>"] show ?thesis by simp
next
  case (proxy c)
  with assms(2,3) abs_start show ?thesis by simp
qed simp

lemma abs_fail: "c < length (conns s) \<Longrightarrow> service_step (abs_server s) (abs_server (control_fail c s))"
  unfolding control_fail_def by (rule abs_close) simp_all

lemma abs_reload:
  assumes "reload_begin now prim prev exp crt s = (err, s')"
  shows "abs_server s' = abs_server s \<or> service_step (abs_server s) (abs_server s')"
proof (cases "Update now prim prev exp crt (credentials s)")
  case (Pair e creds)
  show ?thesis
  proof (cases e)
    case None
    with Pair assms have s': "s' = s\<lparr>credentials := creds, scanning := [0..<length (conns s)]\<rparr>"
      by (simp add: reload_begin_def)
    have "service_step (abs_server s) ((abs_server s)\<lparr>keys := {ident. known ident creds}, suspects := pending s'\<rparr>)"
      by (rule service_step.rotate) (auto simp: s' pending_def abs_server_def)
    moreover have "abs_server s' = (abs_server s)\<lparr>keys := {ident. known ident creds}, suspects := pending s'\<rparr>"
      by (simp add: s' abs_server_def pending_def)
    ultimately show ?thesis by simp
  qed (use Pair assms in \<open>simp add: reload_begin_def\<close>)
qed

lemma abs_quiet:
  assumes "server_inv s" "c < length (conns s)"
  shows "abs_server (conn_begin c s) = abs_server s" "abs_server (control_load c s) = abs_server s"
    "abs_server (control_answered c s) = abs_server s"
    "control (conns s ! c) = Loaded snap \<Longrightarrow>
      abs_server (control_proof now exporter got c snap s) = abs_server s \<or>
      service_step (abs_server s) (abs_server (control_proof now exporter got c snap s))"
    "abs_server (control_accept now c s) = abs_server s \<or>
      service_step (abs_server s) (abs_server (control_accept now c s))"
proof -
  show "abs_server (conn_begin c s) = abs_server s" "abs_server (control_load c s) = abs_server s"
    "abs_server (control_answered c s) = abs_server s"
    unfolding conn_begin_def control_load_def control_answered_def by (rule abs_upd_same [OF assms(2)], simp_all)+
  show "abs_server (control_accept now c s) = abs_server s \<or>
      service_step (abs_server s) (abs_server (control_accept now c s))"
    using abs_fail [OF assms(2)] abs_upd_same [OF assms(2), of "\<lambda>cs. cs\<lparr>control := Accepted\<rparr>"]
    by (simp add: control_accept_def split: option.split)
  assume "control (conns s ! c) = Loaded snap"
  then have "\<not> authed (conns s ! c)"
    using assms by (simp add: server_inv_def conns_okD conn_okD(5) [OF conns_okD])
  then show "abs_server (control_proof now exporter got c snap s) = abs_server s \<or>
      service_step (abs_server s) (abs_server (control_proof now exporter got c snap s))"
    using abs_fail [OF assms(2)] abs_upd_same [OF assms(2), of "\<lambda>cs. cs\<lparr>control := Stored, authKey := Some k\<rparr>" for k]
    by (simp add: control_proof_def abs_conn_def split: option.split)
qed

lemma abs_step:
  assumes "server_inv s" "server_step s s'"
  shows "abs_server s' = abs_server s \<or> service_step (abs_server s) (abs_server s')"
  using assms(2)
proof cases
  case accept
  with abs_accept [of s] assms(1) show ?thesis by (simp add: server_inv_def)
next
  case (timeout c)
  with abs_close [OF timeout(2), of "CloseWithError 1 ''authentication timeout''"] show ?thesis
    by (cases "authed (conns s ! c)") (simp_all add: auth_timeout_def abs_upd_same upd_conn_def)
next
  case (end_conn c)
  have "service_step (abs_server s) ((abs_server s)\<lparr>sessions := (sessions (abs_server s))[c := (sessions (abs_server s) ! c)\<lparr>slive := False, sslot := False\<rparr>]\<rparr>)"
    using end_conn(2) by (intro service_step.leave) (simp add: abs_server_def)
  moreover have "abs_server s' = (abs_server s)\<lparr>sessions := (sessions (abs_server s))[c := (sessions (abs_server s) ! c)\<lparr>slive := False, sslot := False\<rparr>]\<rparr>"
    using end_conn map_update_same [OF end_conn(2), of streams]
    by (simp add: conn_end_def abs_server_def map_update pending_def abs_conn_def)
  ultimately show ?thesis by simp
next
  case (request now r conn streamer ans)
  with abs_request assms(1) show ?thesis by blast
next
  case (control_proof c snap now exporter got)
  with abs_quiet(4) [OF assms(1)] show ?thesis by blast
next
  case (control_accept c now)
  with abs_quiet(5) [OF assms(1)] show ?thesis by blast
next
  case (control_open c)
  with abs_control_open [OF assms(1)] show ?thesis by blast
next
  case (control_end c)
  with abs_close [OF control_end(2), of "CloseWithError 0 ''control stream closed''"] show ?thesis
    by (simp add: control_end_def)
next
  case (proxy h r dial ctxErr w compressed lease remote w' cod)
  then show ?thesis by (simp add: abs_server_def handler_run_def pending_def)
next
  case (proxy_dropped h r dial ctxErr w w' cod)
  with abs_handler_end [of s h cod] assms(1) show ?thesis by (simp add: server_inv_def)
next
  case (proxy_end h)
  with abs_handler_end [of s h "codecs s"] assms(1) show ?thesis by (simp add: server_inv_def)
next
  case (reload now prim prev exp crt err)
  with abs_reload show ?thesis by blast
next
  case (scan c cs now)
  with abs_scan [OF assms(1)] show ?thesis by blast
next
  case (ticker c now)
  have "service_step (abs_server s) ((abs_server s)\<lparr>suspects := pending s'\<rparr>)"
    unfolding ticker using revoke_pending(1) [of s now c] by (intro service_step.suspect) (auto simp: abs_server_def pending_def)
  moreover have "abs_server s' = (abs_server s)\<lparr>suspects := pending s'\<rparr>"
    by (simp add: ticker abs_server_def)
  ultimately show ?thesis by simp
next
  case (close_revoked c)
  with abs_close_revoked abs_close_revoked_none show ?thesis by (metis not_le)
next
  case shutdown
  have "service_step (abs_server s) ((abs_server s)\<lparr>sessions := map abs_conn (conns s')\<rparr>)"
    by (rule service_step.close) (auto simp: shutdown abs_server_def closeConnections_def list_all2_conv_all_nth closes_def)
  moreover have "abs_server s' = (abs_server s)\<lparr>sessions := map abs_conn (conns s')\<rparr>"
    by (simp add: shutdown abs_server_def closeConnections_def pending_def)
  ultimately show ?thesis by simp
qed (use abs_quiet(1-3) [OF assms(1)] abs_fail [of _ s] in simp_all)

lemma abs_steps:
  assumes "server_step\<^sup>*\<^sup>* s s'" "server_inv s"
  shows "service_step\<^sup>*\<^sup>* (abs_server s) (abs_server s')"
  using assms
proof (induction rule: rtranclp_induct)
  case (step t u)
  from serving.inv_steps [OF step(1,4)] abs_step [OF _ step(2)] step(3,4) show ?case
    by (metis rtranclp.rtrancl_into_rtrancl)
qed simp

lemma reachable_inv:
  assumes "New o0 = Some s0" "server_step\<^sup>*\<^sup>* s0 s"
  shows "server_inv s"
  using serving.inv_reachable [of s0 s] assms by (auto simp: server_start_def)

lemma reachable_options:
  assumes "server_step\<^sup>*\<^sup>* s0 s"
  shows "sopt s = sopt s0"
  using assms by (induction rule: rtranclp_induct) (simp_all add: server_step_options)

lemma New_total: "\<exists>s0. New o0 = Some s0"
proof -
  have "1 \<le> sMaxActiveStreams (server_defaults o0)" "1 \<le> sMaxCompressedStreams (server_defaults o0)"
    by (simp_all add: server_defaults_def positive_or_def Let_def)
  then show ?thesis
    by (auto simp: New_def Admission.New_def Let_def)
qed

section \<open>A change of credentials without interruption\<close>

lemma revoke_scanning: "revoke now c (s\<lparr>scanning := x\<rparr>) = (revoke now c s)\<lparr>scanning := x\<rparr>"
  by (simp add: revoke_def Let_def split: option.split)

lemma fold_revoke_scanning: "fold (revoke now) cs (s\<lparr>scanning := x\<rparr>) = (fold (revoke now) cs s)\<lparr>scanning := x\<rparr>"
  by (induction cs arbitrary: s) (simp_all add: revoke_scanning)

lemma scan_steps:
  "scanning s = cs \<Longrightarrow> server_step\<^sup>*\<^sup>* s ((fold (revoke now) cs s)\<lparr>scanning := []\<rparr>)"
proof (induction cs arbitrary: s)
  case (Cons c cs)
  have "server_step s (revoke now c (s\<lparr>scanning := cs\<rparr>))"
    using Cons.prems by (rule server_step.scan)
  moreover have "server_step\<^sup>*\<^sup>* (revoke now c (s\<lparr>scanning := cs\<rparr>)) ((fold (revoke now) cs (revoke now c (s\<lparr>scanning := cs\<rparr>)))\<lparr>scanning := []\<rparr>)"
    by (rule Cons.IH) simp
  ultimately show ?case
    by (simp add: revoke_scanning fold_revoke_scanning converse_rtranclp_into_rtranclp)
next
  case Nil
  then have "s\<lparr>scanning := []\<rparr> = s" by (cases s) simp
  then show ?case by simp
qed

lemma close_steps:
  "closing s = xs \<Longrightarrow> server_step\<^sup>*\<^sup>* s (fold close_revoked xs s) \<and> closing (fold close_revoked xs s) = []"
proof (induction xs arbitrary: s)
  case (Cons c xs)
  then have "server_step s (close_revoked c s)"
    by (intro server_step.close_revoked) simp
  moreover from Cons have "closing (close_revoked c s) = xs"
    by (simp add: close_revoked_def)
  ultimately show ?case
    using Cons.IH [of "close_revoked c s"] by (auto intro: converse_rtranclp_into_rtranclp)
qed simp

lemma close_revoked_scanning1: "(close_revoked c s)\<lparr>scanning := x\<rparr> = close_revoked c (s\<lparr>scanning := x\<rparr>)"
  by (cases s) (simp add: close_revoked_def upd_conn_def)

lemma close_revoked_scanning: "(fold close_revoked xs s)\<lparr>scanning := x\<rparr> = fold close_revoked xs (s\<lparr>scanning := x\<rparr>)"
  by (induction xs arbitrary: s) (simp_all add: close_revoked_scanning1)

lemma close_revoked_credentials: "credentials (fold close_revoked xs s) = credentials s"
  by (induction xs arbitrary: s) (simp_all add: close_revoked_def)

lemma fold_revoke_credentials: "credentials (fold (revoke now) xs s) = credentials s" "conns (fold (revoke now) xs s) = conns s"
  by (induction xs arbitrary: s) simp_all

lemma ReloadCredentials_steps:
  assumes "ReloadCredentials now prim prev exp crt s = (None, s')" "closing s = []"
  shows "server_step\<^sup>*\<^sup>* s s'" "pending s' = {}" "Update now prim prev exp crt (credentials s) = (None, credentials s')"
proof -
  obtain t where t: "reload_begin now prim prev exp crt s = (None, t)" and s': "s' = (revokeUnauthorized now t)\<lparr>scanning := []\<rparr>"
    using assms(1) by (auto simp: ReloadCredentials_def split: prod.splits option.splits)
  from t obtain creds where u: "Update now prim prev exp crt (credentials s) = (None, creds)"
      "t = s\<lparr>credentials := creds, scanning := [0..<length (conns s)]\<rparr>"
    by (auto simp: reload_begin_def split: prod.splits option.splits)
  let ?u = "(fold (revoke now) [0..<length (conns t)] t)\<lparr>scanning := []\<rparr>"
  have s'_eq: "s' = fold close_revoked (closing ?u) ?u"
    using u(2) assms(2) by (simp add: s' revokeUnauthorized_def Let_def close_revoked_scanning)
  have "server_step s t" using t by (rule server_step.reload)
  moreover have "server_step\<^sup>*\<^sup>* t ?u"
    using scan_steps [of t "[0..<length (conns t)]" now] u(2) by simp
  moreover from close_steps [of ?u] have "server_step\<^sup>*\<^sup>* ?u s'" "closing s' = []"
    unfolding s'_eq by blast+
  ultimately show "server_step\<^sup>*\<^sup>* s s'"
    by (meson converse_rtranclp_into_rtranclp rtranclp_trans)
  have "scanning s' = []" using s' by simp
  with \<open>closing s' = []\<close> show "pending s' = {}" by (simp add: pending_def)
  show "Update now prim prev exp crt (credentials s) = (None, credentials s')"
    using u by (simp add: s'_eq close_revoked_credentials fold_revoke_credentials)
qed

section \<open>Properties\<close>

definition sample_options :: server_Options where
  "sample_options =
     \<lparr>sCongestionControl = [], sMaxActiveStreams = 0, sMaxCompressedStreams = 0, sPSK = replicate 16 7, sPreviousPSK = [],
      sPreviousPSKExpires = 0, sCert = cert sample_credentials, sALPN = [], sIdleTimeout = 0, sHandshakeTimeout = 0,
      sRequestTimeout = 0, sMaxConnections = 1, sMaxStreamsPerConnection = 0, sCompression = True, sMaxStreamRecvWindow = 0,
      sMaxConnRecvWindow = 0\<rparr>"


lemma sample_accept:
  obtains s0 where "New sample_options = Some s0" "server_step\<^sup>*\<^sup>* s0 (serve_accept s0)" "conns (serve_accept s0) = [new_conn]"
proof -
  obtain s0 where s0: "New sample_options = Some s0" using New_total by blast
  have "sMaxConnections (sopt s0) = 1"
    unfolding New_fields(1) [OF s0] by (simp add: server_defaults_def sample_options_def positive_or_def Let_def)
  with New_fields(2,3) [OF s0] have "conns (serve_accept s0) = [new_conn]" by (simp add: serve_accept_def)
  with s0 server_step.accept [of s0] that show thesis by blast
qed





lemma sample_authenticated:
  obtains s0 s cs where "New sample_options = Some s0" "server_step\<^sup>*\<^sup>* s0 s" "closing s = []" "conns s = [cs]"
    "authed cs" "closedWith cs = None" "authKey cs = Some (Sum256 (replicate 16 7))" "credentials s = sample_credentials"
proof -
  obtain s0 where s0: "New sample_options = Some s0" "server_step\<^sup>*\<^sup>* s0 (serve_accept s0)" "conns (serve_accept s0) = [new_conn]"
    by (rule sample_accept)
  let ?req = "\<lparr>Method = ''CONNECT'', rHost = ControlAuthority, rVersion = Itoa (unat Version)\<rparr>"
  let ?got = "proof_of (replicate 16 7) [3] ''client''"
  define s1 where "s1 = serve_accept s0"
  define s2 where "s2 = conn_begin 0 s1"
  define s3 where "s3 = upd_conn 0 (\<lambda>cs. cs\<lparr>controlStarted := True, control := Started\<rparr>) s2"
  define s4 where "s4 = control_load 0 s3"
  define s5 where "s5 = control_proof 5 [3] ?got 0 sample_credentials s4"
  define s6 where "s6 = control_accept 5 0 s5"
  define s7 where "s7 = control_open 0 s6"
  note ds = s2_def s3_def s4_def s5_def s6_def s7_def
  have cred: "credentials s1 = sample_credentials" "closing s1 = []"
    using New_fields(1,6,8) [OF s0(1)]
    by (simp_all add: s1_def serve_accept_def NewServerCredentials_def store_def server_defaults_def sample_options_def
        sample_credentials_def Let_def)
  have key: "select_key 5 [3] sample_credentials ?got = Some (replicate 16 7)"
    by (simp add: select_key_def sample_active(2))
  have c1: "conns s1 = [new_conn]" using s0(3) by (simp add: s1_def)
  have acc: "Accepts 5 (Sum256 (replicate 16 7)) sample_credentials"
    by (simp add: Accepts_def sample_active(2))
  have c2: "conns s2 = [new_conn\<lparr>registered := True\<rparr>]" using c1 by (simp add: s2_def conn_begin_def)
  have c3: "conns s3 = [new_conn\<lparr>registered := True, controlStarted := True, control := Started\<rparr>]"
    using c2 by (simp add: s3_def)
  have c4: "conns s4 = [new_conn\<lparr>registered := True, controlStarted := True, control := Loaded sample_credentials\<rparr>]"
    using c3 cred by (simp add: s4_def control_load_def) (simp add: s3_def s2_def conn_begin_def cred)
  have c5: "conns s5 = [new_conn\<lparr>registered := True, controlStarted := True, control := Stored, authKey := Some (Sum256 (replicate 16 7))\<rparr>]"
    using c4 by (simp add: s5_def control_proof_def key)
  have "credentials s5 = sample_credentials"
    by (simp add: s5_def control_proof_def key s4_def control_load_def s3_def s2_def conn_begin_def cred)
  then have c6: "conns s6 = [new_conn\<lparr>registered := True, controlStarted := True, control := Accepted, authKey := Some (Sum256 (replicate 16 7))\<rparr>]"
    using c5 acc by (simp add: s6_def control_accept_def)
  have c7: "conns s7 = [new_conn\<lparr>registered := True, controlStarted := True, control := Answering, authKey := Some (Sum256 (replicate 16 7)),
      authed := True, timerStopped := True\<rparr>]"
    using c6 by (simp add: s7_def control_open_def new_conn_def)
  have "server_step s1 s2" unfolding s2_def using c1 by (intro server_step.begin_conn) (simp_all add: new_conn_def)
  moreover have "serveHTTP 5 ?req (Some 0) True s2 = (ControlStream, s3)"
    using c2 by (simp add: serveHTTP_def serve_control_def s3_def new_conn_def)
  then have "server_step s2 s3"
    by (rule server_step.request) (simp add: c2)
  moreover have "server_step s3 s4" unfolding s4_def using c3 by (intro server_step.load) simp_all
  moreover have "server_step s4 s5" unfolding s5_def using c4 by (intro server_step.control_proof) simp_all
  moreover have "server_step s5 s6" unfolding s6_def using c5 by (intro server_step.control_accept) simp_all
  moreover have "server_step s6 s7" unfolding s7_def using c6 by (intro server_step.control_open) simp_all
  ultimately have steps: "server_step\<^sup>*\<^sup>* s0 s7"
    using s0(2) unfolding s1_def [symmetric] by (meson rtranclp.rtrancl_into_rtrancl)
  have "closing s7 = []" "credentials s7 = sample_credentials"
    using cred c6 c5 acc \<open>credentials s5 = sample_credentials\<close>
    by (simp_all add: s7_def control_open_def new_conn_def s6_def control_accept_def)
      (simp add: s5_def control_proof_def key s4_def control_load_def s3_def s2_def conn_begin_def)
  with s0(1) steps c7 that show thesis by (simp add: new_conn_def)
qed


end
