(* ===== verification/Relays.thy ===== *)
theory Relays
  imports Compress "HOL-Library.Sublist"
begin

text \<open>
  The relays of \<open>internal/server/server.go\<close> (\<open>pipe\<close>) and \<open>internal/proxy/proxy.go\<close> (\<open>relay\<close>): what each
  direction copies and how it ends, and how the two goroutines, the loop that collects their
  results and the cancellation of the context interact. \<open>io.Copy\<close> of the standard library is
  modelled by its generic loop.
\<close>

section \<open>Copying\<close>

definition copy_chunk :: "bytes \<Rightarrow> writer \<Rightarrow> (nat \<times> go_error option) \<times> writer" where
  "copy_chunk buf w =
     (case Write buf w of ((n, err), w) \<Rightarrow>
        ((n, if err \<noteq> None then err else if n \<noteq> length buf then Some ErrShortWrite else None), w))"

function io_copy_loop :: "nat \<Rightarrow> source \<Rightarrow> writer \<Rightarrow> (nat \<times> go_error option) \<times> writer" where
  "io_copy_loop n src w =
     (case next_read src of ((buf, readErr), rest) \<Rightarrow>
        (case (if buf = [] then ((0, None), w) else copy_chunk buf w) of
           ((k, Some err), w) \<Rightarrow> ((n + k, Some err), w)
         | ((k, None), w) \<Rightarrow>
             (case readErr of
                Some e \<Rightarrow> ((n + k, if e = EOF then None else Some e), w)
              | None \<Rightarrow> io_copy_loop (n + k) rest w)))"
  by pat_completeness auto

termination
  by (relation "measure (\<lambda>(n, src, w). source_size src)")
     (auto dest!: next_read_none [OF sym])

declare io_copy_loop.simps [simp del]

definition io_Copy :: "source \<Rightarrow> writer \<Rightarrow> (nat \<times> go_error option) \<times> writer" where
  "io_Copy src w = io_copy_loop 0 src w"

text \<open>The error that ends a source, and the source as a reader.\<close>

fun ending :: "source \<Rightarrow> go_error" where
  "ending [] = EOF"
| "ending ((d, e) # rest) = (case e of Some err \<Rightarrow> err | None \<Rightarrow> ending rest)"

definition source_reader :: "source \<Rightarrow> reader" where
  "source_reader src = \<lparr>rbuf = delivered src, rend = ending src\<rparr>"

section \<open>One direction\<close>

text \<open>From a plain connection into the tunnel and from the tunnel to a plain connection.\<close>

definition send_side ::
    "(bytes \<Rightarrow> go_error + bytes) \<Rightarrow> bool \<Rightarrow> bool \<Rightarrow> source \<Rightarrow> writer \<Rightarrow> go_error option \<times> writer" where
  "send_side deflate compressed observe src w =
     (if compressed then (case CopyObserved deflate observe src w of ((n, err), s) \<Rightarrow> (err, dst s))
      else (case io_Copy src w of ((n, err), w) \<Rightarrow> (err, w)))"

definition recv_side :: "inflater \<Rightarrow> bool \<Rightarrow> source \<Rightarrow> writer \<Rightarrow> go_error option \<times> writer" where
  "recv_side inflate compressed src w =
     (if compressed then (case Decopy inflate (source_reader src) w of ((n, err), r, w) \<Rightarrow> (err, w))
      else (case io_Copy src w of ((n, err), w) \<Rightarrow> (err, w)))"

text \<open>The goroutines of \<open>pipe\<close>: the result sent to the channel, the destination, and whether it was
  told that no more data follows. \<open>cw\<close> is the answer of the destination's \<open>CloseWrite\<close>, if it
  has one.\<close>

definition pipe_up ::
    "inflater \<Rightarrow> bool \<Rightarrow> source \<Rightarrow> go_error option option \<Rightarrow> writer \<Rightarrow> go_error option \<times> writer \<times> bool" where
  "pipe_up inflate useComp str cw remote =
     (case recv_side inflate useComp str remote of
        (None, w) \<Rightarrow> (case cw of Some err \<Rightarrow> (err, w, True) | None \<Rightarrow> (None, w, False))
      | (Some err, w) \<Rightarrow> (Some err, w, False))"

definition pipe_down ::
    "(bytes \<Rightarrow> go_error + bytes) \<Rightarrow> bool \<Rightarrow> source \<Rightarrow> go_error option \<Rightarrow> writer \<Rightarrow> go_error option \<times> writer \<times> bool" where
  "pipe_down deflate useComp remote closeErr str =
     (case send_side deflate useComp True remote str of
        (None, w) \<Rightarrow> (closeErr, w, True)
      | (Some err, w) \<Rightarrow> (Some err, w, False))"

definition closeWrite :: "go_error option option \<Rightarrow> go_error option \<times> bool" where
  "closeWrite cw =
     (case cw of
        Some err \<Rightarrow> (err, True)
      | None \<Rightarrow> (Some (ErrorString ''proxy: connection does not support half-close''), False))"

text \<open>The goroutines of the client's \<open>relay\<close>.\<close>

definition relay_up ::
    "(bytes \<Rightarrow> go_error + bytes) \<Rightarrow> bool \<Rightarrow> source \<Rightarrow> go_error option option \<Rightarrow> writer \<Rightarrow> go_error option \<times> writer \<times> bool" where
  "relay_up deflate compressed localR cw remote =
     (case send_side deflate compressed True localR remote of
        (None, w) \<Rightarrow> (case closeWrite cw of (err, fin) \<Rightarrow> (err, w, fin))
      | (Some err, w) \<Rightarrow> (Some err, w, False))"

definition relay_down ::
    "inflater \<Rightarrow> bool \<Rightarrow> source \<Rightarrow> go_error option option \<Rightarrow> writer \<Rightarrow> go_error option \<times> writer \<times> bool" where
  "relay_down inflate compressed remote cw local =
     (case recv_side inflate compressed remote local of
        (None, w) \<Rightarrow> (case closeWrite cw of (err, fin) \<Rightarrow> (err, w, fin))
      | (Some err, w) \<Rightarrow> (Some err, w, False))"

section \<open>Joining both directions\<close>

text \<open>The state of a relay: which goroutines have sent their result, the channel of capacity two, the
  results the loop has received, the callback of the context, whether both connections have
  been aborted, and whether the function returned. \<open>closesAtEnd\<close>: the client's \<open>relay\<close> closes
  both connections when it returns, the server's \<open>pipe\<close> leaves that to its callers.\<close>

datatype afterFunc = Armed | Stopped | Fired

record relay_state =
  upSent :: bool
  downSent :: bool
  results :: "go_error option list"
  collected :: "go_error option list"
  cancelled :: bool
  after :: afterFunc
  aborted :: bool
  finished :: bool
  closesAtEnd :: bool

definition relay_begin :: "bool \<Rightarrow> relay_state" where
  "relay_begin closes =
     \<lparr>upSent = False, downSent = False, results = [], collected = [], cancelled = False, after = Armed, aborted = False,
      finished = False, closesAtEnd = closes\<rparr>"

definition collect_result :: "relay_state \<Rightarrow> relay_state" where
  "collect_result s =
     (case results s of
        [] \<Rightarrow> s
      | err # rest \<Rightarrow> s\<lparr>results := rest, collected := collected s @ [err], aborted := (aborted s \<or> err \<noteq> None)\<rparr>)"

definition relay_cancelled :: "relay_state \<Rightarrow> relay_state" where
  "relay_cancelled s = s\<lparr>after := Fired, aborted := True\<rparr>"

definition relay_return :: "relay_state \<Rightarrow> relay_state" where
  "relay_return s =
     s\<lparr>finished := True, after := (if after s = Armed then Stopped else after s), aborted := (aborted s \<or> closesAtEnd s)\<rparr>"

inductive relay_step :: "relay_state \<Rightarrow> relay_state \<Rightarrow> bool" where
  up: "\<not> upSent s \<Longrightarrow> length (results s) < 2 \<Longrightarrow> relay_step s (s\<lparr>upSent := True, results := results s @ [err]\<rparr>)"
| down: "\<not> downSent s \<Longrightarrow> length (results s) < 2 \<Longrightarrow> relay_step s (s\<lparr>downSent := True, results := results s @ [err]\<rparr>)"
| collect: "results s \<noteq> [] \<Longrightarrow> length (collected s) < 2 \<Longrightarrow> relay_step s (collect_result s)"
| cancel: "\<not> cancelled s \<Longrightarrow> relay_step s (s\<lparr>cancelled := True\<rparr>)"
| fire: "cancelled s \<Longrightarrow> after s = Armed \<Longrightarrow> relay_step s (relay_cancelled s)"
| return: "length (collected s) = 2 \<Longrightarrow> \<not> finished s \<Longrightarrow> relay_step s (relay_return s)"

section \<open>What a copy delivers\<close>

lemma Write_prefix: "Write b w = ((n, e), w') \<Longrightarrow> \<exists>q. prefix q b \<and> wout w' = wout w @ q"
  using Write_extends [of b w n e w'] take_is_prefix by blast

lemma writeFull_prefix: "writeFull b w = (e, w') \<Longrightarrow> \<exists>q. prefix q b \<and> wout w' = wout w @ q"
  using Write_prefix by (fastforce simp: writeFull_def split: prod.splits)

lemma copy_chunk_prefix:
  assumes "copy_chunk b w = ((n, e), w')"
  shows "\<exists>q. prefix q b \<and> wout w' = wout w @ q \<and> (e = None \<longrightarrow> q = b)"
proof -
  obtain k e1 where w: "Write b w = ((k, e1), w')"
    using assms by (auto simp: copy_chunk_def split: prod.splits)
  from Write_extends [OF w] obtain j where j: "wout w' = wout w @ take j b" "k = min j (length b)" by blast
  have "e = None \<Longrightarrow> take j b = b"
    using assms w j(2) by (auto simp: copy_chunk_def split: if_splits)
  with j(1) take_is_prefix show ?thesis by blast
qed

lemma next_read_ending:
  "next_read src = ((buf, e), rest) \<Longrightarrow> ending src = (case e of Some err \<Rightarrow> err | None \<Rightarrow> ending rest)"
  by (auto simp: next_read_def split: list.splits if_splits option.splits)

lemma io_copy_prefix:
  assumes "io_copy_loop n src w = ((t, e), w')"
  shows "\<exists>q. prefix q (delivered src) \<and> wout w' = wout w @ q \<and> (e = None \<longrightarrow> q = delivered src \<and> ending src = EOF)"
  using assms
proof (induction n src w arbitrary: t e w' rule: io_copy_loop.induct)
  case (1 n src w)
  obtain buf er rest where nr: "next_read src = ((buf, er), rest)" by (metis prod.exhaust)
  obtain k ew w1 where c: "(if buf = [] then ((0, None), w) else copy_chunk buf w) = ((k, ew), w1)" by (metis prod.exhaust)
  note d = next_read_delivered [OF nr] next_read_ending [OF nr]
  have q1: "\<exists>q. prefix q buf \<and> wout w1 = wout w @ q \<and> (ew = None \<longrightarrow> q = buf)"
    using c copy_chunk_prefix [of buf w k ew w1] by (cases "buf = []") auto
  show ?case
  proof (cases "ew = None \<and> er = None")
    case True
    with "1.prems" nr c have rec: "io_copy_loop (n + k) rest w1 = ((t, e), w')"
      by (simp add: io_copy_loop.simps [of n src])
    from "1.IH" [OF nr [symmetric] refl, unfolded c] True rec obtain q where
      "prefix q (delivered rest)" "wout w' = wout w1 @ q" "e = None \<longrightarrow> q = delivered rest \<and> ending rest = EOF"
      by fastforce
    with True q1 d show ?thesis
      by (intro exI [of _ "buf @ q"]) auto
  next
    case False
    with "1.prems" nr c have "w' = w1" "e = None \<longrightarrow> ew = None \<and> er = Some EOF"
      by (auto simp: io_copy_loop.simps [of n src] split: option.splits if_splits)
    with q1 d show ?thesis
      by (cases ew) (auto intro: prefix_order.trans)
  qed
qed

text \<open>Decoding what has arrived of a stream of blocks delivers a beginning of its data.\<close>

lemma read_block_cut:
  assumes "block_ok inflate mode buf data" "strict_prefix p (frame mode (length buf) data)"
  shows "\<exists>err r. read_block inflate \<lparr>rbuf = p, rend = e\<rparr> = (BlockEnd err, r) \<and> (err = None \<longrightarrow> p = [] \<and> e = EOF)"
proof (cases "length p < 5")
  case True
  then show ?thesis by (auto simp: read_block_def ReadFull_def)
next
  case False
  let ?h = "[mode] @ be16 (of_nat (length buf)) @ be16 (of_nat (length data))"
  obtain z where z: "frame mode (length buf) data = p @ z" "z \<noteq> []"
    using assms(2) by (auto simp: strict_prefix_def prefix_def)
  from z(1) have len: "length p + length z = 5 + length data"
    by (metis length_append length_frame)
  have "take 5 p = take 5 (frame mode (length buf) data)" using z(1) False by simp
  then have h: "take 5 p = ?h" by (simp add: frame_def be16_def)
  have r: "ReadFull 5 \<lparr>rbuf = p, rend = e\<rparr> = (Inr ?h, \<lparr>rbuf = drop 5 p, rend = e\<rparr>)"
    using False h by (simp add: ReadFull_def)
  have "unat (Uint16 (take 2 (drop 1 ?h))) = length buf" "unat (Uint16 (take 2 (drop 3 ?h))) = length data"
    using assms(1) by (simp_all add: block_ok_def u16_block)
  moreover have "\<exists>err r. ReadFull (length data) \<lparr>rbuf = drop 5 p, rend = e\<rparr> = (Inl err, r)"
    using len z(2) False by (cases z) (auto simp: ReadFull_def)
  ultimately show ?thesis
    using r assms(1) False by (auto simp: read_block_def block_ok_def)
qed

lemma decopy_prefix:
  assumes "stream inflate k raw enc" "prefix p enc" "decopy_loop inflate t \<lparr>rbuf = p, rend = e\<rparr> w = ((t', err), r', w')"
  shows "\<exists>q. prefix q raw \<and> wout w' = wout w @ q \<and> (err = None \<longrightarrow> e = EOF \<and> (p = enc \<longrightarrow> q = raw))"
  using assms
proof (induction arbitrary: p t w rule: stream.induct)
  case stop
  have "\<exists>err1 r. read_block inflate \<lparr>rbuf = [], rend = e\<rparr> = (BlockEnd err1, r) \<and> (err1 = None \<longrightarrow> e = EOF)"
    by (simp add: read_block_def ReadFull_def)
  with stop show ?case
    by (auto simp: decopy_loop.simps [of inflate t])
next
  case (more mode buf data k raw enc)
  show ?case
  proof (cases "prefix (frame mode (length buf) data) p")
    case True
    then obtain p' where p': "p = frame mode (length buf) data @ p'" by (auto simp: prefix_def)
    with more.prems(1) have pp: "prefix p' enc" by simp
    obtain e1 w1 where w1: "writeFull buf w = (e1, w1)" by (metis prod.exhaust)
    from writeFull_prefix [OF w1] obtain q1 where q1: "prefix q1 buf" "wout w1 = wout w @ q1" by blast
    note step = decopy_loop.simps [of inflate t "\<lparr>rbuf = p, rend = e\<rparr>" w] read_block_frame [OF more.hyps(1)]
    show ?thesis
    proof (cases e1)
      case None
      with writeFull_ok [of buf w w1] w1 q1 have "q1 = buf" by simp
      from None more.prems(2) w1 p' step have "decopy_loop inflate (t + length buf) \<lparr>rbuf = p', rend = e\<rparr> w1 = ((t', err), r', w')"
        by simp
      from more.IH [OF pp this] obtain q where
        "prefix q raw" "wout w' = wout w1 @ q" "err = None \<longrightarrow> e = EOF \<and> (p' = enc \<longrightarrow> q = raw)" by blast
      with q1 \<open>q1 = buf\<close> p' show ?thesis by (intro exI [of _ "buf @ q"]) auto
    next
      case (Some x)
      with more.prems(2) w1 p' step have "w' = w1" "err \<noteq> None" by auto
      with q1 show ?thesis by (intro exI [of _ q1]) (auto intro: prefix_order.trans)
    qed
  next
    case False
    with more.prems(1) have "strict_prefix p (frame mode (length buf) data)"
      using prefix_same_cases [of p "frame mode (length buf) data @ enc" "frame mode (length buf) data"]
      by (auto simp: strict_prefix_def)
    from read_block_cut [OF more.hyps(1) this, of e] obtain err1 r where
      "read_block inflate \<lparr>rbuf = p, rend = e\<rparr> = (BlockEnd err1, r)" "err1 = None \<longrightarrow> p = [] \<and> e = EOF" by blast
    with more.prems(2) have "w' = w" "err = None \<longrightarrow> p = [] \<and> e = EOF"
      by (auto simp: decopy_loop.simps [of inflate t "\<lparr>rbuf = p, rend = e\<rparr>" w])
    moreover have "frame mode (length buf) data @ enc \<noteq> []" by (simp add: frame_def)
    ultimately show ?thesis by (intro exI [of _ "[]"]) auto
  qed
qed

text \<open>What an encoding copy has written, however it ended, is a beginning of a stream of blocks of a
  beginning of its source.\<close>

definition encodes :: "inflater \<Rightarrow> bytes \<Rightarrow> bytes \<Rightarrow> bool" where
  "encodes inflate data p = (\<exists>k raw enc. stream inflate k raw enc \<and> prefix raw data \<and> prefix p enc)"

lemma encodes_append:
  assumes "stream inflate k raw enc" "encodes inflate data p"
  shows "encodes inflate (raw @ data) (enc @ p)"
  using assms(2) stream_append [OF assms(1)] unfolding encodes_def by (metis same_prefix_prefix)

lemma encodes_mono: "encodes inflate a p \<Longrightarrow> prefix a b \<Longrightarrow> encodes inflate b p"
  unfolding encodes_def by (meson prefix_order.trans)

lemma encodes_stream: "stream inflate k data p \<Longrightarrow> encodes inflate data p"
  unfolding encodes_def by blast

lemma encodes_Nil: "encodes inflate data []"
  using stream.stop by (fastforce simp: encodes_def)

lemma copy_block_failed:
  assumes "flate_inverse deflate inflate" "copy_block deflate observe buf s = (Some err, s')" "buf \<noteq> []" "length buf \<le> blockSize"
  shows "\<exists>p. wout (dst s') = wout (dst s) @ p \<and> encodes inflate buf p"
proof (cases "choose_block deflate buf (s\<lparr>emptyReads := 0\<rparr>)")
  case (Inl e)
  with assms(2) encodes_Nil show ?thesis by (auto simp: copy_block_def Let_def)
next
  case (Inr x)
  obtain mode data s1 where c: "choose_block deflate buf (s\<lparr>emptyReads := 0\<rparr>) = Inr (mode, data, s1)"
    using Inr by (metis prod.exhaust)
  note ok = choose_block_ok [OF assms(1) c assms(3,4)]
  obtain e w where w: "writeFull (frame mode (length buf) data) (dst s1) = (e, w)" by (metis prod.exhaust)
  with assms(2) c have "dst s' = w" by (auto simp: copy_block_def Let_def split: option.splits)
  moreover from writeFull_prefix [OF w] obtain q where "prefix q (frame mode (length buf) data)" "wout w = wout (dst s1) @ q" by blast
  moreover have "stream inflate 1 buf (frame mode (length buf) data)" using ok stream_single by blast
  ultimately show ?thesis using ok unfolding encodes_def by auto
qed

lemma copy_loop_prefix:
  assumes "flate_inverse deflate inflate" "copy_loop deflate observe src s = ((t, e), s')"
  shows "\<exists>p. wout (dst s') = wout (dst s) @ p \<and> encodes inflate (delivered src) p \<and>
    (e = None \<longrightarrow> ending src = EOF \<and> (\<exists>k. stream inflate k (delivered src) p))"
  using assms
proof (induction deflate observe src s arbitrary: t e s' rule: copy_loop.induct)
  case (1 deflate observe src s)
  obtain buf er rest where nr: "next_read src = ((buf, er), rest)" by (metis prod.exhaust)
  note d = next_read_delivered [OF nr] next_read_ending [OF nr]
  show ?case
  proof (cases "buf = []")
    case True
    show ?thesis
    proof (cases er)
      case (Some x)
      with True "1.prems"(2) nr have "s' = s" "e = None \<longrightarrow> x = EOF"
        by (auto simp: copy_loop.simps [of deflate observe src] split: if_splits)
      with d True Some stream.stop encodes_Nil show ?thesis
        by (intro exI [of _ "[]"]) fastforce
    next
      case None
      then show ?thesis
      proof (cases "100 \<le> emptyReads s + 1")
        case True
        with \<open>buf = []\<close> None "1.prems"(2) nr encodes_Nil show ?thesis
          by (auto simp: copy_loop.simps [of deflate observe src] Let_def)
      next
        case False
        with \<open>buf = []\<close> None "1.prems"(2) nr
        have "copy_loop deflate observe rest (s\<lparr>emptyReads := emptyReads s + 1\<rparr>) = ((t, e), s')"
          by (simp add: copy_loop.simps [of deflate observe src])
        from "1.IH"(2) [OF nr [symmetric] refl _ None refl _ "1.prems"(1) this] False \<open>buf = []\<close> d None show ?thesis
          by simp
      qed
    qed
  next
    case False
    obtain eb s1 where b: "copy_block deflate observe buf s = (eb, s1)" by (metis prod.exhaust)
    show ?thesis
    proof (cases eb)
      case (Some x)
      with b "1.prems"(2) nr False have "s' = s1" "e = Some x"
        by (auto simp: copy_loop.simps [of deflate observe src])
      with copy_block_failed [OF "1.prems"(1) b [unfolded Some] False] d show ?thesis
        by (metis encodes_mono option.distinct(1) prefixI)
    next
      case None
      note w = copy_block_written [OF "1.prems"(1) b [unfolded None] False]
      from w d obtain k enc where k: "stream inflate k buf enc" "wout (dst s1) = wout (dst s) @ enc"
        by (auto simp: written_def)
      show ?thesis
      proof (cases er)
        case (Some x)
        with b None "1.prems"(2) nr False have "s' = s1" "e = None \<longrightarrow> x = EOF"
          by (auto simp: copy_loop.simps [of deflate observe src] split: if_splits)
        with k d Some encodes_stream [OF k(1)] show ?thesis
          by (intro exI [of _ enc]) auto
      next
        case er: None
        with b None "1.prems"(2) nr False have "copy_loop deflate observe rest s1 = ((t, e), s')"
          by (simp add: copy_loop.simps [of deflate observe src])
        from "1.IH"(1) [OF nr [symmetric] refl False b [symmetric] None er "1.prems"(1) this] obtain p where
          p: "wout (dst s') = wout (dst s1) @ p" "encodes inflate (delivered rest) p"
            "e = None \<longrightarrow> ending rest = EOF \<and> (\<exists>k. stream inflate k (delivered rest) p)" by blast
        with k d er encodes_append [OF k(1) p(2)] stream_append [OF k(1)] show ?thesis
          by (intro exI [of _ "enc @ p"]) auto
      qed
    qed
  qed
qed

section \<open>End to end\<close>

lemma CopyObserved_prefix:
  assumes "flate_inverse deflate inflate" "CopyObserved deflate observe src w = ((t, e), s')"
  shows "\<exists>p. wout (dst s') = wout w @ p \<and> encodes inflate (delivered src) p \<and>
    (e = None \<longrightarrow> ending src = EOF \<and> (\<exists>k. stream inflate k (delivered src) p))"
  using assms copy_loop_prefix [OF assms(1), of observe src "copy_start w"]
  by (fastforce simp: CopyObserved_def copy_start_def split: prod.splits)

text \<open>What a QUIC stream gives its reader: a beginning of what was written, in order, and an end of
  file only after everything, when the writer closed its side.\<close>

definition carried :: "writer \<Rightarrow> bool \<Rightarrow> source \<Rightarrow> bool" where
  "carried w fin src = (prefix (delivered src) (wout w) \<and> (ending src = EOF \<longrightarrow> fin \<and> delivered src = wout w))"

lemma sides_deliver:
  assumes "flate_inverse deflate inflate" "send_side deflate compressed observe src good_writer = (e1, w1)"
    "carried w1 fin wire" "fin \<longrightarrow> e1 = None" "recv_side inflate compressed wire w = (e2, w2)"
  shows "\<exists>q. prefix q (delivered src) \<and> wout w2 = wout w @ q \<and>
    (e2 = None \<longrightarrow> q = delivered src \<and> ending src = EOF \<and> fin)"
proof (cases compressed)
  case False
  with assms(2) obtain n where "io_copy_loop 0 src good_writer = ((n, e1), w1)"
    by (auto simp: send_side_def io_Copy_def split: prod.splits)
  from io_copy_prefix [OF this] have s: "prefix (wout w1) (delivered src)" "e1 = None \<longrightarrow> wout w1 = delivered src \<and> ending src = EOF"
    by (auto simp: good_writer_def)
  from False assms(5) obtain k where "io_copy_loop 0 wire w = ((k, e2), w2)"
    by (auto simp: recv_side_def io_Copy_def split: prod.splits)
  from io_copy_prefix [OF this] obtain q where q: "prefix q (delivered wire)" "wout w2 = wout w @ q"
      "e2 = None \<longrightarrow> q = delivered wire \<and> ending wire = EOF" by blast
  with s assms(3,4) show ?thesis
    unfolding carried_def by (metis prefix_order.trans)
next
  case True
  with assms(2) obtain n s where c: "CopyObserved deflate observe src good_writer = ((n, e1), s)" "w1 = dst s"
    by (auto simp: send_side_def split: prod.splits)
  from CopyObserved_prefix [OF assms(1) c(1)] c(2) have p: "encodes inflate (delivered src) (wout w1)"
      "e1 = None \<longrightarrow> ending src = EOF \<and> (\<exists>k. stream inflate k (delivered src) (wout w1))"
    by (auto simp: good_writer_def)
  from True assms(5) obtain k r where d: "decopy_loop inflate 0 \<lparr>rbuf = delivered wire, rend = ending wire\<rparr> w = ((k, e2), r, w2)"
    by (auto simp: recv_side_def Decopy_def source_reader_def split: prod.splits)
  show ?thesis
  proof (cases "e2 = None")
    case False
    from p(1) assms(3) obtain j raw enc where "stream inflate j raw enc" "prefix raw (delivered src)" "prefix (delivered wire) enc"
      unfolding encodes_def carried_def by (meson prefix_order.trans)
    with decopy_prefix [OF this(1,3) d] False show ?thesis by (meson prefix_order.trans)
  next
    case None: True
    obtain j raw enc where "stream inflate j raw enc" "prefix (delivered wire) enc"
      using p(1) assms(3) unfolding encodes_def carried_def by (meson prefix_order.trans)
    from decopy_prefix [OF this d] None have "ending wire = EOF" by blast
    with assms(3,4) p(2) obtain i where f: "fin" "delivered wire = wout w1" "ending src = EOF"
        "stream inflate i (delivered src) (wout w1)"
      unfolding carried_def by blast
    from decopy_prefix [OF f(4) _ d] None f show ?thesis by auto
  qed
qed

section \<open>Both directions are joined\<close>

definition relay_inv :: "relay_state \<Rightarrow> bool" where
  "relay_inv s =
     (length (results s) + length (collected s) + (if upSent s then 0 else 1) + (if downSent s then 0 else 1) = 2 \<and>
      ((\<exists>err \<in> set (collected s). err \<noteq> None) \<longrightarrow> aborted s) \<and>
      (aborted s \<longrightarrow> (\<exists>err \<in> set (collected s). err \<noteq> None) \<or> cancelled s \<or> (finished s \<and> closesAtEnd s)) \<and>
      (after s = Fired \<longrightarrow> aborted s) \<and> (after s = Stopped \<longrightarrow> finished s) \<and>
      (finished s \<longrightarrow> length (collected s) = 2 \<and> after s \<noteq> Armed \<and> (closesAtEnd s \<longrightarrow> aborted s)))"

interpretation joining: inductive_invariant "\<lambda>s. \<exists>b. s = relay_begin b" relay_step relay_inv
proof unfold_locales
  show "\<exists>b. s = relay_begin b \<Longrightarrow> relay_inv s" for s
    by (auto simp: relay_inv_def relay_begin_def)
  fix s t
  assume inv: "relay_inv s" and step: "relay_step s t"
  from step show "relay_inv t"
  proof cases
    case collect
    obtain err rest where "results s = err # rest" using collect(2) by (cases "results s") auto
    with inv collect show ?thesis by (simp add: relay_inv_def collect_result_def) blast
  qed (use inv in \<open>auto simp: relay_inv_def relay_cancelled_def relay_return_def split: if_splits\<close>)
qed

text \<open>Every step but the first use of the context brings the relay closer to its end.\<close>

definition relay_measure :: "relay_state \<Rightarrow> nat" where
  "relay_measure s =
     (if upSent s then 0 else 2) + (if downSent s then 0 else 2) + length (results s) + (if cancelled s then 0 else 1) +
     (if after s = Armed then 1 else 0) + (if finished s then 0 else 1)"

lemma relay_measure_step: "relay_step s t \<Longrightarrow> relay_measure t < relay_measure s"
  by (erule relay_step.cases) (auto simp: relay_measure_def collect_result_def relay_cancelled_def relay_return_def
    split: list.splits)

lemma relay_measure_steps: "(relay_step ^^ n) s t \<Longrightarrow> n + relay_measure t \<le> relay_measure s"
proof (induction n arbitrary: t)
  case (Suc n)
  then obtain u where "(relay_step ^^ n) s u" "relay_step u t" by auto
  with Suc.IH [of u] relay_measure_step [of u t] show ?case by linarith
qed simp

section \<open>Properties\<close>




lemma sample_relay:
  "relay_step\<^sup>*\<^sup>* (relay_begin False)
     ((relay_begin False)\<lparr>upSent := True, downSent := True, collected := [None, Some EOF], after := Stopped, aborted := True, finished := True\<rparr>)"
proof -
  let ?s0 = "relay_begin False"
  let ?s1 = "?s0\<lparr>upSent := True, results := [None]\<rparr>"
  let ?s2 = "?s1\<lparr>downSent := True, results := [None, Some EOF]\<rparr>"
  let ?s3 = "?s2\<lparr>results := [Some EOF], collected := [None]\<rparr>"
  let ?s4 = "?s2\<lparr>results := [], collected := [None, Some EOF], aborted := True\<rparr>"
  have "relay_step ?s0 ?s1" using relay_step.up [of ?s0 None] by (simp add: relay_begin_def)
  moreover have "relay_step ?s1 ?s2" using relay_step.down [of ?s1 "Some EOF"] by (simp add: relay_begin_def)
  moreover have "relay_step ?s2 ?s3" using relay_step.collect [of ?s2] by (simp add: relay_begin_def collect_result_def)
  moreover have "relay_step ?s3 ?s4" using relay_step.collect [of ?s3] by (simp add: relay_begin_def collect_result_def)
  moreover have "relay_step ?s4 (relay_return ?s4)" by (rule relay_step.return) (simp_all add: relay_begin_def)
  ultimately have "relay_step\<^sup>*\<^sup>* ?s0 (relay_return ?s4)"
    by (meson converse_rtranclp_into_rtranclp r_into_rtranclp)
  then show ?thesis by (simp add: relay_return_def relay_begin_def)
qed




end
