(* ===== verification/Spec2Isabelle.thy ===== *)
theory Spec2Isabelle
  imports Protocol_Frame Admission Acl_Dial Udp_Nat_Inv Compress Tunnel Config Server_Spec Relays
begin

text \<open>
  A verification of \<open>wanopt-proxy\<close>, a QUIC tunnel with local SOCKS5 and HTTP proxies.

  \<^bold>\<open>The program.\<close> A client accepts SOCKS5 and HTTP proxy connections on loopback, opens a
  stream per connection (or a datagram association per UDP flow) in an authenticated QUIC
  session, and writes a request naming the destination. The server authenticates the session,
  applies its destination policy, dials the resolved address and relays, optionally through a
  block compressor. Both sides bound their work by budgets.

  \<^bold>\<open>Theories.\<close>
  \<^item> \<open>Wanopt_Prelude\<close>: bytes, errors, readers and writers, big-endian integers, the
    locale \<open>inductive_invariant\<close> for components that run as interleaved steps.
  \<^item> \<open>Go_Strings\<close>, \<open>Go_Net\<close>, \<open>Go_Net_Print\<close>, \<open>Go_Varint\<close>: the parts of Go's standard
    library the program uses, as executable functions (\<open>strings\<close>, \<open>strconv\<close>,
    \<open>net.ParseIP\<close>, \<open>net.IP.String\<close>, \<open>net.ParseCIDR\<close>, \<open>net.SplitHostPort\<close>,
    \<open>binary.Uvarint\<close>), with the print/parse round trips.
  \<^item> \<open>Protocol_Address\<close>: \<open>internal/protocol/address.go\<close>. Validation, textual form, wire
    form and both decoders; the locales \<open>stream_codec\<close> and \<open>bounded_codec\<close>.
  \<^item> \<open>Protocol_Frame\<close>: \<open>internal/protocol/frame.go\<close>. Stream request and reply (as
    interpretations of \<open>bounded_codec\<close>) and the UDP envelope.
  \<^item> \<open>Admission\<close>: \<open>internal/admission/budget.go\<close>. The request budget and its leases under
    every interleaving.
  \<^item> \<open>Acl\<close>, \<open>Acl_Dial\<close>: \<open>internal/acl/acl.go\<close>. Destination policies, name resolution with
    its bound on lookups, dialling and the race of the address families as a step relation.
  \<^item> \<open>Udp_Nat\<close>, \<open>Udp_Nat_Inv\<close>: \<open>internal/server/udp.go\<close>. The flow table of a session, its
    queues, workers, reply pumps, token bucket and close; the operations are cut where the
    code releases its mutex, and the invariant holds under every interleaving.
  \<^item> \<open>Compress\<close>: \<open>internal/compress/compress.go\<close>. Block framing, the choice between raw and
    deflated blocks, statistics and expansion, over an encoder and a decoder that are arguments.
  \<^item> \<open>Go_Crypto\<close>, \<open>Go_Url\<close>: SHA-256, HMAC, base64 and PEM, and the parts of \<open>path/filepath\<close>
    and \<open>net/url\<close> that the configuration uses, as executable functions.
  \<^item> \<open>Tunnel\<close>: \<open>internal/tunnel\<close>. The mutual proof of the shared key, the window of keys a
    server accepts, pinned certificates, QUIC settings, and the binding of a context to a stream.
  \<^item> \<open>Config\<close>: \<open>internal/config\<close> and \<open>internal/safefile/read.go\<close>. Reading a file, the
    defaults and every check of both configurations; the YAML decoder is an argument.
  \<^item> \<open>Server\<close>, \<open>Server_Inv\<close>, \<open>Server_Spec\<close>: \<open>internal/server/server.go\<close> and \<open>credentials.go\<close>.
    Accepting connections, the control stream, admission of proxy streams, the answer to a stream
    request and the revocation of keys as a step relation; its invariant; and a machine over
    sessions that says what the server promises, which \<open>server_step\<close> refines.
  \<^item> \<open>Relays\<close>: \<open>pipe\<close> of \<open>internal/server/server.go\<close> and \<open>relay\<close> of \<open>internal/proxy/proxy.go\<close>. What
    each direction delivers, end to end over both sides, and how the two directions are joined.

  \<^bold>\<open>Conventions.\<close> A Go string is a \<open>string\<close> whose characters are its bytes; a nil slice and
  an empty one are the empty list; a fallible function returns a sum whose left side is the
  error; a reader is the bytes its peer sends and the error that ends them; a writer has a
  plan of the answers of the environment, so that short and failed writes are covered.

  \<^bold>\<open>Bounds.\<close> No definition runs on fuel: loops are functions with a termination proof, and
  interleavings are step relations without a bound on their length. A source of reads is a finite
  list, so a copy is total. Times are integers in nanoseconds.

  \<^bold>\<open>Not modelled.\<close> The client's session management (\<open>internal/client\<close>), the SOCKS5 and HTTP front
  ends and the listener slots of \<open>internal/proxy\<close>, the decoy site, and the commands, which wire
  these parts together, are not part of the development. Of the server, \<open>ListenAndServe\<close>,
  \<open>ServePacketConn\<close> and the joining of workers at the end of \<open>Serve\<close> are left out. Metrics are calls
  into a library; \<open>tools/wanbench\<close> is a benchmark outside the product.
\<close>

end
